(* ===== verification/Prelude.thy ===== *)
theory Prelude
  imports Main "HOL-Library.Word"
begin

text \<open>
  The shared base of the development: what the C code of the server takes from the language
  and its standard library, and the automation the component theories share.

  \<^item> Undefined behaviour is a value: a computation is of type \<open>ub + 'a\<close>, \<open>Inl\<close> naming the
    kind of undefined behaviour it runs into, and computations are sequenced with
    \<open>res_bind\<close>.
  \<^item> A memory block is a list of cells, \<open>None\<close> for a byte that was never written.  Reading a
    C string from a block fails on such a byte and on the end of the block.
  \<^item> The outcome of allocations is an argument of type \<open>mem\<close>: the list of the outcomes of
    the next calls of \<open>malloc\<close>, the empty list when none of them fails.
  \<^item> \<open>size_t\<close> is a natural number below \<open>2 ^ 64\<close> with the wrap-around written out, \<open>int\<close> a
    value of \<open>int\<close> brought into range by \<open>int32\<close>, \<open>char\<close> the type \<open>char\<close> of HOL, which has
    256 values.
\<close>

named_theorems res_simps \<open>inversion of computations that may run into undefined behaviour\<close>
named_theorems wf_intros \<open>preservation of well-formedness by the operations\<close>

section \<open>Undefined behaviour and errors\<close>

text \<open>The undefined behaviours that the modelled code can run into.\<close>

datatype ub = NullDeref | OutOfBounds | Dangling | Uninit

definition res_bind :: "ub + 'a \<Rightarrow> ('a \<Rightarrow> ub + 'b) \<Rightarrow> ub + 'b" where
  "res_bind m f = (case m of Inl e \<Rightarrow> Inl e | Inr x \<Rightarrow> f x)"

lemma res_bind_Inl [simp]: "res_bind (Inl e) f = Inl e"
  by (simp add: res_bind_def)

lemma res_bind_Inr [simp]: "res_bind (Inr x) f = f x"
  by (simp add: res_bind_def)

lemma res_bind_eq_Inr [res_simps]:
  "res_bind m f = Inr y \<longleftrightarrow> (\<exists>x. m = Inr x \<and> f x = Inr y)"
  by (cases m) auto

lemma res_bind_assoc: "res_bind (res_bind m f) g = res_bind m (\<lambda>x. res_bind (f x) g)"
  by (cases m) auto

lemma res_bind_cong [fundef_cong]:
  "m = m' \<Longrightarrow> (\<And>x. m' = Inr x \<Longrightarrow> f x = f' x) \<Longrightarrow> res_bind m f = res_bind m' f'"
  by (cases m') auto

text \<open>A loop over a list whose body may fail.\<close>

fun fold_res :: "('b \<Rightarrow> 'a \<Rightarrow> ub + 'b) \<Rightarrow> 'b \<Rightarrow> 'a list \<Rightarrow> ub + 'b" where
  "fold_res f b [] = Inr b"
| "fold_res f b (x # xs) = res_bind (f b x) (\<lambda>b'. fold_res f b' xs)"

lemma fold_res_append: "fold_res f b (xs @ ys) = res_bind (fold_res f b xs) (\<lambda>b'. fold_res f b' ys)"
  by (induction xs arbitrary: b) (simp_all add: res_bind_assoc)

fun map_res :: "('a \<Rightarrow> ub + 'b) \<Rightarrow> 'a list \<Rightarrow> ub + 'b list" where
  "map_res f [] = Inr []"
| "map_res f (x # xs) = res_bind (f x) (\<lambda>y. res_bind (map_res f xs) (\<lambda>ys. Inr (y # ys)))"

lemma map_res_eq_map: "(\<And>x. x \<in> set xs \<Longrightarrow> f x = Inr (g x)) \<Longrightarrow> map_res f xs = Inr (map g xs)"
  by (induction xs) auto

section \<open>Characters\<close>

text \<open>The character constants of \<^verbatim>\<open>parser.h\<close>.\<close>

definition NUL :: char where "NUL = CHR 0x00"
definition LF :: char where "LF = CHR 0x0A"
definition CR :: char where "CR = CHR 0x0D"
definition SPACE :: char where "SPACE = CHR 0x20"

lemmas char_consts = NUL_def LF_def CR_def SPACE_def

lemma char_consts_distinct [simp]:
  "NUL \<noteq> LF" "NUL \<noteq> CR" "NUL \<noteq> SPACE" "LF \<noteq> NUL" "LF \<noteq> CR" "LF \<noteq> SPACE"
  "CR \<noteq> NUL" "CR \<noteq> LF" "CR \<noteq> SPACE" "SPACE \<noteq> NUL" "SPACE \<noteq> LF" "SPACE \<noteq> CR"
  by (simp_all add: char_consts)

text \<open>A C string is written as the list of its bytes before the terminator.\<close>

definition cstring :: "string \<Rightarrow> bool" where
  "cstring s \<longleftrightarrow> NUL \<notin> set s"

lemma cstring_simps [simp]:
  "cstring []"
  "cstring (c # s) \<longleftrightarrow> c \<noteq> NUL \<and> cstring s"
  "cstring (s @ t) \<longleftrightarrow> cstring s \<and> cstring t"
  by (auto simp: cstring_def)

lemma cstring_takeWhile [simp]: "cstring (takeWhile (\<lambda>c. c \<noteq> NUL) s)"
  by (auto simp: cstring_def dest: set_takeWhileD)

lemma cstring_takeWhile_id: "cstring s \<Longrightarrow> takeWhile (\<lambda>c. c \<noteq> NUL) s = s"
  by (auto simp: cstring_def takeWhile_eq_all_conv)

section \<open>Machine integers\<close>

text \<open>\<open>size_t\<close> arithmetic on a 64-bit target.\<close>

definition size_mod :: nat where "size_mod = 2 ^ 64"

definition size_add :: "nat \<Rightarrow> nat \<Rightarrow> nat" where
  "size_add a b = (a + b) mod size_mod"

definition size_mul :: "nat \<Rightarrow> nat \<Rightarrow> nat" where
  "size_mul a b = (a * b) mod size_mod"

definition size_sub :: "nat \<Rightarrow> nat \<Rightarrow> nat" where
  "size_sub a b = nat ((int a - int b) mod int size_mod)"

lemma size_add_exact [simp]: "a + b < size_mod \<Longrightarrow> size_add a b = a + b"
  by (simp add: size_add_def)

lemma size_mul_exact: "a * b < size_mod \<Longrightarrow> size_mul a b = a * b"
  by (simp add: size_mul_def)

lemma size_sub_exact [simp]: "b \<le> a \<Longrightarrow> a < size_mod \<Longrightarrow> size_sub a b = a - b"
proof -
  assume "b \<le> a" and "a < size_mod"
  then have "(int a - int b) mod int size_mod = int a - int b"
    by (intro mod_pos_pos_trivial) auto
  with \<open>b \<le> a\<close> show ?thesis by (simp add: size_sub_def)
qed

lemma size_sub_zero: "size_sub 0 1 = size_mod - 1"
  by (simp add: size_sub_def size_mod_def)

lemma size_bounds [simp]: "size_add a b < size_mod" "size_mul a b < size_mod"
  by (simp_all add: size_add_def size_mul_def size_mod_def)

text \<open>
  Conversion to a 32-bit \<open>int\<close>, as the compiler does it: the low 32 bits read as two's
  complement.
\<close>

definition int32 :: "int \<Rightarrow> int" where
  "int32 n = signed_take_bit 31 n"

definition INT_MAX :: int where "INT_MAX = 2 ^ 31 - 1"
definition INT_MIN :: int where "INT_MIN = - (2 ^ 31)"

lemma int32_range: "INT_MIN \<le> int32 n" "int32 n \<le> INT_MAX"
  using signed_take_bit_int_greater_eq_minus_exp [of 31 n]
    signed_take_bit_int_less_exp [of 31 n]
  by (simp_all add: int32_def INT_MAX_def INT_MIN_def)

lemma int32_id: "INT_MIN \<le> n \<Longrightarrow> n \<le> INT_MAX \<Longrightarrow> int32 n = n"
  by (simp add: int32_def INT_MAX_def INT_MIN_def signed_take_bit_int_eq_self)

lemma int32_le: "0 \<le> n \<Longrightarrow> int32 n \<le> n"
  by (cases "n \<le> INT_MAX") (use int32_range(2) [of n] in \<open>auto simp: int32_id INT_MIN_def\<close>)

section \<open>Memory\<close>

text \<open>
  The outcomes of the next allocations, \<open>[]\<close> when they all succeed, and a block of memory,
  freshly allocated with every byte unwritten.
\<close>

type_synonym mem = "bool list"
type_synonym block = "char option list"

fun malloc :: "mem \<Rightarrow> bool \<times> mem" where
  "malloc [] = (True, [])"
| "malloc (ok # m) = (ok, m)"

definition fresh_block :: "nat \<Rightarrow> block" where
  "fresh_block n = replicate n None"

definition realloc_block :: "block \<Rightarrow> nat \<Rightarrow> block" where
  "realloc_block b n = take n b @ replicate (n - length b) None"

text \<open>\<open>memcpy\<close> of \<open>n\<close> bytes of \<open>src\<close> to offset \<open>i\<close>, and the store of one byte.\<close>

definition block_copy :: "block \<Rightarrow> nat \<Rightarrow> char list \<Rightarrow> nat \<Rightarrow> ub + block" where
  "block_copy b i src n =
     (if n \<le> length src \<and> i + n \<le> length b
      then Inr (take i b @ map Some (take n src) @ drop (i + n) b) else Inl OutOfBounds)"

definition block_put :: "block \<Rightarrow> nat \<Rightarrow> char \<Rightarrow> ub + block" where
  "block_put b i c = (if i < length b then Inr (b[i := Some c]) else Inl OutOfBounds)"

definition block_get :: "block \<Rightarrow> nat \<Rightarrow> ub + char" where
  "block_get b i =
     (if i < length b then (case b ! i of None \<Rightarrow> Inl Uninit | Some c \<Rightarrow> Inr c)
      else Inl OutOfBounds)"

text \<open>The C string at the start of a block, and at an offset.\<close>

fun block_cstr :: "block \<Rightarrow> ub + string" where
  "block_cstr [] = Inl OutOfBounds"
| "block_cstr (None # b) = Inl Uninit"
| "block_cstr (Some c # b) =
     (if c = NUL then Inr [] else res_bind (block_cstr b) (\<lambda>s. Inr (c # s)))"

definition block_cstr_at :: "block \<Rightarrow> nat \<Rightarrow> ub + string" where
  "block_cstr_at b i = block_cstr (drop i b)"

lemma length_realloc_block [simp]: "length (realloc_block b n) = n"
  by (simp add: realloc_block_def)

lemma length_fresh_block [simp]: "length (fresh_block n) = n"
  by (simp add: fresh_block_def)

lemma take_realloc_block: "k \<le> length b \<Longrightarrow> k \<le> n \<Longrightarrow> take k (realloc_block b n) = take k b"
  by (simp add: realloc_block_def min_def)

lemma block_copy_ok:
  "n \<le> length src \<Longrightarrow> i + n \<le> length b \<Longrightarrow>
   block_copy b i src n = Inr (take i b @ map Some (take n src) @ drop (i + n) b)"
  by (simp add: block_copy_def)

lemma block_put_ok: "i < length b \<Longrightarrow> block_put b i c = Inr (b[i := Some c])"
  by (simp add: block_put_def)

lemma block_get_ok: "i < length b \<Longrightarrow> b ! i = Some c \<Longrightarrow> block_get b i = Inr c"
  by (simp add: block_get_def)

lemma block_cstr_written:
  "NUL \<in> set s \<Longrightarrow> block_cstr (map Some s @ b) = Inr (takeWhile (\<lambda>c. c \<noteq> NUL) s)"
  by (induction s) auto

lemma block_cstr_terminated [simp]:
  "cstring s \<Longrightarrow> block_cstr (map Some s @ Some NUL # b) = Inr s"
  by (induction s) auto

lemma block_cstr_cstring [res_simps]: "block_cstr b = Inr s \<Longrightarrow> cstring s"
  by (induction b arbitrary: s rule: block_cstr.induct)
    (auto simp: res_bind_eq_Inr split: if_splits)

end
