(* ===== verification/KvInterface.thy ===== *)
theory KvInterface
  imports Prelude
begin

text \<open>
  The interface between the commands and the snapshot loader on one side and the table they
  work on on the other: a store of key-value pairs with lookup, insertion and removal, whose
  contents are a finite map.  \<open>kv_store\<close> states the laws and proves what a whole sequence of
  operations does (\<open>run_refines\<close>) and what storing a list of pairs does (\<open>store_all\<close>);
  \<open>listed_kv_store\<close> adds the listing of the contents and proves that storing the listing again
  gives the same contents (\<open>reload_same\<close>).
\<close>

text \<open>A sequence of operations, run on a store and on a map.\<close>

datatype ('k, 'v) kv_op = KGet 'k | KSet 'k 'v | KDel 'k

fun kv_step ::
    "('t \<Rightarrow> 'k \<Rightarrow> ub + 'v option) \<Rightarrow> ('t \<Rightarrow> 'k \<times> 'v \<Rightarrow> ub + 't) \<Rightarrow>
     ('t \<Rightarrow> 'k \<Rightarrow> ub + ('v option \<times> 't)) \<Rightarrow> 't \<Rightarrow> ('k, 'v) kv_op \<Rightarrow> ub + ('v option \<times> 't)" where
  "kv_step get store del t (KGet k) = res_bind (get t k) (\<lambda>v. Inr (v, t))"
| "kv_step get store del t (KSet k v) = res_bind (store t (k, v)) (\<lambda>t. Inr (None, t))"
| "kv_step get store del t (KDel k) = del t k"

fun kv_run ::
    "('t \<Rightarrow> 'o \<Rightarrow> ub + ('a \<times> 't)) \<Rightarrow> 't \<Rightarrow> 'o list \<Rightarrow> ub + ('a list \<times> 't)" where
  "kv_run step t [] = Inr ([], t)"
| "kv_run step t (x # xs) =
     res_bind (step t x) (\<lambda>(r, t). res_bind (kv_run step t xs) (\<lambda>(rs, t). Inr (r # rs, t)))"

fun map_step :: "('k \<rightharpoonup> 'v) \<Rightarrow> ('k, 'v) kv_op \<Rightarrow> 'v option \<times> ('k \<rightharpoonup> 'v)" where
  "map_step m (KGet k) = (m k, m)"
| "map_step m (KSet k v) = (None, m(k \<mapsto> v))"
| "map_step m (KDel k) = (m k, m(k := None))"

fun map_run :: "('k \<rightharpoonup> 'v) \<Rightarrow> ('k, 'v) kv_op list \<Rightarrow> 'v option list \<times> ('k \<rightharpoonup> 'v)" where
  "map_run m [] = ([], m)"
| "map_run m (x # xs) =
     (case map_step m x of (r, m) \<Rightarrow> case map_run m xs of (rs, m) \<Rightarrow> (r # rs, m))"

fun op_ok :: "('k \<Rightarrow> 'v \<Rightarrow> bool) \<Rightarrow> ('k, 'v) kv_op \<Rightarrow> bool" where
  "op_ok ok (KSet k v) = ok k v"
| "op_ok ok (KGet k) = True"
| "op_ok ok (KDel k) = True"

section \<open>The contract\<close>

locale kv_store =
  fixes empty :: "'t"
    and get :: "'t \<Rightarrow> 'k \<Rightarrow> ub + 'v option"
    and store :: "'t \<Rightarrow> 'k \<times> 'v \<Rightarrow> ub + 't"
    and del :: "'t \<Rightarrow> 'k \<Rightarrow> ub + ('v option \<times> 't)"
    and model :: "'t \<Rightarrow> 'k \<rightharpoonup> 'v"
    and invar :: "'t \<Rightarrow> bool"
    and ok :: "'k \<Rightarrow> 'v \<Rightarrow> bool"
  assumes empty_ok: "invar empty" "model empty = Map.empty"
    and get_ok: "invar t \<Longrightarrow> get t k = Inr (model t k)"
    and store_ok: "invar t \<Longrightarrow> ok k v \<Longrightarrow>
      \<exists>t'. store t (k, v) = Inr t' \<and> invar t' \<and> model t' = (model t)(k \<mapsto> v)"
    and del_ok: "invar t \<Longrightarrow>
      \<exists>t'. del t k = Inr (model t k, t') \<and> invar t' \<and> model t' = (model t)(k := None)"
begin

lemma step_refines:
  assumes "invar t" and "op_ok ok x"
  shows "\<exists>t'. kv_step get store del t x = Inr (fst (map_step (model t) x), t') \<and> invar t' \<and>
    model t' = snd (map_step (model t) x)"
proof (cases x)
  case (KSet k v)
  with assms store_ok [of t k v] show ?thesis by auto
next
  case (KDel k)
  with assms del_ok [of t k] show ?thesis by auto
qed (use assms get_ok in auto)

lemma run_refines:
  assumes "invar t" and "list_all (op_ok ok) xs"
  shows "\<exists>t'. kv_run (kv_step get store del) t xs = Inr (fst (map_run (model t) xs), t') \<and>
    invar t' \<and> model t' = snd (map_run (model t) xs)"
  using assms
proof (induction xs arbitrary: t)
  case Nil
  then show ?case by simp
next
  case (Cons x xs)
  then obtain t1 where t1: "kv_step get store del t x = Inr (fst (map_step (model t) x), t1)"
      "invar t1" "model t1 = snd (map_step (model t) x)"
    using step_refines [of t x] by auto
  with Cons.IH [of t1] Cons.prems show ?case
    by (auto simp: split_beta)
qed

lemma store_all:
  assumes "invar t" and "\<forall>(k, v) \<in> set kvs. ok k v"
  shows "\<exists>t'. fold_res store t kvs = Inr t' \<and> invar t' \<and> model t' = model t ++ map_of (rev kvs)"
  using assms
proof (induction kvs arbitrary: t)
  case Nil
  then show ?case by simp
next
  case (Cons kv kvs)
  obtain k v where kv: "kv = (k, v)" by force
  with Cons.prems obtain t1 where t1: "store t (k, v) = Inr t1" "invar t1"
      "model t1 = (model t)(k \<mapsto> v)"
    using store_ok [of t k v] by auto
  from Cons.IH [of t1] Cons.prems kv t1(2) obtain t2 where "fold_res store t1 kvs = Inr t2"
      "invar t2" "model t2 = model t1 ++ map_of (rev kvs)"
    by auto
  with t1 kv show ?case by (simp add: map_add_assoc)
qed

end

locale listed_kv_store = kv_store +
  fixes entries :: "'a \<Rightarrow> ('b \<times> 'c) list"
  assumes entries_ok: "invar t \<Longrightarrow>
    distinct (map fst (entries t)) \<and> map_of (entries t) = model t \<and> (\<forall>(k, v) \<in> set (entries t). ok k v)"
begin

lemma entries_card: "invar t \<Longrightarrow> length (entries t) = card (dom (model t))"
proof -
  assume "invar t"
  then have e: "distinct (map fst (entries t))" "dom (model t) = set (map fst (entries t))"
    using entries_ok [of t] by (metis dom_map_of_conv_image_fst image_set)+
  then show ?thesis using distinct_card [OF e(1)] by simp
qed

text \<open>Storing the listing of one store into another lets its pairs override those of the other.\<close>

lemma reload_over:
  assumes "invar t" and "invar s"
  shows "\<exists>s'. fold_res store s (entries t) = Inr s' \<and> invar s' \<and> model s' = model s ++ model t"
proof -
  have "map_of (rev (entries t)) = map_of (entries t)"
    using entries_ok [OF assms(1)] by (subst map_of_inject_set) (auto simp: rev_map [symmetric])
  then have "map_of (rev (entries t)) = model t"
    using entries_ok [OF assms(1)] by simp
  with store_all [OF assms(2)] entries_ok [OF assms(1)] show ?thesis by metis
qed

lemma reload_same:
  assumes "invar t"
  shows "\<exists>s'. fold_res store empty (entries t) = Inr s' \<and> invar s' \<and> model s' = model t"
  using reload_over [OF assms empty_ok(1)] empty_ok(2) by simp

end

end
