(* ===== verification/HashStore.thy ===== *)
theory HashStore
  imports KvInterface
begin

text \<open>
  The hash table of \<^verbatim>\<open>hash.c\<close>: 256 buckets, each a linked list of entries with the newest entry
  first, indexed by the DJB2 hash of the key.  A \<open>HashTable\<close> is the list of its buckets and a
  bucket the list of its entries; the lock of each bucket is not part of it (its acquisition is
  an event of the commands that use the table).  \<open>ht_wf\<close> says that every key sits in the bucket
  its hash names and occurs there once; under it the table is the finite map \<open>ht_lookup\<close>, which
  the lemmas use to say what \<open>hash_get\<close>, \<open>hash_set\<close> and \<open>hash_del\<close> do, and \<open>ht_entries\<close> lists it.
  The locales \<open>kv_store\<close> and \<open>listed_kv_store\<close> are the interface the commands and the snapshot
  loader use, interpreted on the table.
\<close>

section \<open>Hashing\<close>

definition NUM_BUCKETS :: nat where "NUM_BUCKETS = 256"

text \<open>The value of a \<open>char\<close> as an \<open>int\<close>: \<open>char\<close> is signed on the target.\<close>

definition char_int :: "char \<Rightarrow> int" where
  "char_int c = signed_take_bit 7 (of_char c)"

fun hash_loop :: "64 word \<Rightarrow> string \<Rightarrow> 64 word" where
  "hash_loop hash [] = hash"
| "hash_loop hash (c # str) =
     (if c = NUL then hash
      else hash_loop ((push_bit 5 hash + hash) + of_int (char_int c)) str)"

definition hash_fn :: "string \<Rightarrow> nat" where
  "hash_fn str = unat (hash_loop 5381 str mod of_nat NUM_BUCKETS)"

lemma hash_fn_bound [simp]: "hash_fn s < NUM_BUCKETS"
  by (simp add: hash_fn_def NUM_BUCKETS_def unat_mod_distrib)

text \<open>
  The same index from the bytes read as unsigned, with the reduction modulo 256 done at every
  step: neither the sign of \<open>char\<close> nor the 64-bit overflow shows in the result.
\<close>

definition djb2_256 :: "string \<Rightarrow> nat" where
  "djb2_256 s = foldl (\<lambda>h c. (33 * h + of_char c) mod 256) 5 s"

lemma char_int_mod: "char_int c mod 256 = of_char c"
proof -
  have "take_bit 8 (char_int c) = take_bit 8 (of_char c :: int)"
    by (simp add: char_int_def take_bit_signed_take_bit)
  then show ?thesis by (simp add: take_bit_eq_mod)
qed

lemma hash_step_mod:
  "uint (push_bit 5 h + h + of_int (char_int c) :: 64 word) mod 256
    = (33 * (uint h mod 256) + of_char c) mod 256"
proof -
  have "(push_bit 5 h + h + of_int (char_int c) :: 64 word)
      = word_of_int (33 * uint h + char_int c)"
    by (simp add: push_bit_eq_mult word_of_int_uint)
  then have "uint (push_bit 5 h + h + of_int (char_int c) :: 64 word)
      = (33 * uint h + char_int c) mod 2 ^ 64"
    by (simp only: uint_word_of_int) simp
  also have "\<dots> mod 256 = (33 * uint h + char_int c) mod 256"
    by (rule mod_mod_cancel) simp
  also have "\<dots> = (33 * (uint h mod 256) + char_int c mod 256) mod 256"
    by (intro mod_add_cong mod_mult_cong) simp_all
  finally show ?thesis by (simp add: char_int_mod)
qed

lemma hash_loop_mod:
  "cstring s \<Longrightarrow> uint (hash_loop h s) mod 256
     = foldl (\<lambda>h c. (33 * h + of_char c) mod 256) (uint h mod 256) s"
  by (induction s arbitrary: h) (auto simp: hash_step_mod)

lemma foldl_int_nat:
  "foldl (\<lambda>h c. (33 * h + of_char c) mod 256) (int n) s
     = int (foldl (\<lambda>h c. (33 * h + of_char c) mod 256) n s)"
proof (induction s arbitrary: n)
  case (Cons c s)
  have "(33 * int n + of_char c) mod 256 = int ((33 * n + of_char c) mod 256)"
    by (simp add: zmod_int of_nat_of_char)
  then show ?case by (simp only: foldl_Cons Cons.IH)
qed simp

lemma hash_fn_djb2: "cstring s \<Longrightarrow> hash_fn s = djb2_256 s"
proof -
  assume s: "cstring s"
  have "int (hash_fn s) = uint (hash_loop 5381 s) mod 256"
    by (simp add: hash_fn_def NUM_BUCKETS_def unat_mod_distrib zmod_int)
  also have "\<dots> = foldl (\<lambda>h c. (33 * h + of_char c) mod 256) (int 5) s"
    using hash_loop_mod [OF s, of 5381] by simp
  also have "\<dots> = int (djb2_256 s)"
    by (simp only: foldl_int_nat djb2_256_def)
  finally show ?thesis by simp
qed

section \<open>The table and its operations\<close>

record HashEntry =
  e_key :: string
  e_value :: string

record HashTable =
  buckets :: "HashEntry list list"

text \<open>\<open>hash_init\<close>; \<open>lock_init l\<close> is what \<open>pthread_rwlock_init\<close> returns for the lock of bucket \<open>l\<close>.\<close>

definition empty_table :: HashTable where
  "empty_table = \<lparr>buckets = replicate NUM_BUCKETS []\<rparr>"

definition hash_init :: "mem \<Rightarrow> (nat \<Rightarrow> int) \<Rightarrow> HashTable option \<times> mem" where
  "hash_init m lock_init =
     (case malloc m of
        (False, m) \<Rightarrow> (None, m)
      | (True, m) \<Rightarrow>
          if list_ex (\<lambda>l. lock_init l < 0) [0..<NUM_BUCKETS] then (None, m)
          else (Some empty_table, m))"

definition hash_count :: "HashTable option \<Rightarrow> nat" where
  "hash_count htp =
     (case htp of None \<Rightarrow> 0
      | Some ht \<Rightarrow> foldl (\<lambda>count b. foldl (\<lambda>count e. size_add count 1) count b) 0 (take NUM_BUCKETS (buckets ht)))"

text \<open>The two copies of \<open>hash_entry_new\<close> are not checked: \<open>strcpy\<close> writes through a null pointer.\<close>

definition hash_entry_new ::
    "mem \<Rightarrow> string option \<Rightarrow> string option \<Rightarrow> ub + (HashEntry option \<times> mem)" where
  "hash_entry_new m kp vp =
     (case (kp, vp) of
        (Some k, Some v) \<Rightarrow>
          (case malloc m of
             (False, m) \<Rightarrow> Inr (None, m)
           | (True, m) \<Rightarrow>
               (case malloc m of
                  (k_ok, m) \<Rightarrow>
                    (case malloc m of
                       (v_ok, m) \<Rightarrow>
                         if k_ok \<and> v_ok then Inr (Some \<lparr>e_key = k, e_value = v\<rparr>, m)
                         else Inl NullDeref)))
      | _ \<Rightarrow> Inr (None, m))"

text \<open>
  The search loop of \<open>hash_set\<close>: \<open>Some\<close> of the bucket with the value of the key replaced, \<open>None\<close>
  when the key is not in the list.
\<close>

fun set_existing ::
    "mem \<Rightarrow> HashEntry list \<Rightarrow> string \<Rightarrow> string option \<Rightarrow> ub + (HashEntry list \<times> mem) option" where
  "set_existing m [] k vp = Inr None"
| "set_existing m (cur # rest) k vp =
     (if e_key cur = k then
        (case vp of
           None \<Rightarrow> Inl NullDeref
         | Some v \<Rightarrow>
             (case malloc m of
                (False, m) \<Rightarrow> Inl NullDeref
              | (True, m) \<Rightarrow> Inr (Some (cur\<lparr>e_value := v\<rparr> # rest, m))))
      else
        res_bind (set_existing m rest k vp) (\<lambda>r.
        Inr (map_option (\<lambda>(rest, m). (cur # rest, m)) r)))"

definition hash_set ::
    "mem \<Rightarrow> HashTable option \<Rightarrow> string option \<Rightarrow> string option
      \<Rightarrow> ub + (int \<times> HashTable option \<times> mem)" where
  "hash_set m htp kp vp =
     (case htp of
        None \<Rightarrow> Inr (-1, None, m)
      | Some ht \<Rightarrow>
          (case kp of
             None \<Rightarrow> Inl NullDeref
           | Some k \<Rightarrow>
               (let idx = hash_fn k in
                res_bind (set_existing m (buckets ht ! idx) k vp) (\<lambda>found.
                case found of
                  Some (b, m) \<Rightarrow> Inr (0, Some (ht\<lparr>buckets := (buckets ht)[idx := b]\<rparr>), m)
                | None \<Rightarrow>
                    res_bind (hash_entry_new m (Some k) vp) (\<lambda>(ep, m).
                    case ep of
                      None \<Rightarrow> Inr (-1, Some ht, m)
                    | Some e \<Rightarrow>
                        Inr (0, Some (ht\<lparr>buckets := (buckets ht)[idx := e # buckets ht ! idx]\<rparr>), m))))))"

fun bucket_get :: "HashEntry list \<Rightarrow> string \<Rightarrow> string option" where
  "bucket_get [] k = None"
| "bucket_get (cur # rest) k = (if k = e_key cur then Some (e_value cur) else bucket_get rest k)"

definition hash_get :: "HashTable option \<Rightarrow> string option \<Rightarrow> ub + string option" where
  "hash_get htp kp =
     (case htp of
        None \<Rightarrow> Inr None
      | Some ht \<Rightarrow>
          (case kp of
             None \<Rightarrow> Inl NullDeref
           | Some k \<Rightarrow> Inr (bucket_get (buckets ht ! hash_fn k) k)))"

text \<open>
  The loop of \<open>hash_del\<close>: \<open>prev\<close> is the list of the entries already passed, the last one
  first; a hit gives the old value and the bucket with the entry unlinked.
\<close>

fun unlink_entry ::
    "HashEntry list \<Rightarrow> HashEntry list \<Rightarrow> string \<Rightarrow> (string \<times> HashEntry list) option" where
  "unlink_entry prev [] k = None"
| "unlink_entry prev (cur # rest) k =
     (if e_key cur = k
      then Some (e_value cur, if prev = [] then rest else rev prev @ rest)
      else unlink_entry (cur # prev) rest k)"

definition hash_del ::
    "HashTable option \<Rightarrow> string option \<Rightarrow> ub + (string option \<times> HashTable option)" where
  "hash_del htp kp =
     (case htp of
        None \<Rightarrow> Inr (None, None)
      | Some ht \<Rightarrow>
          (case kp of
             None \<Rightarrow> Inl NullDeref
           | Some k \<Rightarrow>
               (let idx = hash_fn k in
                case unlink_entry [] (buckets ht ! idx) k of
                  None \<Rightarrow> Inr (None, Some ht)
                | Some (old, b) \<Rightarrow> Inr (Some old, Some (ht\<lparr>buckets := (buckets ht)[idx := b]\<rparr>)))))"

definition hash_print :: "HashTable option \<Rightarrow> string" where
  "hash_print htp =
     (case htp of None \<Rightarrow> []
      | Some ht \<Rightarrow>
          concat (map (\<lambda>b. concat (map (\<lambda>e. e_key e @ '' -> '' @ e_value e @ [LF]) b)) (buckets ht)))"

section \<open>The table as a finite map\<close>

definition pairs :: "HashEntry list \<Rightarrow> (string \<times> string) list" where
  "pairs b = map (\<lambda>e. (e_key e, e_value e)) b"

definition ht_lookup :: "HashTable \<Rightarrow> string \<Rightarrow> string option" where
  "ht_lookup ht k = map_of (pairs (buckets ht ! hash_fn k)) k"

definition ht_entries :: "HashTable \<Rightarrow> (string \<times> string) list" where
  "ht_entries ht = concat (map pairs (buckets ht))"

definition kv_ok :: "string \<Rightarrow> string \<Rightarrow> bool" where
  "kv_ok k v \<longleftrightarrow> cstring k \<and> cstring v"

definition bucket_wf :: "nat \<Rightarrow> HashEntry list \<Rightarrow> bool" where
  "bucket_wf i b \<longleftrightarrow> distinct (map fst (pairs b)) \<and>
     (\<forall>(k, v) \<in> set (pairs b). hash_fn k = i \<and> kv_ok k v)"

definition ht_wf :: "HashTable \<Rightarrow> bool" where
  "ht_wf ht \<longleftrightarrow> length (buckets ht) = NUM_BUCKETS \<and>
     (\<forall>i < NUM_BUCKETS. bucket_wf i (buckets ht ! i))"

lemma pairs_simps [simp]:
  "pairs [] = []"
  "pairs (e # b) = (e_key e, e_value e) # pairs b"
  "pairs (b @ c) = pairs b @ pairs c"
  "pairs (rev b) = rev (pairs b)"
  by (simp_all add: pairs_def rev_map)

lemma bucket_get_map_of: "bucket_get b k = map_of (pairs b) k"
  by (induction b) auto

lemma bucket_wfD: "bucket_wf i b \<Longrightarrow> (k, v) \<in> set (pairs b) \<Longrightarrow> hash_fn k = i"
  by (auto simp: bucket_wf_def)

lemma ht_wfD: "ht_wf ht \<Longrightarrow> bucket_wf (hash_fn k) (buckets ht ! hash_fn k)"
  by (simp add: ht_wf_def)

text \<open>Replacing one bucket by a well-formed one.\<close>

lemma ht_wf_update [wf_intros]:
  "ht_wf ht \<Longrightarrow> bucket_wf i b \<Longrightarrow> ht_wf (ht\<lparr>buckets := (buckets ht)[i := b]\<rparr>)"
  by (cases "i < NUM_BUCKETS") (auto simp: ht_wf_def nth_list_update list_update_beyond)

lemma ht_lookup_update:
  assumes "ht_wf ht" and "map_of (pairs b) = (map_of (pairs (buckets ht ! hash_fn k)))(k := r)"
  shows "ht_lookup (ht\<lparr>buckets := (buckets ht)[hash_fn k := b]\<rparr>) = (ht_lookup ht)(k := r)"
proof (rule ext)
  fix j
  show "ht_lookup (ht\<lparr>buckets := (buckets ht)[hash_fn k := b]\<rparr>) j = ((ht_lookup ht)(k := r)) j"
    using assms by (cases "hash_fn j = hash_fn k") (auto simp: ht_lookup_def ht_wf_def)
qed

lemma hash_get_lookup: "hash_get (Some ht) (Some k) = Inr (ht_lookup ht k)"
  by (simp add: hash_get_def ht_lookup_def bucket_get_map_of)

subsection \<open>Insertion\<close>

fun replace_value :: "string \<Rightarrow> string \<Rightarrow> HashEntry list \<Rightarrow> HashEntry list" where
  "replace_value k v [] = []"
| "replace_value k v (e # b) =
     (if e_key e = k then e\<lparr>e_value := v\<rparr> # b else e # replace_value k v b)"

definition bucket_put :: "string \<Rightarrow> string \<Rightarrow> HashEntry list \<Rightarrow> HashEntry list" where
  "bucket_put k v b =
     (case map_of (pairs b) k of None \<Rightarrow> \<lparr>e_key = k, e_value = v\<rparr> # b
      | Some _ \<Rightarrow> replace_value k v b)"

definition ht_put :: "HashTable \<Rightarrow> string \<Rightarrow> string \<Rightarrow> HashTable" where
  "ht_put ht k v =
     ht\<lparr>buckets := (buckets ht)[hash_fn k := bucket_put k v (buckets ht ! hash_fn k)]\<rparr>"

lemma set_existing_found:
  "map_of (pairs b) k = Some w \<Longrightarrow>
   set_existing m b k (Some v) =
     (case malloc m of (False, m1) \<Rightarrow> Inl NullDeref
      | (True, m1) \<Rightarrow> Inr (Some (replace_value k v b, m1)))"
  by (induction b) (auto split: prod.splits bool.splits if_splits)

lemma set_existing_missing: "map_of (pairs b) k = None \<Longrightarrow> set_existing m b k vp = Inr None"
  by (induction b) (auto split: if_splits)

lemma map_of_replace_value:
  "map_of (pairs b) k = Some w \<Longrightarrow> map_of (pairs (replace_value k v b)) = (map_of (pairs b))(k \<mapsto> v)"
  by (induction b) (auto split: if_splits)

lemma keys_replace_value [simp]: "map fst (pairs (replace_value k v b)) = map fst (pairs b)"
  by (induction b) auto

lemma set_replace_value: "set (pairs (replace_value k v b)) \<subseteq> insert (k, v) (set (pairs b))"
  by (induction b) auto

lemma map_of_bucket_put: "map_of (pairs (bucket_put k v b)) = (map_of (pairs b))(k \<mapsto> v)"
  by (auto simp: bucket_put_def map_of_replace_value split: option.splits)

lemma bucket_wf_put [wf_intros]:
  "bucket_wf (hash_fn k) b \<Longrightarrow> kv_ok k v \<Longrightarrow> bucket_wf (hash_fn k) (bucket_put k v b)"
  using set_replace_value [of k v b]
  by (auto simp: bucket_wf_def bucket_put_def map_of_eq_None_iff split: option.splits)

lemma hash_set_put: "hash_set [] (Some ht) (Some k) (Some v) = Inr (0, Some (ht_put ht k v), [])"
  by (cases "map_of (pairs (buckets ht ! hash_fn k)) k")
    (simp_all add: hash_set_def set_existing_found set_existing_missing hash_entry_new_def
      ht_put_def bucket_put_def Let_def)

lemma ht_wf_put [wf_intros]: "ht_wf ht \<Longrightarrow> kv_ok k v \<Longrightarrow> ht_wf (ht_put ht k v)"
  unfolding ht_put_def by (intro wf_intros ht_wfD)

lemma ht_lookup_put: "ht_wf ht \<Longrightarrow> ht_lookup (ht_put ht k v) = (ht_lookup ht)(k \<mapsto> v)"
  unfolding ht_put_def by (intro ht_lookup_update map_of_bucket_put)

text \<open>A failing allocator: the allocation that fails decides the outcome.\<close>

lemma hash_set_eq:
  "hash_set m (Some ht) (Some k) (Some v) =
     (case malloc m of (ok1, m1) \<Rightarrow>
        if ht_lookup ht k \<noteq> None then (if ok1 then Inr (0, Some (ht_put ht k v), m1) else Inl NullDeref)
        else if \<not> ok1 then Inr (-1, Some ht, m1)
        else (case malloc m1 of (ok2, m2) \<Rightarrow> case malloc m2 of (ok3, m3) \<Rightarrow>
                if ok2 \<and> ok3 then Inr (0, Some (ht_put ht k v), m3) else Inl NullDeref))"
  by (cases "map_of (pairs (buckets ht ! hash_fn k)) k")
    (auto simp: hash_set_def ht_lookup_def set_existing_found set_existing_missing hash_entry_new_def
      ht_put_def bucket_put_def Let_def split: prod.split bool.split)

lemma hash_set_cases:
  "hash_set m (Some ht) (Some k) (Some v) \<in>
     {Inl NullDeref} \<union> {Inr (-1, Some ht, m') | m'. True} \<union> {Inr (0, Some (ht_put ht k v), m') | m'. True}"
  by (auto simp: hash_set_eq split: prod.splits)

subsection \<open>Removal\<close>

lemma unlink_entry_rest:
  "distinct (map fst (pairs b)) \<Longrightarrow>
   unlink_entry prev b k =
     map_option (\<lambda>v. (v, rev prev @ filter (\<lambda>e. e_key e \<noteq> k) b)) (map_of (pairs b) k)"
proof (induction b arbitrary: prev)
  case (Cons e b)
  show ?case
  proof (cases "e_key e = k")
    case True
    with Cons.prems have "filter (\<lambda>e. e_key e \<noteq> k) b = b"
      by (intro filter_True) (auto simp: pairs_def image_iff)
    with True show ?thesis by simp
  next
    case False
    with Cons show ?thesis by simp
  qed
qed simp

lemma pairs_filter: "pairs (filter (\<lambda>e. e_key e \<noteq> k) b) = filter (\<lambda>(j, v). j \<noteq> k) (pairs b)"
  by (induction b) auto

lemma map_of_filter_key: "map_of (filter (\<lambda>(j, v). j \<noteq> k) xs) = (map_of xs)(k := None)"
  by (induction xs) auto

lemma bucket_wf_filter [wf_intros]:
  "bucket_wf i b \<Longrightarrow> bucket_wf i (filter (\<lambda>e. e_key e \<noteq> k) b)"
  by (auto simp: bucket_wf_def pairs_filter distinct_map_filter)

definition ht_remove :: "HashTable \<Rightarrow> string \<Rightarrow> HashTable" where
  "ht_remove ht k =
     ht\<lparr>buckets := (buckets ht)[hash_fn k := filter (\<lambda>e. e_key e \<noteq> k) (buckets ht ! hash_fn k)]\<rparr>"

lemma ht_wf_remove [wf_intros]: "ht_wf ht \<Longrightarrow> ht_wf (ht_remove ht k)"
  unfolding ht_remove_def by (intro wf_intros ht_wfD)

lemma ht_lookup_remove: "ht_wf ht \<Longrightarrow> ht_lookup (ht_remove ht k) = (ht_lookup ht)(k := None)"
  unfolding ht_remove_def by (intro ht_lookup_update) (simp_all add: pairs_filter map_of_filter_key)

lemma hash_del_remove:
  assumes "ht_wf ht"
  shows "hash_del (Some ht) (Some k) = Inr (ht_lookup ht k, Some (ht_remove ht k))"
proof -
  have d: "distinct (map fst (pairs (buckets ht ! hash_fn k)))"
    using ht_wfD [OF assms, of k] by (simp add: bucket_wf_def)
  show ?thesis
  proof (cases "map_of (pairs (buckets ht ! hash_fn k)) k")
    case None
    then have "filter (\<lambda>e. e_key e \<noteq> k) (buckets ht ! hash_fn k) = buckets ht ! hash_fn k"
      by (force simp: filter_id_conv map_of_eq_None_iff pairs_def)
    with None d show ?thesis
      by (simp add: hash_del_def unlink_entry_rest ht_lookup_def ht_remove_def Let_def)
  next
    case (Some v)
    with d show ?thesis
      by (simp add: hash_del_def unlink_entry_rest ht_lookup_def ht_remove_def Let_def)
  qed
qed

section \<open>The listing of a table\<close>

lemma hash_count_entries:
  assumes "length (ht_entries ht) < size_mod" and "length (buckets ht) = NUM_BUCKETS"
  shows "hash_count (Some ht) = length (ht_entries ht)"
proof -
  have b: "c + length b < size_mod \<Longrightarrow> foldl (\<lambda>count e. size_add count (Suc 0)) c b = c + length b"
    for c and b :: "HashEntry list"
    by (induction b arbitrary: c) auto
  have l: "length (pairs b) = length b" for b
    by (simp add: pairs_def)
  have "c + length (concat (map pairs bs)) < size_mod \<Longrightarrow>
      foldl (\<lambda>count b. foldl (\<lambda>count e. size_add count 1) count b) c bs
        = c + length (concat (map pairs bs))" for c bs
    by (induction bs arbitrary: c) (auto simp: b l)
  from this [of 0 "buckets ht"] assms show ?thesis
    by (simp add: hash_count_def ht_entries_def)
qed

fun buckets_wf :: "nat \<Rightarrow> HashEntry list list \<Rightarrow> bool" where
  "buckets_wf j [] = True"
| "buckets_wf j (b # bs) = (bucket_wf j b \<and> buckets_wf (Suc j) bs)"

lemma buckets_wfI: "(\<And>i. i < length bs \<Longrightarrow> bucket_wf (j + i) (bs ! i)) \<Longrightarrow> buckets_wf j bs"
proof (induction bs arbitrary: j)
  case (Cons b bs)
  from Cons.prems [of 0] have "bucket_wf j b" by simp
  moreover have "buckets_wf (Suc j) bs"
    by (rule Cons.IH) (use Cons.prems [of "Suc i" for i] in auto)
  ultimately show ?case by simp
qed simp

lemma ht_wf_buckets: "ht_wf ht \<Longrightarrow> buckets_wf 0 (buckets ht)"
  by (rule buckets_wfI) (simp add: ht_wf_def)

lemma buckets_wf_keys: "buckets_wf j bs \<Longrightarrow> (k, v) \<in> set (concat (map pairs bs)) \<Longrightarrow> j \<le> hash_fn k \<and> kv_ok k v"
  by (induction bs arbitrary: j) (force simp: bucket_wf_def)+

lemma buckets_wf_distinct: "buckets_wf j bs \<Longrightarrow> distinct (map fst (concat (map pairs bs)))"
proof (induction bs arbitrary: j)
  case (Cons b bs)
  from Cons.prems have b: "bucket_wf j b" and bs: "buckets_wf (Suc j) bs"
    by simp_all
  have disj: "(k, w) \<notin> set (concat (map pairs bs))" if "(k, v) \<in> set (pairs b)" for k v w
    using buckets_wf_keys [OF bs, of k w] bucket_wfD [OF b that] not_less_eq_eq by blast
  have "fst ` set (pairs b) \<inter> fst ` set (concat (map pairs bs)) = {}"
  proof (rule Int_emptyI, elim imageE)
    fix k x y
    assume "k = fst x" "x \<in> set (pairs b)" "k = fst y" "y \<in> set (concat (map pairs bs))"
    then show False using disj [of k "snd x" "snd y"] by (cases x; cases y) (simp only: fst_conv snd_conv)
  qed
  with Cons.IH [OF bs] b show ?case by (simp add: bucket_wf_def)
qed simp

lemma buckets_wf_map_of:
  "buckets_wf j bs \<Longrightarrow> j \<le> hash_fn k \<Longrightarrow> hash_fn k < j + length bs \<Longrightarrow>
   map_of (concat (map pairs bs)) k = map_of (pairs (bs ! (hash_fn k - j))) k"
proof (induction bs arbitrary: j)
  case (Cons b bs)
  show ?case
  proof (cases "hash_fn k = j")
    case True
    then have "(k, v) \<notin> set (concat (map pairs bs))" for v
      using Cons.prems buckets_wf_keys [of "Suc j" bs k v] by auto
    then have "map_of (concat (map pairs bs)) k = None"
      by (force simp: map_of_eq_None_iff)
    with True show ?thesis by (simp add: map_add_def split: option.split)
  next
    case False
    then have "map_of (pairs b) k = None"
      using Cons.prems by (force simp: map_of_eq_None_iff bucket_wf_def)
    with False Cons show ?thesis by (simp add: map_add_def nth_Cons' split: option.splits)
  qed
qed simp

lemma ht_entries_distinct: "ht_wf ht \<Longrightarrow> distinct (map fst (ht_entries ht))"
  unfolding ht_entries_def by (rule buckets_wf_distinct [OF ht_wf_buckets])

lemma ht_entries_ok: "ht_wf ht \<Longrightarrow> (k, v) \<in> set (ht_entries ht) \<Longrightarrow> kv_ok k v"
  unfolding ht_entries_def using buckets_wf_keys ht_wf_buckets by blast

lemma ht_entries_lookup: "ht_wf ht \<Longrightarrow> map_of (ht_entries ht) = ht_lookup ht"
  using buckets_wf_map_of [OF ht_wf_buckets, of ht]
  by (auto simp: ht_entries_def ht_lookup_def ht_wf_def)

lemma ht_wf_empty [wf_intros]: "ht_wf empty_table"
  by (simp add: ht_wf_def empty_table_def bucket_wf_def)

lemma ht_lookup_empty: "ht_lookup empty_table = Map.empty"
  by (simp add: fun_eq_iff ht_lookup_def empty_table_def)

section \<open>The table provides the interface\<close>

definition ht_store :: "HashTable \<Rightarrow> string \<times> string \<Rightarrow> ub + HashTable" where
  "ht_store ht = (\<lambda>(k, v).
     res_bind (hash_set [] (Some ht) (Some k) (Some v)) (\<lambda>(rc, htp, m). Inr (the htp)))"

definition ht_get :: "HashTable \<Rightarrow> string \<Rightarrow> ub + string option" where
  "ht_get ht k = hash_get (Some ht) (Some k)"

definition ht_delete :: "HashTable \<Rightarrow> string \<Rightarrow> ub + (string option \<times> HashTable)" where
  "ht_delete ht k =
     res_bind (hash_del (Some ht) (Some k)) (\<lambda>(old, htp). Inr (old, the htp))"

lemma ht_store_put: "ht_store ht (k, v) = Inr (ht_put ht k v)"
  by (simp add: ht_store_def hash_set_put)

interpretation hs: listed_kv_store empty_table ht_get ht_store ht_delete ht_lookup ht_wf kv_ok
  ht_entries
proof unfold_locales
  fix t k v
  assume "ht_wf t"
  then show "ht_get t k = Inr (ht_lookup t k)"
    and "\<exists>t'. ht_delete t k = Inr (ht_lookup t k, t') \<and> ht_wf t' \<and>
      ht_lookup t' = (ht_lookup t)(k := None)"
    and "distinct (map fst (ht_entries t)) \<and> map_of (ht_entries t) = ht_lookup t \<and>
      (\<forall>(k, v) \<in> set (ht_entries t). kv_ok k v)"
    by (auto simp: ht_get_def hash_get_lookup ht_delete_def hash_del_remove ht_lookup_remove
        ht_wf_remove ht_entries_distinct ht_entries_lookup ht_entries_ok)
next
  fix t k v
  assume "ht_wf t" and "kv_ok k v"
  then show "\<exists>t'. ht_store t (k, v) = Inr t' \<and> ht_wf t' \<and> ht_lookup t' = (ht_lookup t)(k \<mapsto> v)"
    by (simp add: ht_store_put ht_lookup_put ht_wf_put)
qed (simp_all add: ht_wf_empty ht_lookup_empty)

section \<open>Storing the listing of a table again\<close>

text \<open>New entries go to the head of their bucket, so the reloaded buckets are reversed.\<close>

lemma store_bucket:
  assumes "bucket_wf i b" and "i < length (buckets t)"
    and "\<forall>(k, v) \<in> set (pairs b). map_of (pairs (buckets t ! i)) k = None"
  shows "fold_res ht_store t (pairs b) = Inr (t\<lparr>buckets := (buckets t)[i := rev b @ buckets t ! i]\<rparr>)"
  using assms
proof (induction b arbitrary: t)
  case (Cons e b)
  have e: "\<lparr>e_key = e_key e, e_value = e_value e\<rparr> = e" by simp
  let ?t = "t\<lparr>buckets := (buckets t)[i := e # buckets t ! i]\<rparr>"
  from Cons.prems have h: "hash_fn (e_key e) = i" "map_of (pairs (buckets t ! i)) (e_key e) = None"
      "bucket_wf i b" "e_key e \<notin> fst ` set (pairs b)"
    by (auto simp: bucket_wf_def)
  then have "ht_store t (e_key e, e_value e) = Inr ?t"
    by (simp add: ht_store_put ht_put_def bucket_put_def e)
  moreover have "k \<noteq> e_key e" if "(k, v) \<in> set (pairs b)" for k v
    using h(4) that by force
  with Cons.prems h have "fold_res ht_store ?t (pairs b) =
      Inr (?t\<lparr>buckets := (buckets ?t)[i := rev b @ buckets ?t ! i]\<rparr>)"
    by (intro Cons.IH) auto
  ultimately show ?case using Cons.prems(2) by simp
qed simp

lemma store_buckets:
  "buckets_wf (length pre) bs \<Longrightarrow>
   fold_res ht_store \<lparr>buckets = pre @ replicate (length bs) []\<rparr> (concat (map pairs bs))
     = Inr \<lparr>buckets = pre @ map rev bs\<rparr>"
proof (induction bs arbitrary: pre)
  case (Cons b bs)
  have "fold_res ht_store \<lparr>buckets = pre @ replicate (length (b # bs)) []\<rparr> (pairs b)
      = Inr \<lparr>buckets = (pre @ [rev b]) @ replicate (length bs) []\<rparr>"
    using Cons.prems by (subst store_bucket [where i = "length pre"]) (auto simp: list_update_append)
  with Cons.IH [of "pre @ [rev b]"] Cons.prems show ?case
    by (simp add: fold_res_append)
qed simp

lemma store_entries:
  assumes "ht_wf ht"
  shows "fold_res ht_store empty_table (ht_entries ht) = Inr \<lparr>buckets = map rev (buckets ht)\<rparr>"
  using store_buckets [of "[]" "buckets ht"] ht_wf_buckets [OF assms] assms
  by (simp add: ht_entries_def empty_table_def ht_wf_def)

section \<open>Properties\<close>

text \<open>
C9. The table behaves as a finite map.  Any sequence of lookups, insertions of C strings and
removals on a well-formed table returns what the same sequence returns on the map the table
stands for, never runs into undefined behaviour, and ends in a well-formed table that stands for
the final map.
\<close>
theorem table_refines_map:
  assumes "ht_wf t" and "list_all (op_ok kv_ok) xs"
  shows "\<exists>t'. kv_run (kv_step ht_get ht_store ht_delete) t xs = Inr (fst (map_run (ht_lookup t) xs), t') \<and>
    ht_wf t' \<and> ht_lookup t' = snd (map_run (ht_lookup t) xs)"
  using hs.run_refines [OF assms] .

theorem table_refines_map_witness:
  "\<exists>t'. kv_run (kv_step ht_get ht_store ht_delete) empty_table [KSet ''a'' ''1'', KGet ''a'', KDel ''a'', KGet ''a''] =
     Inr ([None, Some ''1'', Some ''1'', None], t') \<and> ht_wf t'"
  using table_refines_map [OF ht_wf_empty, of "[KSet ''a'' ''1'', KGet ''a'', KDel ''a'', KGet ''a'']"]
  by (auto simp: kv_ok_def NUL_def ht_lookup_empty)

text \<open>
C33. \<open>hash_set\<close> with a failing allocator: which allocation fails decides the outcome.  On a
well-formed table there is a well-formed table in which exactly the key is bound to the value, and
\<open>hash_set\<close> returns 0 with it when no allocation it makes fails.  A key that is present needs one
allocation, the copy of the value, which is not checked: when it fails, \<open>strcpy\<close> writes through the
null pointer.  A key that is absent needs three: when the first, the entry itself, fails, \<open>hash_set\<close>
returns -1 and the table is unchanged; when one of the two copies fails, \<open>strcpy\<close> writes through the
null pointer.
\<close>
theorem hash_set_outcomes:
  assumes "ht_wf t" and "kv_ok k v"
  shows "\<exists>t'. ht_wf t' \<and> ht_lookup t' = (ht_lookup t)(k \<mapsto> v) \<and>
    hash_set m (Some t) (Some k) (Some v) =
      (case malloc m of (ok1, m1) \<Rightarrow>
         if ht_lookup t k \<noteq> None then (if ok1 then Inr (0, Some t', m1) else Inl NullDeref)
         else if \<not> ok1 then Inr (-1, Some t, m1)
         else (case malloc m1 of (ok2, m2) \<Rightarrow> case malloc m2 of (ok3, m3) \<Rightarrow>
                 if ok2 \<and> ok3 then Inr (0, Some t', m3) else Inl NullDeref))"
proof (intro exI conjI)
  show "ht_wf (ht_put t k v)" using assms by (rule ht_wf_put)
  show "ht_lookup (ht_put t k v) = (ht_lookup t)(k \<mapsto> v)" using assms(1) by (rule ht_lookup_put)
qed (rule hash_set_eq)

theorem hash_set_outcomes_witness:
  "hash_set [False] (Some empty_table) (Some ''k'') (Some ''v'') = Inr (-1, Some empty_table, []) \<and>
    hash_set [True, False] (Some empty_table) (Some ''k'') (Some ''v'') = Inl NullDeref \<and>
    (\<exists>t'. hash_set [True, True, True, False] (Some empty_table) (Some ''k'') (Some ''v'') = Inr (0, Some t', [False]) \<and>
       ht_lookup t' = [''k'' \<mapsto> ''v''] \<and>
       hash_set [False] (Some t') (Some ''k'') (Some ''w'') = Inl NullDeref)"
proof -
  have k: "kv_ok ''k'' ''v''" "kv_ok ''k'' ''w''" by (simp_all add: kv_ok_def NUL_def)
  note e = hash_set_outcomes [OF ht_wf_empty k(1)]
  obtain t' where t': "ht_wf t'" "ht_lookup t' = [''k'' \<mapsto> ''v'']"
    "hash_set [True, True, True, False] (Some empty_table) (Some ''k'') (Some ''v'') = Inr (0, Some t', [False])"
    using e [of "[True, True, True, False]"] by (auto simp: ht_lookup_empty)
  then show ?thesis
    using e [of "[False]"] e [of "[True, False]"] hash_set_outcomes [OF t'(1) k(2), of "[False]"] by (auto simp: ht_lookup_empty)
qed

text \<open>
\<open>hash_count\<close> is the number of keys: on a well-formed table it returns the size of the
domain of the map the table stands for (up to the wrap-around of \<open>size_t\<close>).
\<close>
lemma hash_count_keys:
  assumes "ht_wf t" and "card (dom (ht_lookup t)) < size_mod"
  shows "hash_count (Some t) = card (dom (ht_lookup t))"
  using hash_count_entries [of t] hs.entries_card [OF assms(1)] assms by (simp add: ht_wf_def)

text \<open>
The hash of a C string is the djb2 hash of its bytes read as unsigned and reduced modulo
256: the sign of \<open>char\<close>, which the loop adds as it is, and the wrap-around of the 64-bit state
do not show in the bucket index, which is below the number of buckets.
\<close>
lemma hash_fn_is_djb2:
  assumes "cstring s"
  shows "hash_fn s = foldl (\<lambda>h c. (33 * h + of_char c) mod 256) 5 s \<and> hash_fn s < NUM_BUCKETS"
  using hash_fn_djb2 [OF assms] hash_fn_bound [of s] by (simp add: djb2_256_def)

end
