(* ===== verification/CLib.thy ===== *)
theory CLib
  imports Prelude
begin

text \<open>
  The functions of the C standard library that compute the values the server stores and sends:
  \<open>atoi\<close> (through \<open>strtol\<close>, which clamps to a 64-bit \<open>long\<close>; the result is then converted to
  \<open>int\<close>, which keeps the low 32 bits) and the decimal conversions of \<open>printf\<close> (\<open>%d\<close>, \<open>%ld\<close>,
  \<open>%zu\<close>).  The main facts: printing and reading back is the identity on every \<open>int\<close>, reading
  never leaves the range of \<open>int\<close>, and a printed number is a C string of bounded length.
\<close>

section \<open>Digits\<close>

definition is_space :: "char \<Rightarrow> bool" where
  "is_space c \<longleftrightarrow> c = CHR 0x20 \<or> (9 \<le> (of_char c :: nat) \<and> (of_char c :: nat) \<le> 13)"

definition is_digit :: "char \<Rightarrow> bool" where
  "is_digit c \<longleftrightarrow> 48 \<le> (of_char c :: nat) \<and> (of_char c :: nat) \<le> 57"

definition digit_val :: "char \<Rightarrow> nat" where
  "digit_val c = of_char c - 48"

definition digit_char :: "nat \<Rightarrow> char" where
  "digit_char d = char_of (48 + d)"

lemma of_char_digit_char [simp]: "d < 10 \<Longrightarrow> (of_char (digit_char d) :: nat) = 48 + d"
  by (simp add: digit_char_def)

lemma digit_char_simps [simp]:
  "d < 10 \<Longrightarrow> is_digit (digit_char d)"
  "d < 10 \<Longrightarrow> digit_val (digit_char d) = d"
  by (simp_all add: is_digit_def digit_val_def)

lemma digit_not_special:
  "is_digit c \<Longrightarrow> c \<noteq> NUL \<and> c \<noteq> CHR ''-'' \<and> c \<noteq> CHR ''+'' \<and> \<not> is_space c \<and> c \<noteq> CR"
  by (auto simp: is_digit_def is_space_def char_consts)

section \<open>Printing\<close>

fun show_nat :: "nat \<Rightarrow> string" where
  "show_nat n =
     (if n < 10 then [digit_char n] else show_nat (n div 10) @ [digit_char (n mod 10)])"

declare show_nat.simps [simp del]

lemma show_nat_small: "n < 10 \<Longrightarrow> show_nat n = [digit_char n]"
  by (simp add: show_nat.simps)

lemma show_nat_big: "\<not> n < 10 \<Longrightarrow> show_nat n = show_nat (n div 10) @ [digit_char (n mod 10)]"
  by (subst show_nat.simps) simp

definition show_int :: "int \<Rightarrow> string" where
  "show_int n = (if n < 0 then CHR ''-'' # show_nat (nat (- n)) else show_nat (nat n))"

lemma show_nat_digits: "c \<in> set (show_nat n) \<Longrightarrow> is_digit c"
proof (induction n rule: show_nat.induct)
  case (1 n)
  then show ?case
    by (cases "n < 10") (auto simp: show_nat_small show_nat_big)
qed

lemma show_nat_nonempty [simp]: "show_nat n \<noteq> []"
  by (cases "n < 10") (simp_all add: show_nat_small show_nat_big)

lemma show_nat_length: "n < 10 ^ k \<Longrightarrow> 0 < k \<Longrightarrow> length (show_nat n) \<le> k"
proof (induction n arbitrary: k rule: show_nat.induct)
  case (1 n)
  show ?case
  proof (cases "n < 10")
    case True
    with "1.prems" show ?thesis by (simp add: show_nat_small)
  next
    case False
    with "1.prems" obtain j where k: "k = Suc j" and j: "0 < j"
      by (cases k; cases "k - 1") auto
    from "1.prems" k have "n div 10 < 10 ^ j" by (simp add: less_mult_imp_div_less mult.commute)
    with "1.IH" False j have "length (show_nat (n div 10)) \<le> j" by blast
    with False k show ?thesis by (simp add: show_nat_big)
  qed
qed

lemma cstring_show_nat [simp]: "cstring (show_nat n)"
  using show_nat_digits digit_not_special by (auto simp: cstring_def)

lemma cstring_show_int [simp]: "cstring (show_int n)"
  by (simp add: show_int_def char_consts)

section \<open>Reading\<close>

fun read_digits :: "nat \<Rightarrow> string \<Rightarrow> nat" where
  "read_digits n [] = n"
| "read_digits n (c # s) = (if is_digit c then read_digits (10 * n + digit_val c) s else n)"

definition LONG_MAX :: int where "LONG_MAX = 2 ^ 63 - 1"
definition LONG_MIN :: int where "LONG_MIN = - (2 ^ 63)"

text \<open>\<open>strtol (s, NULL, 10)\<close>: blanks, an optional sign, digits; clamped to the range of \<open>long\<close>.\<close>

definition strtol :: "string \<Rightarrow> int" where
  "strtol s =
     (let t = dropWhile is_space s;
          n = (case t of [] \<Rightarrow> 0
               | c # u \<Rightarrow> if c = CHR ''-'' then - int (read_digits 0 u)
                          else if c = CHR ''+'' then int (read_digits 0 u)
                          else int (read_digits 0 t))
      in max LONG_MIN (min LONG_MAX n))"

definition atoi :: "string \<Rightarrow> int" where
  "atoi s = int32 (strtol s)"

lemma atoi_range: "INT_MIN \<le> atoi s" "atoi s \<le> INT_MAX"
  by (simp_all add: atoi_def int32_range)

lemma read_digits_append:
  "(\<And>c. c \<in> set s \<Longrightarrow> is_digit c) \<Longrightarrow> read_digits n (s @ t) = read_digits (read_digits n s) t"
  by (induction s arbitrary: n) auto

lemma read_digits_show_nat: "read_digits 0 (show_nat n) = n"
proof (induction n rule: show_nat.induct)
  case (1 n)
  show ?case
  proof (cases "n < 10")
    case True
    then show ?thesis by (simp add: show_nat_small)
  next
    case False
    with "1.IH" show ?thesis
      by (simp add: show_nat_big read_digits_append show_nat_digits)
  qed
qed

lemma strtol_show_int:
  assumes "LONG_MIN \<le> n" and "n \<le> LONG_MAX"
  shows "strtol (show_int n) = n"
proof -
  have d: "dropWhile is_space (show_nat m) = show_nat m" for m
    using digit_not_special show_nat_digits
    by (cases "show_nat m") (auto, metis list.set_intros(1))
  have s: "show_nat m = c # u \<Longrightarrow> c \<noteq> CHR ''-'' \<and> c \<noteq> CHR ''+''" for m c u
    using digit_not_special [of c] show_nat_digits [of c m] by simp
  show ?thesis
  proof (cases "n < 0")
    case True
    with assms show ?thesis
      by (simp add: strtol_def show_int_def is_space_def read_digits_show_nat)
  next
    case False
    with assms s show ?thesis
      by (auto simp: strtol_def show_int_def d Let_def read_digits_show_nat
          simp flip: read_digits.simps(2) split: list.split)
        (metis nat_0_le linorder_not_less max.absorb2 min.absorb2 read_digits_show_nat)+
  qed
qed

lemma atoi_show_int: "INT_MIN \<le> n \<Longrightarrow> n \<le> INT_MAX \<Longrightarrow> atoi (show_int n) = n"
  by (simp add: atoi_def strtol_show_int int32_id LONG_MIN_def LONG_MAX_def INT_MAX_def INT_MIN_def)

lemma show_int_length: "INT_MIN \<le> n \<Longrightarrow> n \<le> 2 ^ 31 \<Longrightarrow> length (show_int n) \<le> 11"
  using show_nat_length [of "nat (- n)" 10] show_nat_length [of "nat n" 10]
  by (auto simp: show_int_def nat_less_iff INT_MIN_def)

text \<open>Evaluation of the conversions on literals.\<close>

lemmas show_eval = show_int_def show_nat_big show_nat_small digit_char_def char_of_def bit_0
lemmas strtol_eval = strtol_def is_space_def is_digit_def digit_val_def LONG_MAX_def LONG_MIN_def
lemmas int32_eval = int32_def signed_take_bit_eq_take_bit_shift take_bit_eq_mod

end
