(* ===== verification/StringBuf.thy ===== *)
theory StringBuf
  imports Prelude
begin

text \<open>
  The growable string buffer of \<^verbatim>\<open>strbuf.c\<close>.  A \<open>StringBuffer\<close> is the block it owns with
  the length and capacity fields of the C struct.  The buffer is used in two ways: as a C
  string, where the length counts the terminator (\<open>sb_holds_str\<close>), and as raw bytes, where
  it does not (\<open>sb_holds_raw\<close>).  The lemmas show what each operation leaves in the buffer, that
  growing keeps the contents and never overflows, and that a failed allocation changes nothing;
  the locale \<open>string_builder\<close> is the interface that the \<open>SET\<close> handler builds its value through.
\<close>

section \<open>The buffer and its operations\<close>

record StringBuffer =
  sb_buf :: block
  sb_len :: nat
  sb_cap :: nat

definition strbuf_new :: "mem \<Rightarrow> nat \<Rightarrow> string option \<Rightarrow> ub + (StringBuffer option \<times> mem)" where
  "strbuf_new m cap initial =
     (case malloc m of
        (False, m1) \<Rightarrow> Inr (None, m1)
      | (True, m1) \<Rightarrow>
          (case malloc m1 of
             (False, m2) \<Rightarrow> Inr (None, m2)
           | (True, m2) \<Rightarrow>
               (let b = fresh_block cap in
                case initial of
                  Some s \<Rightarrow>
                    (let n = (if length s \<ge> cap then size_sub cap 1 else length s) in
                     res_bind (block_copy b 0 (s @ [NUL]) n) (\<lambda>b.
                     res_bind (block_put b n NUL) (\<lambda>b.
                     Inr (Some \<lparr>sb_buf = b, sb_len = size_add n 1, sb_cap = cap\<rparr>, m2))))
                | None \<Rightarrow>
                    res_bind (block_put b 0 NUL) (\<lambda>b.
                    Inr (Some \<lparr>sb_buf = b, sb_len = 1, sb_cap = cap\<rparr>, m2)))))"

function ensure_cap :: "mem \<Rightarrow> StringBuffer \<Rightarrow> nat \<Rightarrow> int \<times> StringBuffer \<times> mem" where
  "ensure_cap m sb need =
     (if need > sb_cap sb then
        (let ncap = size_mul (sb_cap sb) 2;
             ncap = (if ncap < need then need else ncap)
         in case malloc m of
              (False, m1) \<Rightarrow> (-1, sb, m1)
            | (True, m1) \<Rightarrow>
                ensure_cap m1 (sb\<lparr>sb_buf := realloc_block (sb_buf sb) ncap, sb_cap := ncap\<rparr>) need)
      else (0, sb, m))"
  by pat_completeness auto
termination
  by (relation "measure (\<lambda>(m, sb, need). need - sb_cap sb)") auto

declare ensure_cap.simps [simp del]

definition strbuf_append_noterm ::
    "mem \<Rightarrow> StringBuffer option \<Rightarrow> char list option \<Rightarrow> nat \<Rightarrow> ub + (int \<times> StringBuffer option \<times> mem)"
where
  "strbuf_append_noterm m sbp datap n =
     (case (sbp, datap) of
        (Some sb, Some bytes) \<Rightarrow>
          (case ensure_cap m sb (size_add (sb_len sb) n) of
             (rc, sb, m1) \<Rightarrow>
               if rc \<noteq> 0 then Inr (-1, Some sb, m1)
               else
                 res_bind (block_copy (sb_buf sb) (sb_len sb) bytes n) (\<lambda>b.
                 Inr (0, Some (sb\<lparr>sb_buf := b, sb_len := size_add (sb_len sb) n\<rparr>), m1)))
      | _ \<Rightarrow> Inr (-1, sbp, m))"

definition strbuf_append ::
    "mem \<Rightarrow> StringBuffer option \<Rightarrow> string option \<Rightarrow> string option
      \<Rightarrow> ub + (int \<times> StringBuffer option \<times> mem)"
where
  "strbuf_append m sbp strp sepp =
     (case (sbp, strp) of
        (Some sb, Some str) \<Rightarrow>
          (let add = length str;
               use_sep = (case sepp of None \<Rightarrow> False | Some sep \<Rightarrow> length sep = 1);
               need = size_add (size_add (sb_len sb) (if use_sep then 1 else 0)) add
           in case ensure_cap m sb need of
                (rc, sb, m1) \<Rightarrow>
                  if rc \<noteq> 0 then Inr (-1, Some sb, m1)
                  else
                    res_bind
                      (if use_sep
                       then res_bind (block_put (sb_buf sb) (size_sub (sb_len sb) 1) (hd (the sepp)))
                              (\<lambda>b. Inr (sb\<lparr>sb_buf := b, sb_len := size_add (sb_len sb) 1\<rparr>))
                       else Inr sb)
                      (\<lambda>sb.
                    res_bind (block_copy (sb_buf sb) (size_sub (sb_len sb) 1) (str @ [NUL]) add) (\<lambda>b.
                    let sb = sb\<lparr>sb_buf := b, sb_len := size_add (sb_len sb) add\<rparr> in
                    res_bind (block_put (sb_buf sb) (size_sub (sb_len sb) 1) NUL) (\<lambda>b.
                    Inr (0, Some (sb\<lparr>sb_buf := b\<rparr>), m1)))))
      | _ \<Rightarrow> Inr (-1, sbp, m))"

section \<open>What a buffer holds\<close>

definition sb_wf :: "StringBuffer \<Rightarrow> bool" where
  "sb_wf sb \<longleftrightarrow>
     length (sb_buf sb) = sb_cap sb \<and> sb_len sb \<le> sb_cap sb \<and> sb_cap sb < size_mod"

definition sb_holds_raw :: "StringBuffer \<Rightarrow> char list \<Rightarrow> bool" where
  "sb_holds_raw sb d \<longleftrightarrow>
     sb_wf sb \<and> sb_len sb = length d \<and> take (sb_len sb) (sb_buf sb) = map Some d"

definition sb_holds_str :: "StringBuffer \<Rightarrow> string \<Rightarrow> bool" where
  "sb_holds_str sb s \<longleftrightarrow> cstring s \<and> sb_holds_raw sb (s @ [NUL])"

lemmas sb_holds_defs = sb_holds_str_def sb_holds_raw_def sb_wf_def

lemma sb_holds_raw_iff:
  "sb_holds_raw sb d \<longleftrightarrow>
     (\<exists>b. sb_buf sb = map Some d @ b \<and> sb_len sb = length d \<and>
          sb_cap sb = length d + length b \<and> sb_cap sb < size_mod)"
  (is "?l \<longleftrightarrow> ?r")
proof
  assume l: ?l
  then have "sb_buf sb = map Some d @ drop (length d) (sb_buf sb)"
    by (metis append_take_drop_id sb_holds_raw_def)
  with l show ?r
    by (intro exI [of _ "drop (length d) (sb_buf sb)"]) (auto simp: sb_holds_raw_def sb_wf_def)
qed (auto simp: sb_holds_raw_def sb_wf_def)

lemma sb_holds_strE:
  assumes "sb_holds_str sb s"
  obtains b where "cstring s" "sb_buf sb = map Some s @ Some NUL # b"
    "sb_len sb = Suc (length s)" "sb_cap sb = Suc (length s + length b)" "sb_cap sb < size_mod"
  using assms by (auto simp: sb_holds_str_def sb_holds_raw_iff)

lemma sb_holds_strI:
  "cstring s \<Longrightarrow> sb_buf sb = map Some s @ Some NUL # b \<Longrightarrow> sb_len sb = Suc (length s) \<Longrightarrow>
   sb_cap sb = Suc (length s + length b) \<Longrightarrow> sb_cap sb < size_mod \<Longrightarrow> sb_holds_str sb s"
  by (auto simp: sb_holds_str_def sb_holds_raw_iff)

lemma sb_holds_str_cstr: "sb_holds_str sb s \<Longrightarrow> block_cstr (sb_buf sb) = Inr s"
  by (auto elim: sb_holds_strE)

section \<open>Growing\<close>

lemma ensure_cap_fits: "need \<le> sb_cap sb \<Longrightarrow> ensure_cap m sb need = (0, sb, m)"
  by (simp add: ensure_cap.simps)

lemma ensure_cap_grow:
  "sb_cap sb < need \<Longrightarrow>
   ensure_cap (True # m) sb need =
     (0, sb\<lparr>sb_buf := realloc_block (sb_buf sb) (max need (size_mul (sb_cap sb) 2)),
            sb_cap := max need (size_mul (sb_cap sb) 2)\<rparr>, m)"
  "sb_cap sb < need \<Longrightarrow>
   ensure_cap [] sb need =
     (0, sb\<lparr>sb_buf := realloc_block (sb_buf sb) (max need (size_mul (sb_cap sb) 2)),
            sb_cap := max need (size_mul (sb_cap sb) 2)\<rparr>, [])"
  by (subst ensure_cap.simps, auto simp: Let_def max_def ensure_cap_fits)+

lemma ensure_cap_fail: "sb_cap sb < need \<Longrightarrow> ensure_cap (False # m) sb need = (-1, sb, m)"
  by (subst ensure_cap.simps) (simp add: Let_def)

text \<open>
  The whole behaviour of \<open>ensure_cap\<close>: room is made in one step, to at least twice the old
  capacity where that does not overflow, and the contents are kept; on failure the buffer is
  the old one.
\<close>

lemma ensure_cap_cases:
  assumes "ensure_cap m sb need = (rc, sb', m')"
  obtains (fits) "need \<le> sb_cap sb" "rc = 0" "sb' = sb" "m' = m"
    | (failed) "sb_cap sb < need" "rc = -1" "sb' = sb" "m = False # m'"
    | (grown) "sb_cap sb < need" "rc = 0"
        "sb' = sb\<lparr>sb_buf := realloc_block (sb_buf sb) (max need (size_mul (sb_cap sb) 2)),
                  sb_cap := max need (size_mul (sb_cap sb) 2)\<rparr>"
        "(m = [] \<and> m' = []) \<or> m = True # m'"
proof (cases "need \<le> sb_cap sb")
  case True
  with assms show ?thesis by (intro fits) (simp_all add: ensure_cap_fits)
next
  case False
  then have big: "sb_cap sb < need" by simp
  consider "m = []" | m1 where "m = True # m1" | m1 where "m = False # m1"
    by (metis (full_types) neq_Nil_conv)
  then show ?thesis
  proof cases
    case 1
    with assms big show ?thesis by (intro grown) (simp_all add: ensure_cap_grow)
  next
    case 2
    with assms big show ?thesis by (intro grown) (simp_all add: ensure_cap_grow)
  next
    case 3
    with assms big show ?thesis by (intro failed) (simp_all add: ensure_cap_fail)
  qed
qed

lemma ensure_cap_holds:
  assumes "ensure_cap m sb need = (0, sb', m')" and "sb_holds_raw sb d" and "need < size_mod"
  shows "sb_holds_raw sb' d \<and> need \<le> sb_cap sb' \<and> sb_len sb' = sb_len sb"
  using assms(1)
proof (cases rule: ensure_cap_cases)
  case fits
  with assms(2) show ?thesis by simp
next
  case failed
  then show ?thesis by simp
next
  case grown
  with assms(2,3) show ?thesis
    by (auto simp: sb_holds_raw_def sb_wf_def take_realloc_block)
qed

section \<open>Creating and appending\<close>

lemma strbuf_new_str:
  assumes "cstring s" and "0 < cap" and "cap < size_mod"
  shows "\<exists>sb. strbuf_new [] cap (Some s) = Inr (Some sb, []) \<and>
    sb_holds_str sb (take (cap - 1) s) \<and> sb_cap sb = cap"
proof -
  define t where "t = take (cap - 1) s"
  have t: "cstring t" "length t < cap" "take (length t) (s @ [NUL]) = t" "length t \<le> length s"
    using assms by (auto simp: t_def cstring_def min_def dest: in_set_takeD)
  have eq: "(if cap \<le> length s then size_sub cap 1 else length s) = length t"
    using assms by (auto simp: t_def)
  have "fresh_block cap = replicate (length t) None @ None # replicate (cap - Suc (length t)) None"
    unfolding fresh_block_def replicate_Suc [symmetric] replicate_add [symmetric]
    using t(2) by simp
  with t assms have "\<exists>sb. strbuf_new [] cap (Some s) = Inr (Some sb, []) \<and> sb_holds_str sb t \<and> sb_cap sb = cap"
    unfolding strbuf_new_def
    by (simp add: eq Let_def block_copy_ok block_put_ok list_update_append)
      (rule sb_holds_strI [where b = "replicate (cap - Suc (length t)) None"]; simp)
  then show ?thesis by (simp add: t_def)
qed

lemma strbuf_append_noterm_ok:
  assumes "sb_holds_raw sb d" and "n \<le> length bytes" and "length d + n < size_mod"
  shows "\<exists>sb'. strbuf_append_noterm [] (Some sb) (Some bytes) n = Inr (0, Some sb', []) \<and>
    sb_holds_raw sb' (d @ take n bytes)"
proof -
  obtain rc sb1 m1 where e: "ensure_cap [] sb (size_add (sb_len sb) n) = (rc, sb1, m1)"
    by (metis prod_cases3)
  then have rc: "rc = 0" "m1 = []"
    by (cases rule: ensure_cap_cases; simp)+
  have sz: "size_add (sb_len sb) n = length d + n"
    using assms by (simp add: sb_holds_raw_def)
  with e rc assms have h: "sb_holds_raw sb1 d" "length d + n \<le> sb_cap sb1"
    using ensure_cap_holds by metis+
  with assms e rc sz show ?thesis
    unfolding strbuf_append_noterm_def
    by (auto simp: sb_holds_raw_iff block_copy_ok append_eq_conv_conj)
qed

text \<open>
  One append in a buffer with room: nothing is allocated, and the buffer holds the old string,
  the separator (when there is one of length 1) and the new string.
\<close>

lemma strbuf_append_room:
  assumes h: "sb_holds_str sb s" and t: "cstring t"
    and sep: "length sep = 1 \<Longrightarrow> cstring sep" and p: "p = (if length sep = 1 then sep else [])"
    and room: "length s + length p + length t + 1 \<le> sb_cap sb"
  shows "\<exists>sb'. strbuf_append m (Some sb) (Some t) (Some sep) = Inr (0, Some sb', m) \<and>
    sb_holds_str sb' (s @ p @ t) \<and> sb_cap sb' = sb_cap sb"
proof -
  obtain b where c: "cstring s" and buf: "sb_buf sb = map Some s @ Some NUL # b"
    and len: "sb_len sb = Suc (length s)" and cap: "sb_cap sb = Suc (length s + length b)"
    and sm: "sb_cap sb < size_mod"
    using h by (rule sb_holds_strE)
  show ?thesis
  proof (cases "length sep = 1")
    case True
    then obtain x where x: "sep = [x]" by (cases sep) auto
    from room cap p True have "length t < length b" by simp
    then obtain b1 y b2 where b: "b = b1 @ y # b2" "length b1 = length t"
      by (metis append_take_drop_id id_take_nth_drop length_take min.absorb4)
    show ?thesis
      using len cap sm c p t sep x b
      by (simp add: strbuf_append_def ensure_cap_fits block_put_ok block_copy_ok Let_def buf
          list_update_append)
        (rule sb_holds_strI; simp)
  next
    case False
    from room cap p False have "length t \<le> length b" by simp
    then have b: "Some NUL # b = take (length t) (Some NUL # b) @ drop (length t) (Some NUL # b)"
      "length t < length (Some NUL # b)"
      by simp_all
    then obtain b1 y b2 where b: "Some NUL # b = b1 @ y # b2" "length b1 = length t"
      by (metis append_take_drop_id id_take_nth_drop length_take min.absorb4)
    then have l: "length b = length t + length b2"
      by (metis add_diff_cancel_left' diff_Suc_1 length_Cons length_append add_Suc_right)
    show ?thesis
      using len cap sm c p t False b l
      by (simp add: strbuf_append_def ensure_cap_fits block_put_ok block_copy_ok Let_def buf
          list_update_append)
        (rule sb_holds_strI; simp)
  qed
qed

section \<open>The interface for building a string\<close>

text \<open>
  What a client that joins strings relies on: a piece is added after the separator as long as
  there is room, the room does not change, and the contents can be read back.  The client's
  fact is proved here once: adding a list of pieces gives the pieces joined by the separator.
\<close>

locale string_builder =
  fixes holds :: "'b \<Rightarrow> string \<Rightarrow> bool"
    and room :: "'b \<Rightarrow> nat"
    and add :: "'b \<Rightarrow> string \<Rightarrow> ub + 'b"
    and contents :: "'b \<Rightarrow> ub + string"
    and sep :: char
  assumes add_ok: "holds b s \<Longrightarrow> cstring t \<Longrightarrow> length s + length t + 2 \<le> room b \<Longrightarrow>
      \<exists>b'. add b t = Inr b' \<and> holds b' (s @ sep # t) \<and> room b' = room b"
    and contents_ok: "holds b s \<Longrightarrow> contents b = Inr s"
begin

lemma add_all_ok:
  assumes "holds b s" and "\<forall>t \<in> set ts. cstring t"
    and "length s + sum_list (map length ts) + length ts + 1 \<le> room b"
  shows "\<exists>b'. fold_res add b ts = Inr b' \<and> room b' = room b \<and>
    holds b' (foldl (\<lambda>a t. a @ sep # t) s ts)"
  using assms
proof (induction ts arbitrary: b s)
  case Nil
  then show ?case by simp
next
  case (Cons t ts)
  from Cons.prems obtain b1 where b1: "add b t = Inr b1" "holds b1 (s @ sep # t)" "room b1 = room b"
    using add_ok [of b s t] by auto
  with Cons.prems Cons.IH [OF b1(2)] show ?case by auto
qed

lemma contents_all:
  assumes "holds b s" and "\<forall>t \<in> set ts. cstring t"
    and "length s + sum_list (map length ts) + length ts + 1 \<le> room b"
  shows "res_bind (fold_res add b ts) contents = Inr (foldl (\<lambda>a t. a @ sep # t) s ts)"
  using add_all_ok [OF assms] contents_ok by auto

end

text \<open>
  The string buffer provides it, whatever the allocator does: with room there is no allocation.
\<close>

definition sb_add :: "char \<Rightarrow> mem \<Rightarrow> StringBuffer \<Rightarrow> string \<Rightarrow> ub + StringBuffer" where
  "sb_add sep m sb t =
     res_bind (strbuf_append m (Some sb) (Some t) (Some [sep])) (\<lambda>(rc, sbp, m). Inr (the sbp))"

interpretation sb: string_builder sb_holds_str sb_cap "sb_add SPACE m"
  "\<lambda>sb. block_cstr (sb_buf sb)" SPACE
proof unfold_locales
  fix b s t
  assume h: "sb_holds_str b s" "cstring t" "length s + length t + 2 \<le> sb_cap b"
  then obtain b' where "strbuf_append m (Some b) (Some t) (Some [SPACE]) = Inr (0, Some b', m)"
    "sb_holds_str b' (s @ [SPACE] @ t)" "sb_cap b' = sb_cap b"
    using strbuf_append_room [OF h(1,2), of "[SPACE]" "[SPACE]" m] by (auto simp: cstring_def)
  then show "\<exists>b'. sb_add SPACE m b t = Inr b' \<and> sb_holds_str b' (s @ SPACE # t) \<and> sb_cap b' = sb_cap b"
    by (simp add: sb_add_def)
qed (rule sb_holds_str_cstr)

section \<open>Properties\<close>

text \<open>
C31. \<open>strbuf_append_noterm\<close> accumulates bytes, and what it does is decided by the room and the
allocator.  On a buffer that holds the bytes \<open>d\<close>: when the capacity has room for the new bytes, it
returns 0, allocates nothing, keeps the capacity and holds \<open>d\<close> followed by them; when it has not and
the one call of \<open>realloc\<close> succeeds, it returns 0 and holds \<open>d\<close> followed by them in a buffer grown to
twice the capacity, or to what is needed where that is more (or where doubling overflows); when that
call fails, it returns -1 and the buffer is the old one.  It never writes out of bounds.
\<close>
theorem append_noterm_accumulates:
  assumes "sb_holds_raw sb d" and "length d + length bytes < size_mod"
  shows "let r = strbuf_append_noterm m (Some sb) (Some bytes) (length bytes); need = length d + length bytes in
    if need \<le> sb_cap sb then
      (\<exists>sb'. r = Inr (0, Some sb', m) \<and> sb_cap sb' = sb_cap sb \<and> sb_holds_raw sb' (d @ bytes))
    else if fst (malloc m) then
      (\<exists>sb'. r = Inr (0, Some sb', snd (malloc m)) \<and> sb_cap sb' = max need (size_mul (sb_cap sb) 2) \<and>
         sb_holds_raw sb' (d @ bytes))
    else r = Inr (-1, Some sb, snd (malloc m))"
proof -
  obtain rc sb1 m1 where e: "ensure_cap m sb (size_add (sb_len sb) (length bytes)) = (rc, sb1, m1)"
    by (metis prod_cases3)
  have sz: "size_add (sb_len sb) (length bytes) = length d + length bytes"
    using assms by (simp add: sb_holds_raw_def)
  have ok: "\<exists>sb'. strbuf_append_noterm m (Some sb) (Some bytes) (length bytes) = Inr (0, Some sb', m1) \<and>
      sb_cap sb' = sb_cap sb1 \<and> sb_holds_raw sb' (d @ bytes)" if "rc = 0"
  proof -
    from e sz assms that have "sb_holds_raw sb1 d" "length d + length bytes \<le> sb_cap sb1" "sb_len sb1 = sb_len sb"
      using ensure_cap_holds by metis+
    with e that sz show ?thesis
      by (auto simp: strbuf_append_noterm_def sb_holds_raw_iff block_copy_ok append_eq_conv_conj)
  qed
  from e show ?thesis
  proof (cases rule: ensure_cap_cases)
    case failed
    with e sz show ?thesis by (simp add: strbuf_append_noterm_def)
  qed (use ok sz in \<open>auto simp: Let_def\<close>)
qed

theorem append_noterm_accumulates_witness:
  "(let b = \<lparr>sb_buf = [Some CR], sb_len = 1, sb_cap = 1\<rparr> in
     (\<exists>b'. strbuf_append_noterm [True, False] (Some b) (Some [LF]) 1 = Inr (0, Some b', [False]) \<and>
        sb_cap b' = 2 \<and> sb_holds_raw b' [CR, LF]) \<and>
     strbuf_append_noterm [False, True] (Some b) (Some [LF]) 1 = Inr (-1, Some b, [True]) \<and>
     (\<exists>b'. strbuf_append_noterm [False] (Some b) (Some []) 0 = Inr (0, Some b', [False]) \<and> sb_holds_raw b' [CR]))"
  using append_noterm_accumulates [of "\<lparr>sb_buf = [Some CR], sb_len = 1, sb_cap = 1\<rparr>" "[CR]" "[LF]" "[True, False]"]
    append_noterm_accumulates [of "\<lparr>sb_buf = [Some CR], sb_len = 1, sb_cap = 1\<rparr>" "[CR]" "[LF]" "[False, True]"]
    append_noterm_accumulates [of "\<lparr>sb_buf = [Some CR], sb_len = 1, sb_cap = 1\<rparr>" "[CR]" "[]" "[False]"]
  by (auto simp: sb_holds_raw_def sb_wf_def size_mod_def size_mul_def Let_def)

text \<open>
\<open>strbuf_append\<close> concatenates C strings.  On a buffer that holds the C string \<open>s\<close>, with no
failing allocation, appending \<open>t\<close> with a separator gives a buffer that holds \<open>s\<close>, the separator
(only if it is one character long) and \<open>t\<close>, grown if there was no room.
\<close>
lemma append_concatenates:
  assumes "sb_holds_str sb s" and "cstring t" and "length sep = 1 \<longrightarrow> cstring sep"
    and "length s + length t + 2 < size_mod"
  shows "\<exists>sb' m'. strbuf_append [] (Some sb) (Some t) (Some sep) = Inr (0, Some sb', m') \<and>
    sb_holds_str sb' (s @ (if length sep = 1 then sep else []) @ t)"
proof -
  let ?p = "if length sep = 1 then sep else []"
  let ?need = "length s + length ?p + length t + 1"
  have len: "sb_len sb = Suc (length s)" using assms(1) by (auto elim: sb_holds_strE)
  have p: "length ?p = (if length sep = 1 then 1 else 0)" "length ?p \<le> 1" by auto
  have need: "size_add (size_add (sb_len sb) (if length sep = 1 then 1 else 0)) (length t) = ?need"
    using assms(4) p len by simp
  obtain rc sb1 m1 where e: "ensure_cap [] sb ?need = (rc, sb1, m1)"
    by (metis prod_cases3)
  then have rc: "rc = 0" "m1 = []"
    by (cases rule: ensure_cap_cases; simp)+
  have "?need < size_mod" using assms(4) p by simp
  with e rc have h: "sb_holds_str sb1 s" "?need \<le> sb_cap sb1" "sb_len sb1 = sb_len sb"
    using ensure_cap_holds [of "[]" sb ?need sb1 "[]" "s @ [NUL]"] assms(1) by (auto simp: sb_holds_str_def)
  have same: "strbuf_append [] (Some sb) (Some t) (Some sep) = strbuf_append [] (Some sb1) (Some t) (Some sep)"
    using e rc h(2,3) need len p by (simp add: strbuf_append_def Let_def ensure_cap_fits)
  show ?thesis
    unfolding same using strbuf_append_room [OF h(1) assms(2) _ refl h(2), of "[]"] assms(3) by blast
qed

end
