(* ===== verification/TokenParser.thy ===== *)
theory TokenParser
  imports CLib StringBuf
begin

text \<open>
  The command parser: \<^verbatim>\<open>parser.c\<close> and the \<open>Cmd\<close> life cycle of \<^verbatim>\<open>cmd.c\<close>.  The parser works in
  place: it overwrites the delimiters of the command buffer with NUL and records pointers into
  that buffer.  A token pointer is therefore a buffer (the number it was allocated under) with
  an offset; what it points to is looked up in the live buffers, so a pointer that outlives its
  buffer is visible as \<open>Dangling\<close>.  The specification is \<open>scan\<close>, which cuts a string at its
  delimiters; the lemmas show that the tokens read back as the words of the input, each up to
  its first NUL, that \<open>ready\<close> is set exactly when the input has a CR LF, and that the command
  table is the one of the nine names.
\<close>

section \<open>Tokens and commands\<close>

datatype tokptr = TNull | TUninit | TPtr nat nat

record Tokens =
  t_buf :: "tokptr list"
  t_count :: nat
  t_cap :: nat

datatype CmdCode =
  CMD_GET | CMD_SET | CMD_DEL | CMD_QUIT | CMD_SELECT | CMD_INFO | CMD_SAVE | CMD_LOAD
| CMD_INCR | CMD_UNKNOWN

record Cmd =
  tokens :: Tokens
  entry :: CmdCode
  ready :: int

definition TOKENS_INIT_CAP :: nat where "TOKENS_INIT_CAP = 64"

definition cmd_init :: "mem \<Rightarrow> Cmd option \<times> mem" where
  "cmd_init m =
     (case malloc m of
        (False, m) \<Rightarrow> (None, m)
      | (True, m) \<Rightarrow>
          (case malloc m of
             (False, m) \<Rightarrow> (None, m)
           | (True, m) \<Rightarrow>
               (case malloc m of
                  (False, m) \<Rightarrow> (None, m)
                | (True, m) \<Rightarrow>
                    (Some \<lparr>tokens = \<lparr>t_buf = replicate TOKENS_INIT_CAP TNull, t_count = 0,
                                     t_cap = TOKENS_INIT_CAP\<rparr>,
                           entry = CMD_UNKNOWN, ready = 0\<rparr>, m))))"

definition cmd_reset :: "Cmd \<Rightarrow> Cmd" where
  "cmd_reset cmd =
     cmd\<lparr>tokens := (tokens cmd)\<lparr>t_count := 0\<rparr>, ready := 0, entry := CMD_UNKNOWN\<rparr>"

text \<open>The live buffers, and the C string a token points to.\<close>

type_synonym bufs = "nat \<Rightarrow> block option"

fun read_tok :: "bufs \<Rightarrow> tokptr \<Rightarrow> ub + string" where
  "read_tok st TNull = Inl NullDeref"
| "read_tok st TUninit = Inl Uninit"
| "read_tok st (TPtr bid off) =
     (case st bid of None \<Rightarrow> Inl Dangling | Some b \<Rightarrow> block_cstr_at b off)"

definition tok_at :: "Tokens \<Rightarrow> nat \<Rightarrow> ub + tokptr" where
  "tok_at t i = (if i < length (t_buf t) then Inr (t_buf t ! i) else Inl OutOfBounds)"

section \<open>The parser\<close>

text \<open>The new slots of the grown array are unwritten; when \<open>realloc\<close> fails the token is lost.\<close>

definition add_token :: "mem \<Rightarrow> Tokens \<Rightarrow> tokptr \<Rightarrow> ub + (Tokens \<times> mem)" where
  "add_token m t ptr =
     (case (if t_count t \<ge> t_cap t then
              (let new_cap = size_mul (t_cap t) 2; slots = size_mul new_cap 8 div 8
               in case malloc m of
                    (False, m) \<Rightarrow> (None, m)
                  | (True, m) \<Rightarrow>
                      (Some (t\<lparr>t_buf := take slots (t_buf t) @
                                  replicate (slots - length (t_buf t)) TUninit,
                               t_cap := new_cap\<rparr>), m))
            else (Some t, m)) of
        (None, m) \<Rightarrow> Inr (t, m)
      | (Some t, m) \<Rightarrow>
          if t_count t < length (t_buf t)
          then Inr (t\<lparr>t_buf := (t_buf t)[t_count t := ptr], t_count := t_count t + 1\<rparr>, m)
          else Inl OutOfBounds)"

definition is_delim :: "char \<Rightarrow> bool" where
  "is_delim c \<longleftrightarrow> c = SPACE \<or> c = CR \<or> c = LF"

text \<open>
  The scanning loop: \<open>base\<close> is where the local pointer \<open>buf\<close> points in the buffer \<open>bid\<close>, \<open>len\<close>
  and \<open>i\<close> are the locals of the C code.
\<close>

function tokenize_loop ::
    "nat \<Rightarrow> block \<Rightarrow> nat \<Rightarrow> nat \<Rightarrow> nat \<Rightarrow> Cmd \<Rightarrow> mem
      \<Rightarrow> ub + (block \<times> nat \<times> nat \<times> nat \<times> Cmd \<times> mem)" where
  "tokenize_loop bid b base len i cmd m =
     (if int i < int32 (int len) then
        res_bind (block_get b (base + i)) (\<lambda>c.
        if is_delim c then
          res_bind
            (if int (i + 1) < int32 (int len) \<and> c = CR
             then res_bind (block_get b (base + i + 1)) (\<lambda>d.
                  Inr (if d = LF then cmd\<lparr>ready := 1\<rparr> else cmd))
             else Inr cmd) (\<lambda>cmd.
          res_bind (block_put b (base + i) NUL) (\<lambda>b.
          res_bind
            (if i > 0
             then res_bind (add_token m (tokens cmd) (TPtr bid base)) (\<lambda>(t, m).
                  Inr (cmd\<lparr>tokens := t\<rparr>, m))
             else Inr (cmd, m)) (\<lambda>(cmd, m).
          tokenize_loop bid b (base + (i + 1)) (len - (i + 1)) 0 cmd m)))
        else tokenize_loop bid b base len (i + 1) cmd m)
      else Inr (b, base, len, i, cmd, m))"
  by pat_completeness auto
termination
proof (relation "measure (\<lambda>(bid, b, base, len, i, cmd, m). len - i)", goal_cases)
  case 1
  show ?case by simp
next
  case (2 bid b base len i)
  then have "i < len" using int32_le [of "int len"] by linarith
  then show ?case by simp
next
  case (3 bid b base len i)
  then have "i < len" using int32_le [of "int len"] by linarith
  then show ?case by simp
qed

declare tokenize_loop.simps [simp del]

definition tokenize ::
    "nat \<Rightarrow> mem \<Rightarrow> Cmd \<Rightarrow> StringBuffer \<Rightarrow> ub + (nat \<times> Cmd \<times> StringBuffer \<times> mem)" where
  "tokenize bid m cmd raw =
     res_bind (tokenize_loop bid (sb_buf raw) 0 (sb_len raw) 0 cmd m) (\<lambda>(b, base, len, i, cmd, m).
     res_bind
       (if i > 0
        then res_bind (add_token m (tokens cmd) (TPtr bid base)) (\<lambda>(t, m).
             Inr (cmd\<lparr>tokens := t\<rparr>, m))
        else Inr (cmd, m)) (\<lambda>(cmd, m).
     Inr (size_sub (sb_len raw) len, cmd, raw\<lparr>sb_buf := b\<rparr>, m)))"

definition match_code :: "string \<Rightarrow> CmdCode \<Rightarrow> CmdCode" where
  "match_code c e =
     (if length c = 3 then
        if c ! 0 = CHR ''G'' \<and> c ! 1 = CHR ''E'' \<and> c ! 2 = CHR ''T'' then CMD_GET
        else if c ! 0 = CHR ''S'' \<and> c ! 1 = CHR ''E'' \<and> c ! 2 = CHR ''T'' then CMD_SET
        else if c ! 0 = CHR ''D'' \<and> c ! 1 = CHR ''E'' \<and> c ! 2 = CHR ''L'' then CMD_DEL
        else e
      else if length c = 4 then
        if c ! 0 = CHR ''Q'' \<and> c ! 1 = CHR ''U'' \<and> c ! 2 = CHR ''I'' \<and> c ! 3 = CHR ''T''
        then CMD_QUIT
        else if c ! 0 = CHR ''I'' \<and> c ! 1 = CHR ''N'' \<and> c ! 2 = CHR ''F'' \<and> c ! 3 = CHR ''O''
        then CMD_INFO
        else if c ! 0 = CHR ''S'' \<and> c ! 1 = CHR ''A'' \<and> c ! 2 = CHR ''V'' \<and> c ! 3 = CHR ''E''
        then CMD_SAVE
        else if c ! 0 = CHR ''L'' \<and> c ! 1 = CHR ''O'' \<and> c ! 2 = CHR ''A'' \<and> c ! 3 = CHR ''D''
        then CMD_LOAD
        else if c ! 0 = CHR ''I'' \<and> c ! 1 = CHR ''N'' \<and> c ! 2 = CHR ''C'' \<and> c ! 3 = CHR ''R''
        then CMD_INCR
        else e
      else if length c = 6 then
        if c ! 0 = CHR ''S'' \<and> c ! 1 = CHR ''E'' \<and> c ! 2 = CHR ''L'' \<and>
           c ! 3 = CHR ''E'' \<and> c ! 4 = CHR ''C'' \<and> c ! 5 = CHR ''T''
        then CMD_SELECT
        else e
      else e)"

definition match_command :: "bufs \<Rightarrow> Cmd \<Rightarrow> ub + Cmd" where
  "match_command st cmd =
     (if t_count (tokens cmd) = 0 then Inr cmd
      else
        res_bind (tok_at (tokens cmd) 0) (\<lambda>p.
        res_bind (read_tok st p) (\<lambda>c.
        Inr (cmd\<lparr>entry := match_code c (entry cmd)\<rparr>))))"

definition parse_tokens ::
    "nat \<Rightarrow> bufs \<Rightarrow> mem \<Rightarrow> Cmd \<Rightarrow> StringBuffer \<Rightarrow> ub + (nat \<times> Cmd \<times> StringBuffer \<times> mem)" where
  "parse_tokens bid st m cmd raw =
     res_bind (tokenize bid m cmd raw) (\<lambda>(consumed, cmd, raw, m).
     res_bind (match_command (st(bid \<mapsto> sb_buf raw)) cmd) (\<lambda>cmd.
     Inr (consumed, cmd, raw, m)))"

definition cmd_parse ::
    "nat \<Rightarrow> bufs \<Rightarrow> mem \<Rightarrow> Cmd option \<Rightarrow> StringBuffer option
      \<Rightarrow> ub + (int \<times> Cmd option \<times> StringBuffer option \<times> mem)" where
  "cmd_parse bid st m cmdp rawp =
     (case (cmdp, rawp) of
        (Some cmd, Some raw) \<Rightarrow>
          res_bind (parse_tokens bid st m (cmd_reset cmd) raw) (\<lambda>(consumed, cmd, raw, m).
          Inr (int32 (int consumed), Some cmd, Some raw, m))
      | _ \<Rightarrow> Inr (0, cmdp, rawp, m))"

definition print_tokens :: "bufs \<Rightarrow> Tokens \<Rightarrow> ub + string" where
  "print_tokens st t =
     fold_res (\<lambda>out i.
         res_bind (tok_at t i) (\<lambda>p.
         res_bind (read_tok st p) (\<lambda>s.
         Inr (out @ ''['' @ show_int (int i) @ ''] '' @ s @ [LF]))))
       (''Tokens count: '' @ show_nat (t_count t) @ [LF]) [0..<nat (int32 (int (t_count t)))]"

section \<open>The words of a command\<close>

text \<open>
  The complete words of a string, given the characters \<open>cur\<close> of the word being read, and the
  word left unfinished at its end; words are the maximal runs without a delimiter.
\<close>

fun scan :: "string \<Rightarrow> string \<Rightarrow> string list \<times> string" where
  "scan cur [] = ([], cur)"
| "scan cur (c # s) =
     (if is_delim c then (case scan [] s of (ws, l) \<Rightarrow> (if cur = [] then ws else cur # ws, l))
      else scan (cur @ [c]) s)"

text \<open>A token is a C string: it ends at the first NUL.\<close>

definition cut :: "string \<Rightarrow> string" where
  "cut w = takeWhile (\<lambda>c. c \<noteq> NUL) w"

definition words :: "string \<Rightarrow> string list" where
  "words s = (case scan [] s of (ws, l) \<Rightarrow> map cut (if l = [] then ws else ws @ [l]))"

fun has_crlf :: "string \<Rightarrow> bool" where
  "has_crlf (c # d # s) = ((c = CR \<and> d = LF) \<or> has_crlf (d # s))"
| "has_crlf s = False"

lemma has_crlf_Cons: "has_crlf (c # s) \<longleftrightarrow> (c = CR \<and> s \<noteq> [] \<and> hd s = LF) \<or> has_crlf s"
  by (cases s) auto

lemma has_crlf_skip: "list_all (\<lambda>c. \<not> is_delim c) cur \<Longrightarrow> has_crlf (cur @ s) = has_crlf s"
  by (induction cur) (auto simp: has_crlf_Cons is_delim_def)

lemma has_crlf_append:
  "has_crlf (s @ t) \<longleftrightarrow>
     has_crlf s \<or> has_crlf t \<or> (s \<noteq> [] \<and> last s = CR \<and> t \<noteq> [] \<and> hd t = LF)"
  by (induction s rule: has_crlf.induct) (auto simp: has_crlf_Cons)

lemma delim_consts [simp]: "is_delim SPACE" "is_delim CR" "is_delim LF" "\<not> is_delim NUL"
  by (simp_all add: is_delim_def)

lemma scan_append_word:
  "list_all (\<lambda>c. \<not> is_delim c) w \<Longrightarrow> scan cur (w @ s) = scan (cur @ w) s"
  by (induction w arbitrary: cur) auto

lemma scan_delim_end: "snd (scan cur (s @ [d])) = []" if "is_delim d"
  using that by (induction s arbitrary: cur) (auto split: prod.splits, metis snd_conv)

lemma scan_nodelim: "list_all (\<lambda>c. \<not> is_delim c) cur \<Longrightarrow> scan cur s = (ws, l) \<Longrightarrow>
    list_all (list_all (\<lambda>c. \<not> is_delim c)) ws \<and> list_all (\<lambda>c. \<not> is_delim c) l \<and>
    [] \<notin> set ws \<and> length l \<le> length cur + length s"
proof (induction s arbitrary: cur ws l)
  case (Cons c s)
  show ?case
  proof (cases "is_delim c")
    case True
    obtain ws' l' where "scan [] s = (ws', l')" by force
    with True Cons.prems Cons.IH [of "[]" ws' l'] show ?thesis
      by (auto split: if_splits)
  next
    case False
    with Cons.prems Cons.IH [of "cur @ [c]" ws l] show ?thesis by simp
  qed
qed simp

section \<open>Token arrays\<close>

definition toks :: "Tokens \<Rightarrow> tokptr list" where
  "toks t = take (t_count t) (t_buf t)"

definition toks_wf :: "Tokens \<Rightarrow> bool" where
  "toks_wf t \<longleftrightarrow> length (t_buf t) = t_cap t \<and> t_count t \<le> t_cap t \<and>
     TOKENS_INIT_CAP \<le> t_cap t \<and> t_cap t \<le> 2 ^ 32"

lemma toks_wf_init:
  "cmd_init [] = (Some c, m) \<Longrightarrow> toks_wf (tokens c) \<and> toks (tokens c) = [] \<and> m = []"
  by (auto simp: cmd_init_def toks_wf_def toks_def TOKENS_INIT_CAP_def)

lemma length_toks [simp]: "toks_wf t \<Longrightarrow> length (toks t) = t_count t"
  by (simp add: toks_def toks_wf_def)

lemma tok_at_toks: "toks_wf t \<Longrightarrow> i < t_count t \<Longrightarrow> tok_at t i = Inr (toks t ! i)"
  by (simp add: tok_at_def toks_def toks_wf_def)

text \<open>The slots past the last token keep what an earlier command left there.\<close>

definition slots_kept :: "Tokens \<Rightarrow> Tokens \<Rightarrow> bool" where
  "slots_kept t t' \<longleftrightarrow> t_count t \<le> t_count t' \<and> t_cap t \<le> t_cap t' \<and>
     (\<forall>i. t_count t' \<le> i \<longrightarrow> i < t_cap t \<longrightarrow> t_buf t' ! i = t_buf t ! i)"

lemma slots_kept_refl [simp]: "slots_kept t t"
  by (simp add: slots_kept_def)

lemma slots_kept_trans: "slots_kept t u \<Longrightarrow> slots_kept u v \<Longrightarrow> slots_kept t v"
  by (auto simp: slots_kept_def)

lemma add_token_ok:
  assumes "toks_wf t" and "t_count t < 2 ^ 31"
  shows "\<exists>t'. add_token [] t p = Inr (t', []) \<and> toks_wf t' \<and> toks t' = toks t @ [p] \<and>
    t_count t' = t_count t + 1 \<and> slots_kept t t'"
proof (cases "t_count t < t_cap t")
  case True
  with assms show ?thesis
    by (simp add: add_token_def toks_wf_def toks_def take_Suc_conv_app_nth slots_kept_def)
next
  case False
  with assms have c: "t_count t = t_cap t" "length (t_buf t) = t_cap t" "t_cap t < 2 ^ 31"
      "0 < t_cap t" "TOKENS_INIT_CAP \<le> t_cap t"
    by (auto simp: toks_wf_def TOKENS_INIT_CAP_def)
  then have "size_mul (t_cap t) 2 = 2 * t_cap t" "size_mul (2 * t_cap t) 8 = 16 * t_cap t"
    by (simp_all add: size_mul_exact size_mod_def)
  with c show ?thesis
    by (simp add: add_token_def toks_wf_def toks_def list_update_append slots_kept_def
        take_Suc_conv_app_nth Let_def nth_append)
qed

section \<open>The scanning loop finds the words\<close>

lemma block_cstr_extend: "block_cstr b = Inr w \<Longrightarrow> block_cstr (b @ c) = Inr w"
proof (induction b arbitrary: w)
  case (Cons x b)
  then show ?case by (cases x) (auto simp: res_bind_eq_Inr split: if_splits)
qed simp

lemma read_tok_extend:
  assumes "read_tok (st(bid \<mapsto> b)) (TPtr bid off) = Inr w"
  shows "read_tok (st(bid \<mapsto> b @ c)) (TPtr bid off) = Inr w"
proof -
  from assms have "off \<le> length b"
    by (cases "off \<le> length b") (auto simp: block_cstr_at_def)
  with assms show ?thesis by (simp add: block_cstr_at_def block_cstr_extend)
qed

text \<open>The tokens \<open>ps\<close> point into the buffer \<open>bid\<close>, and read as \<open>ws\<close> when its contents are \<open>b\<close>.\<close>

definition tokens_read :: "nat \<Rightarrow> bufs \<Rightarrow> block \<Rightarrow> tokptr list \<Rightarrow> string list \<Rightarrow> bool" where
  "tokens_read bid st b ps ws \<longleftrightarrow>
     list_all2 (\<lambda>p w. (\<exists>off. p = TPtr bid off) \<and> read_tok (st(bid \<mapsto> b)) p = Inr w) ps ws"

lemma tokens_read_simps [simp]:
  "tokens_read bid st b [] []"
  "tokens_read bid st b (TPtr bid off # ps) (w # ws) \<longleftrightarrow>
     block_cstr_at b off = Inr w \<and> tokens_read bid st b ps ws"
  by (simp_all add: tokens_read_def)

lemma tokens_read_extend: "tokens_read bid st b ps ws \<Longrightarrow> tokens_read bid st (b @ c) ps ws"
  unfolding tokens_read_def by (erule list_all2_mono) (metis read_tok_extend)

lemma tokens_read_append:
  "tokens_read bid st b ps ws \<Longrightarrow> tokens_read bid st b qs vs \<Longrightarrow> tokens_read bid st b (ps @ qs) (ws @ vs)"
  by (simp add: tokens_read_def list_all2_appendI)

lemma tokens_read_map_res: "tokens_read bid st b ps ws \<Longrightarrow> map_res (read_tok (st(bid \<mapsto> b))) ps = Inr ws"
  unfolding tokens_read_def by (induction ps ws rule: list_all2_induct) auto

lemma tokens_read_nth:
  "tokens_read bid st b ps ws \<Longrightarrow> i < length ws \<Longrightarrow>
   i < length ps \<and> read_tok (st(bid \<mapsto> b)) (ps ! i) = Inr (ws ! i)"
  by (auto simp: tokens_read_def list_all2_conv_all_nth)

lemma tokens_read_length: "tokens_read bid st b ps ws \<Longrightarrow> length ps = length ws"
  by (simp add: tokens_read_def list_all2_lengthD)

text \<open>
  From a state of the loop in which \<open>cur @ rest\<close> is ahead, \<open>cur\<close> already passed without a
  delimiter, the loop ends with the unfinished word \<open>l\<close> ahead and one new token for every
  word.
\<close>

lemma tokenize_loop_scan:
  assumes "list_all (\<lambda>c. \<not> is_delim c) cur" and "scan cur rest = (ws, l)"
    and "toks_wf (tokens cmd)" and "t_count (tokens cmd) + length (cur @ rest) < 2 ^ 31"
  shows "\<exists>pre' cmd' ps.
    tokenize_loop bid (pre @ map Some (cur @ rest) @ rem) (length pre) (length (cur @ rest))
        (length cur) cmd [] =
      Inr (pre @ pre' @ map Some l @ rem, length (pre @ pre'), length l, length l, cmd', []) \<and>
    length pre' + length l = length (cur @ rest) \<and>
    toks_wf (tokens cmd') \<and> toks (tokens cmd') = toks (tokens cmd) @ ps \<and>
    t_count (tokens cmd') + length l \<le> t_count (tokens cmd) + length (cur @ rest) \<and>
    tokens_read bid st (pre @ pre') ps (map cut ws) \<and>
    ready cmd' = (if has_crlf rest then 1 else ready cmd) \<and> entry cmd' = entry cmd \<and>
    slots_kept (tokens cmd) (tokens cmd')"
  using assms
proof (induction rest arbitrary: cur pre ws l cmd)
  case Nil
  then show ?case
    by (intro exI [of _ "[]"] exI [of _ cmd])
      (simp add: tokenize_loop.simps int32_id INT_MIN_def INT_MAX_def)
next
  case (Cons c rest)
  let ?n = "length cur + Suc (length rest)"
  have len: "int32 (int ?n) = int ?n"
    using Cons.prems(4) by (intro int32_id) (simp_all add: INT_MIN_def INT_MAX_def)
  have get: "block_get (pre @ map Some (cur @ c # rest) @ rem) (length pre + length cur) = Inr c"
    by (simp add: block_get_def nth_append)
  show ?case
  proof (cases "is_delim c")
    case False
    have "scan (cur @ [c]) rest = (ws, l)" "list_all (\<lambda>c. \<not> is_delim c) (cur @ [c])"
      using False Cons.prems by simp_all
    note IH = Cons.IH [OF this(2,1) Cons.prems(3), of pre]
    have "tokenize_loop bid (pre @ map Some (cur @ c # rest) @ rem) (length pre) ?n (length cur) cmd []
        = tokenize_loop bid (pre @ map Some ((cur @ [c]) @ rest) @ rem) (length pre)
            (length ((cur @ [c]) @ rest)) (length (cur @ [c])) cmd []"
      using False by (subst tokenize_loop.simps) (simp only: len get res_bind_Inr, simp)
    moreover from False have "c \<noteq> CR" by (auto simp: is_delim_def)
    ultimately show ?thesis
      using IH Cons.prems(4) by (auto simp: has_crlf_Cons)
  next
    case True
    obtain ws1 where ws1: "scan [] rest = (ws1, l)" "ws = (if cur = [] then ws1 else cur # ws1)"
      using True Cons.prems(2) by (auto split: prod.splits)
    let ?cmd = "if c = CR \<and> rest \<noteq> [] \<and> hd rest = LF then cmd\<lparr>ready := 1\<rparr> else cmd"
    let ?pre = "pre @ map Some cur @ [Some NUL]"
    have rdy: "(if int (length cur + 1) < int ?n \<and> c = CR
             then res_bind (block_get (pre @ map Some (cur @ c # rest) @ rem) (length pre + length cur + 1))
                    (\<lambda>d. Inr (if d = LF then cmd\<lparr>ready := 1\<rparr> else cmd))
             else Inr cmd) = (Inr ?cmd :: ub + Cmd)"
      by (cases rest) (auto simp: block_get_def nth_append)
    have put: "block_put (pre @ map Some (cur @ c # rest) @ rem) (length pre + length cur) NUL
        = Inr (?pre @ map Some ([] @ rest) @ rem)"
      by (simp add: block_put_def list_update_append)
    obtain cmd1 ps1 where cmd1:
        "(if 0 < length cur
          then res_bind (add_token [] (tokens ?cmd) (TPtr bid (length pre))) (\<lambda>(t, m).
               Inr (?cmd\<lparr>tokens := t\<rparr>, m))
          else Inr (?cmd, [])) = Inr (cmd1, [])"
        "toks_wf (tokens cmd1)" "toks (tokens cmd1) = toks (tokens cmd) @ ps1"
        "ps1 = (if cur = [] then [] else [TPtr bid (length pre)])"
        "t_count (tokens cmd1) \<le> t_count (tokens cmd) + length cur"
        "ready cmd1 = ready ?cmd" "entry cmd1 = entry cmd" "slots_kept (tokens cmd) (tokens cmd1)"
    proof (cases "cur = []")
      case True
      with Cons.prems(3) that [of ?cmd "[]"] show ?thesis by simp
    next
      case False
      have tk: "tokens ?cmd = tokens cmd" by simp
      have "t_count (tokens cmd) < 2 ^ 31"
        using Cons.prems(4) by auto
      from add_token_ok [OF Cons.prems(3) this, of "TPtr bid (length pre)"] obtain t where
        "add_token [] (tokens ?cmd) (TPtr bid (length pre)) = Inr (t, [])" "toks_wf t"
        "toks t = toks (tokens cmd) @ [TPtr bid (length pre)]"
        "t_count t = t_count (tokens cmd) + 1" "slots_kept (tokens cmd) t"
        unfolding tk by auto
      moreover from False have "1 \<le> length cur" by (cases cur) auto
      ultimately show ?thesis
        using False that [of "?cmd\<lparr>tokens := t\<rparr>" "[TPtr bid (length pre)]"] by simp
    qed
    have "list_all (\<lambda>c. \<not> is_delim c) []" "t_count (tokens cmd1) + length ([] @ rest) < 2 ^ 31"
      using Cons.prems(4) cmd1(5) by simp_all
    then obtain pre' cmd' ps where IH:
      "tokenize_loop bid (?pre @ map Some ([] @ rest) @ rem) (length ?pre) (length ([] @ rest)) (length []) cmd1 [] =
        Inr (?pre @ pre' @ map Some l @ rem, length (?pre @ pre'), length l, length l, cmd', [])"
      "length pre' + length l = length rest" "toks_wf (tokens cmd')"
      "toks (tokens cmd') = toks (tokens cmd1) @ ps"
      "t_count (tokens cmd') + length l \<le> t_count (tokens cmd1) + length rest"
      "tokens_read bid st (?pre @ pre') ps (map cut ws1)"
      "ready cmd' = (if has_crlf rest then 1 else ready cmd1)" "entry cmd' = entry cmd1"
      "slots_kept (tokens cmd1) (tokens cmd')"
      using Cons.IH [OF _ ws1(1) cmd1(2), of "?pre"] by auto
    have "block_cstr (map Some cur @ [Some NUL]) = Inr (cut cur)"
      using block_cstr_written [of "cur @ [NUL]" "[]"]
      by (simp add: cut_def takeWhile_tail del: takeWhile_append)
    then have "block_cstr_at ?pre (length pre) = Inr (cut cur)"
      by (simp add: block_cstr_at_def)
    then have "tokens_read bid st ?pre ps1 (if cur = [] then [] else [cut cur])"
      by (simp add: cmd1(4))
    from tokens_read_append [OF tokens_read_extend [OF this] IH(6)]
    have tok: "tokens_read bid st (?pre @ pre') (ps1 @ ps) (map cut ws)"
      by (auto simp: ws1(2) split: if_splits)
    have "tokenize_loop bid (pre @ map Some (cur @ c # rest) @ rem) (length pre) ?n (length cur) cmd []
        = tokenize_loop bid (?pre @ map Some ([] @ rest) @ rem) (length ?pre) (length ([] @ rest)) (length []) cmd1 []"
      using True
      by (subst tokenize_loop.simps) (simp only: len get rdy put cmd1(1) res_bind_Inr prod.case, simp)
    with IH tok cmd1(3,5,6,7) slots_kept_trans [OF cmd1(8) IH(9)] show ?thesis
      by (intro exI [of _ "map Some cur @ [Some NUL] @ pre'"] exI [of _ cmd'] exI [of _ "ps1 @ ps"])
        (auto simp: has_crlf_Cons)
  qed
qed

section \<open>What the parser leaves\<close>

text \<open>
  A buffer with the command \<open>s\<close>: the length counts the bytes of the command, and a NUL follows
  them.
\<close>

definition raw_holds :: "StringBuffer \<Rightarrow> string \<Rightarrow> bool" where
  "raw_holds raw s \<longleftrightarrow> sb_len raw = length s \<and> (\<exists>rem. sb_buf raw = map Some s @ Some NUL # rem)"

lemma tokenize_words:
  assumes raw: "raw_holds raw s" and wf: "toks_wf (tokens cmd)"
    and len: "t_count (tokens cmd) + length s < 2 ^ 31"
  shows "\<exists>cmd' raw' ps. tokenize bid [] cmd raw =
      Inr (length s - length (snd (scan [] s)), cmd', raw', []) \<and>
    toks_wf (tokens cmd') \<and> toks (tokens cmd') = toks (tokens cmd) @ ps \<and>
    tokens_read bid st (sb_buf raw') ps (words s) \<and>
    ready cmd' = (if has_crlf s then 1 else ready cmd) \<and> entry cmd' = entry cmd \<and>
    slots_kept (tokens cmd) (tokens cmd')"
proof -
  from raw obtain rem where buf: "sb_buf raw = map Some s @ Some NUL # rem" "sb_len raw = length s"
    by (auto simp: raw_holds_def)
  obtain ws l where sc: "scan [] s = (ws, l)" by force
  from len have sz: "length s < size_mod" by (simp add: size_mod_def)
  from tokenize_loop_scan [where pre = "[]" and cur = "[]" and rem = "Some NUL # rem" and bid = bid and st = st,
      OF _ sc wf] len
  obtain pre' cmd1 ps where L:
    "tokenize_loop bid (map Some s @ Some NUL # rem) 0 (length s) 0 cmd [] =
      Inr (pre' @ map Some l @ Some NUL # rem, length pre', length l, length l, cmd1, [])"
    "length pre' + length l = length s" "toks_wf (tokens cmd1)"
    "toks (tokens cmd1) = toks (tokens cmd) @ ps"
    "t_count (tokens cmd1) + length l \<le> t_count (tokens cmd) + length s"
    "tokens_read bid st pre' ps (map cut ws)"
    "ready cmd1 = (if has_crlf s then 1 else ready cmd)" "entry cmd1 = entry cmd"
    "slots_kept (tokens cmd) (tokens cmd1)"
    by auto
  let ?b = "pre' @ map Some l @ Some NUL # rem"
  have read: "tokens_read bid st ?b ps (map cut ws)"
    by (rule tokens_read_extend) (rule L(6))
  show ?thesis
  proof (cases "l = []")
    case True
    with L sc buf read sz show ?thesis
      by (intro exI [of _ cmd1] exI [of _ "raw\<lparr>sb_buf := ?b\<rparr>"] exI [of _ ps])
        (simp add: tokenize_def words_def)
  next
    case False
    with L(5) len have "t_count (tokens cmd1) < 2 ^ 31" by (cases l) auto
    from add_token_ok [OF L(3) this, of "TPtr bid (length pre')"] obtain t where t:
      "add_token [] (tokens cmd1) (TPtr bid (length pre')) = Inr (t, [])" "toks_wf t"
      "toks t = toks (tokens cmd1) @ [TPtr bid (length pre')]" "slots_kept (tokens cmd1) t"
      by auto
    have "block_cstr_at ?b (length pre') = Inr (cut l)"
      using block_cstr_written [of "l @ [NUL]" rem]
      by (simp add: block_cstr_at_def cut_def takeWhile_tail del: takeWhile_append)
    then have "tokens_read bid st ?b (ps @ [TPtr bid (length pre')]) (map cut ws @ [cut l])"
      using read by (simp add: tokens_read_append)
    with L sc buf t False sz slots_kept_trans [OF L(9) t(4)] show ?thesis
      by (intro exI [of _ "cmd1\<lparr>tokens := t\<rparr>"] exI [of _ "raw\<lparr>sb_buf := ?b\<rparr>"]
          exI [of _ "ps @ [TPtr bid (length pre')]"])
        (simp add: tokenize_def words_def)
  qed
qed

definition command_of :: "string list \<Rightarrow> CmdCode" where
  "command_of ws =
     (case ws of [] \<Rightarrow> CMD_UNKNOWN
      | w # _ \<Rightarrow>
          if w = ''GET'' then CMD_GET else if w = ''SET'' then CMD_SET
          else if w = ''DEL'' then CMD_DEL else if w = ''QUIT'' then CMD_QUIT
          else if w = ''INFO'' then CMD_INFO else if w = ''SAVE'' then CMD_SAVE
          else if w = ''LOAD'' then CMD_LOAD else if w = ''INCR'' then CMD_INCR
          else if w = ''SELECT'' then CMD_SELECT else CMD_UNKNOWN)"

lemma length_eq_3: "length w = 3 \<longleftrightarrow> (\<exists>a b c. w = [a, b, c])"
  by (auto simp: numeral_3_eq_3 length_Suc_conv)

lemma length_eq_4: "length w = 4 \<longleftrightarrow> (\<exists>a b c d. w = [a, b, c, d])"
  using length_Suc_conv [of w 3] by (auto simp: length_eq_3)

lemma length_eq_6: "length w = 6 \<longleftrightarrow> (\<exists>a b c d e f. w = [a, b, c, d, e, f])"
proof -
  have "length v = 5 \<longleftrightarrow> (\<exists>b c d e f. v = [b, c, d, e, f])" for v :: "'a list"
    using length_Suc_conv [of v 4] by (auto simp: length_eq_4)
  then show ?thesis using length_Suc_conv [of w 5] by auto
qed

lemma match_code_table: "match_code w CMD_UNKNOWN = command_of [w]"
proof -
  consider "length w = 3" | "length w = 4" | "length w = 6"
    | "length w \<noteq> 3" "length w \<noteq> 4" "length w \<noteq> 6"
    by blast
  then show ?thesis
  proof cases
    case 1
    then obtain a b c where "w = [a, b, c]" by (auto simp: length_eq_3)
    then show ?thesis by (simp add: match_code_def command_of_def)
  next
    case 2
    then obtain a b c d where "w = [a, b, c, d]" by (auto simp: length_eq_4)
    then show ?thesis by (simp add: match_code_def command_of_def)
  next
    case 3
    then obtain a b c d e f where "w = [a, b, c, d, e, f]" by (auto simp: length_eq_6)
    then show ?thesis by (simp add: match_code_def command_of_def)
  next
    case 4
    then have "w \<noteq> ''GET''" "w \<noteq> ''SET''" "w \<noteq> ''DEL''" "w \<noteq> ''QUIT''" "w \<noteq> ''INFO''"
      "w \<noteq> ''SAVE''" "w \<noteq> ''LOAD''" "w \<noteq> ''INCR''" "w \<noteq> ''SELECT''"
      by fastforce+
    then have "command_of [w] = CMD_UNKNOWN" unfolding command_of_def by simp
    then show ?thesis unfolding match_code_def using 4 by presburger
  qed
qed

text \<open>The whole parse of a command, whatever an earlier command left in the \<open>Cmd\<close>.\<close>

lemma cmd_parse_words:
  assumes raw: "raw_holds raw s" and wf: "toks_wf (tokens cmd)" and len: "length s < 2 ^ 31"
  shows "\<exists>cmd' raw'. cmd_parse bid st [] (Some cmd) (Some raw) =
      Inr (int (length s - length (snd (scan [] s))), Some cmd', Some raw', []) \<and>
    toks_wf (tokens cmd') \<and> tokens_read bid st (sb_buf raw') (toks (tokens cmd')) (words s) \<and>
    t_count (tokens cmd') = length (words s) \<and>
    ready cmd' = (if has_crlf s then 1 else 0) \<and> entry cmd' = command_of (words s) \<and>
    (\<forall>i. length (words s) \<le> i \<longrightarrow> i < t_cap (tokens cmd) \<longrightarrow>
         t_buf (tokens cmd') ! i = t_buf (tokens cmd) ! i)"
proof -
  have wf0: "toks_wf (tokens (cmd_reset cmd))" "toks (tokens (cmd_reset cmd)) = []"
      "t_count (tokens (cmd_reset cmd)) = 0" "ready (cmd_reset cmd) = 0"
      "entry (cmd_reset cmd) = CMD_UNKNOWN"
    using wf by (simp_all add: cmd_reset_def toks_wf_def toks_def)
  from tokenize_words [OF raw wf0(1), of bid st] len obtain cmd1 raw1 where T:
    "tokenize bid [] (cmd_reset cmd) raw =
      Inr (length s - length (snd (scan [] s)), cmd1, raw1, [])"
    "toks_wf (tokens cmd1)" "tokens_read bid st (sb_buf raw1) (toks (tokens cmd1)) (words s)"
    "ready cmd1 = (if has_crlf s then 1 else 0)" "entry cmd1 = CMD_UNKNOWN"
    "slots_kept (tokens (cmd_reset cmd)) (tokens cmd1)"
    by (auto simp: wf0)
  have n: "t_count (tokens cmd1) = length (words s)"
    using tokens_read_length [OF T(3)] T(2) by simp
  have m: "match_command (st(bid \<mapsto> sb_buf raw1)) cmd1 = Inr (cmd1\<lparr>entry := command_of (words s)\<rparr>)"
  proof (cases "words s")
    case Nil
    with n T(5) show ?thesis by (simp add: match_command_def command_of_def)
  next
    case (Cons w ws)
    with n T(2) tokens_read_nth [OF T(3), of 0] show ?thesis
      by (simp add: match_command_def tok_at_toks T(5) match_code_table)
        (simp add: command_of_def)
  qed
  from len have "int32 (int (length s - length (snd (scan [] s))))
      = int (length s - length (snd (scan [] s)))"
    by (intro int32_id) (auto simp: INT_MIN_def INT_MAX_def)
  with T m n show ?thesis
    by (simp add: cmd_parse_def parse_tokens_def slots_kept_def cmd_reset_def)
qed

section \<open>Properties\<close>

text \<open>
C17. Parsing a command.  Whatever tokens an earlier command left, parsing a buffer that holds the
bytes \<open>s\<close> with a NUL behind them returns the number of bytes consumed, and the tokens then read
back, in order, as the maximal runs of \<open>s\<close> without blank, CR and LF, each up to its first NUL;
\<open>ready\<close> is 1 exactly when \<open>s\<close> has a CR LF; \<open>entry\<close> is the command of the first word.
\<close>
theorem parse_gives_words:
  assumes "raw_holds raw s" and "toks_wf (tokens cmd)" and "length s < 2 ^ 31"
  shows "\<exists>cmd' raw'. cmd_parse bid st [] (Some cmd) (Some raw) =
      Inr (int (length s - length (snd (scan [] s))), Some cmd', Some raw', []) \<and>
    map_res (read_tok (st(bid \<mapsto> sb_buf raw'))) (toks (tokens cmd')) = Inr (words s) \<and>
    t_count (tokens cmd') = length (words s) \<and> ready cmd' = (if has_crlf s then 1 else 0) \<and>
    entry cmd' = command_of (words s) \<and> toks_wf (tokens cmd')"
  using cmd_parse_words [OF assms, of bid st] tokens_read_map_res by blast

theorem parse_gives_words_witness:
  "\<exists>cmd cmd' raw'. cmd_parse 0 Map.empty [] (Some cmd)
      (Some \<lparr>sb_buf = map Some (''SET a  b'' @ [CR, LF]) @ [Some NUL], sb_len = 10, sb_cap = 11\<rparr>) =
      Inr (10, Some cmd', Some raw', []) \<and>
    map_res (read_tok [0 \<mapsto> sb_buf raw']) (toks (tokens cmd')) = Inr [''SET'', ''a'', ''b''] \<and> entry cmd' = CMD_SET"
proof -
  obtain cmd m where i: "cmd_init [] = (Some cmd, m)"
    by (simp add: cmd_init_def)
  have w: "words (''SET a  b'' @ [CR, LF]) = [''SET'', ''a'', ''b'']"
    by (simp add: words_def cut_def is_delim_def char_consts)
  let ?s = "''SET a  b'' @ [CR, LF]"
  let ?raw = "\<lparr>sb_buf = map Some ?s @ [Some NUL], sb_len = 10, sb_cap = 11\<rparr>"
  have n: "int (length ?s - length (snd (scan [] ?s))) = 10" "length ?s < 2 ^ 31"
    by (simp_all add: is_delim_def char_consts)
  have "raw_holds ?raw ?s"
    by (simp add: raw_holds_def)
  from parse_gives_words [OF this _ n(2), of cmd 0 Map.empty] toks_wf_init [OF i]
  obtain cmd' raw' where "cmd_parse 0 Map.empty [] (Some cmd) (Some ?raw) = Inr (10, Some cmd', Some raw', [])"
      "map_res (read_tok [0 \<mapsto> sb_buf raw']) (toks (tokens cmd')) = Inr [''SET'', ''a'', ''b'']"
      "entry cmd' = command_of [''SET'', ''a'', ''b'']"
    unfolding w n(1) by blast
  then show ?thesis by (auto simp: command_of_def)
qed

end
