(* ===== verification/ServerState.thy ===== *)
theory ServerState
  imports HashStore TokenParser
begin

text \<open>
  The state of the running server: the structures of \<^verbatim>\<open>server.h\<close> and what the operating system
  keeps for the process.  A \<open>World\<close> is the \<open>Server\<close> (\<open>None\<close> for a null pointer), the outcomes of
  the next calls of \<open>malloc\<close>, \<open>send\<close> and \<open>close\<close>, the files, the live command buffers (numbered in the order of
  their allocation, so that no number is used twice), and the
  trace of the events the process has caused so far: lock operations, accesses to the buckets
  of the tables, bytes sent and sockets closed.  A pointer to a \<open>Client\<close> is the index of its
  slot in the array of the server, since that is what the worker threads point into.
\<close>

definition MAX_CONN :: nat where "MAX_CONN = 512"
definition NUM_DBS :: nat where "NUM_DBS = 16"
definition MAX_DB :: nat where "MAX_DB = NUM_DBS - 1"

record Client =
  sock :: int
  ip :: string
  port :: nat
  db :: nat

record Server =
  srv_sock :: int
  srv_addr :: nat
  srv_port :: nat
  clients_array :: "Client list"
  clients_threads :: "nat option list"
  clients_count :: int
  tables :: "HashTable list"
  restore :: int

datatype lock = BucketLock nat nat | ServerLock

datatype event =
  RdLock lock | WrLock lock | Unlock lock
| ReadBucket nat nat | WriteBucket nat nat
| Send int string | Close int | Shutdown int | Join nat

record World =
  server :: "Server option"
  w_mem :: mem
  send_res :: "nat option list"
  close_res :: "bool list"
  files :: "string \<Rightarrow> char list option"
  writable :: "string \<Rightarrow> bool"
  w_bufs :: bufs
  w_next :: nat
  trace :: "event list"

definition emit :: "event list \<Rightarrow> World \<Rightarrow> World" where
  "emit es w = w\<lparr>trace := trace w @ es\<rparr>"

section \<open>Pointers into the server\<close>

definition client_of :: "World \<Rightarrow> nat \<Rightarrow> ub + Client" where
  "client_of w k =
     (case server w of None \<Rightarrow> Inl NullDeref
      | Some s \<Rightarrow> if k < length (clients_array s) then Inr (clients_array s ! k) else Inl OutOfBounds)"

definition table_of :: "World \<Rightarrow> nat \<Rightarrow> ub + HashTable" where
  "table_of w d =
     (case server w of None \<Rightarrow> Inl NullDeref
      | Some s \<Rightarrow> if d < length (tables s) then Inr (tables s ! d) else Inl OutOfBounds)"

definition put_client :: "nat \<Rightarrow> Client \<Rightarrow> World \<Rightarrow> World" where
  "put_client k c w =
     w\<lparr>server := map_option (\<lambda>s. s\<lparr>clients_array := (clients_array s)[k := c]\<rparr>) (server w)\<rparr>"

definition put_table :: "nat \<Rightarrow> HashTable \<Rightarrow> World \<Rightarrow> World" where
  "put_table d t w =
     w\<lparr>server := map_option (\<lambda>s. s\<lparr>tables := (tables s)[d := t]\<rparr>) (server w)\<rparr>"

definition add_clients :: "int \<Rightarrow> World \<Rightarrow> World" where
  "add_clients n w =
     w\<lparr>server := map_option (\<lambda>s. s\<lparr>clients_count := clients_count s + n\<rparr>) (server w)\<rparr>"

section \<open>System calls\<close>

text \<open>\<open>send\<close> returns \<open>-1\<close> or the number of bytes it took, which may be fewer than it was given.\<close>

definition sys_send :: "World \<Rightarrow> int \<Rightarrow> string \<Rightarrow> int \<times> World" where
  "sys_send w fd m =
     (case send_res w of
        [] \<Rightarrow> (int (length m), emit [Send fd m] w)
      | None # rs \<Rightarrow> (-1, w\<lparr>send_res := rs\<rparr>)
      | Some n # rs \<Rightarrow>
          (int (min n (length m)), emit [Send fd (take n m)] (w\<lparr>send_res := rs\<rparr>)))"

definition sys_close :: "World \<Rightarrow> int \<Rightarrow> int \<times> World" where
  "sys_close w fd =
     (case close_res w of
        [] \<Rightarrow> (0, emit [Close fd] w)
      | True # rs \<Rightarrow> (0, emit [Close fd] (w\<lparr>close_res := rs\<rparr>))
      | False # rs \<Rightarrow> (-1, w\<lparr>close_res := rs\<rparr>))"

text \<open>No call of the allocator, of \<open>send\<close> or of \<open>close\<close> is going to fail.\<close>

definition calm :: "World \<Rightarrow> bool" where
  "calm w \<longleftrightarrow> w_mem w = [] \<and> send_res w = [] \<and> close_res w = []"

section \<open>Well-formed states\<close>

definition client_wf :: "Client \<Rightarrow> bool" where
  "client_wf c \<longleftrightarrow> db c < NUM_DBS"

definition server_wf :: "Server \<Rightarrow> bool" where
  "server_wf s \<longleftrightarrow> length (clients_array s) = MAX_CONN \<and> length (tables s) = NUM_DBS \<and>
     (\<forall>c \<in> set (clients_array s). client_wf c) \<and> (\<forall>t \<in> set (tables s). ht_wf t)"

definition world_wf :: "World \<Rightarrow> bool" where
  "world_wf w \<longleftrightarrow> (\<exists>s. server w = Some s \<and> server_wf s)"

text \<open>The database \<open>d\<close> as a finite map.\<close>

definition db_map :: "World \<Rightarrow> nat \<Rightarrow> string \<Rightarrow> string option" where
  "db_map w d =
     (case server w of None \<Rightarrow> Map.empty
      | Some s \<Rightarrow> if d < length (tables s) then ht_lookup (tables s ! d) else Map.empty)"

lemma table_of_wf: "world_wf w \<Longrightarrow> d < NUM_DBS \<Longrightarrow>
    \<exists>t. table_of w d = Inr t \<and> ht_wf t \<and> ht_lookup t = db_map w d"
  by (auto simp: world_wf_def server_wf_def table_of_def db_map_def)

lemma client_of_wf: "world_wf w \<Longrightarrow> k < MAX_CONN \<Longrightarrow> \<exists>c. client_of w k = Inr c \<and> client_wf c"
  by (auto simp: world_wf_def server_wf_def client_of_def)

lemma client_of_in: "client_of w k = Inr c \<Longrightarrow> world_wf w \<Longrightarrow> db c < NUM_DBS"
  by (auto simp: client_of_def world_wf_def server_wf_def client_wf_def split: option.splits if_splits)

lemma world_wf_put_table [wf_intros]: "world_wf w \<Longrightarrow> ht_wf t \<Longrightarrow> world_wf (put_table d t w)"
  by (auto simp: world_wf_def server_wf_def put_table_def dest!: set_update_subset_insert [THEN subsetD])

lemma world_wf_put_client [wf_intros]: "world_wf w \<Longrightarrow> client_wf c \<Longrightarrow> world_wf (put_client k c w)"
  by (auto simp: world_wf_def server_wf_def put_client_def dest!: set_update_subset_insert [THEN subsetD])

lemma world_wf_add_clients [wf_intros]: "world_wf w \<Longrightarrow> world_wf (add_clients n w)"
  by (auto simp: world_wf_def server_wf_def add_clients_def)

lemma world_wf_emit [simp]: "world_wf (emit es w) = world_wf w"
  by (simp add: world_wf_def emit_def)

lemma emit_simps [simp]:
  "server (emit es w) = server w" "w_mem (emit es w) = w_mem w" "send_res (emit es w) = send_res w"
  "close_res (emit es w) = close_res w" "files (emit es w) = files w"
  "writable (emit es w) = writable w" "w_bufs (emit es w) = w_bufs w" "w_next (emit es w) = w_next w"
  "trace (emit es w) = trace w @ es" "client_of (emit es w) = client_of w"
  "table_of (emit es w) = table_of w" "db_map (emit es w) = db_map w"
  by (simp_all add: emit_def fun_eq_iff client_of_def table_of_def db_map_def)

lemma put_simps [simp]:
  "w_mem (put_table d t w) = w_mem w" "send_res (put_table d t w) = send_res w"
  "close_res (put_table d t w) = close_res w" "files (put_table d t w) = files w"
  "writable (put_table d t w) = writable w" "w_bufs (put_table d t w) = w_bufs w"
  "w_next (put_table d t w) = w_next w" "w_next (put_client k c w) = w_next w"
  "w_next (add_clients n w) = w_next w"
  "trace (put_table d t w) = trace w" "client_of (put_table d t w) = client_of w"
  "w_mem (put_client k c w) = w_mem w" "send_res (put_client k c w) = send_res w"
  "close_res (put_client k c w) = close_res w" "files (put_client k c w) = files w"
  "writable (put_client k c w) = writable w" "w_bufs (put_client k c w) = w_bufs w"
  "trace (put_client k c w) = trace w" "table_of (put_client k c w) = table_of w"
  "db_map (put_client k c w) = db_map w"
  "w_mem (add_clients n w) = w_mem w" "send_res (add_clients n w) = send_res w"
  "close_res (add_clients n w) = close_res w" "files (add_clients n w) = files w"
  "writable (add_clients n w) = writable w" "w_bufs (add_clients n w) = w_bufs w"
  "trace (add_clients n w) = trace w" "client_of (add_clients n w) = client_of w"
  "table_of (add_clients n w) = table_of w" "db_map (add_clients n w) = db_map w"
  by (simp_all add: put_table_def put_client_def add_clients_def fun_eq_iff client_of_def
      table_of_def db_map_def split: option.split)

lemma db_map_put_table:
  "world_wf w \<Longrightarrow> d < NUM_DBS \<Longrightarrow> db_map (put_table d t w) = (db_map w)(d := ht_lookup t)"
  by (auto simp: db_map_def put_table_def world_wf_def server_wf_def fun_eq_iff)

lemma calm_simps [simp]:
  "calm (emit es w) = calm w" "calm (put_table d t w) = calm w" "calm (put_client k c w) = calm w"
  "calm (add_clients n w) = calm w"
  by (simp_all add: calm_def)

lemma calm_mem [simp]: "calm w \<Longrightarrow> w_mem w = []" "calm w \<Longrightarrow> w\<lparr>w_mem := []\<rparr> = w"
  by (simp_all add: calm_def)

lemma sys_send_calm: "calm w \<Longrightarrow> sys_send w fd m = (int (length m), emit [Send fd m] w)"
  by (simp add: sys_send_def calm_def)

lemma sys_close_calm: "calm w \<Longrightarrow> sys_close w fd = (0, emit [Close fd] w)"
  by (simp add: sys_close_def calm_def)

lemma table_of_put_table: "table_of w d = Inr t \<Longrightarrow> table_of (put_table e u w) d = Inr (if e = d then u else t)"
  by (auto simp: table_of_def put_table_def split: option.splits if_splits)

lemma put_table_id: "table_of w d = Inr t \<Longrightarrow> put_table d t w = w"
  by (auto simp: table_of_def put_table_def map_option_case split: option.splits if_splits)

lemma put_emit [simp]:
  "put_table d t (emit es w) = emit es (put_table d t w)"
  "put_client k c (emit es w) = emit es (put_client k c w)"
  "add_clients n (emit es w) = emit es (add_clients n w)"
  by (simp_all add: put_table_def put_client_def add_clients_def emit_def)

lemma put_table_twice [simp]: "put_table d t (put_table d u w) = put_table d t w"
  by (cases "server w") (auto simp: put_table_def)

lemma emit_emit [simp]: "emit es (emit fs w) = emit (fs @ es) w"
  by (simp add: emit_def)

lemma emit_Nil [simp]: "emit [] w = w"
  by (simp add: emit_def)

lemma w_mem_id [simp]: "w_mem w = [] \<Longrightarrow> w\<lparr>w_mem := []\<rparr> = w"
  by (cases w) simp

text \<open>What only depends on the server is not touched by the other fields.\<close>

lemma world_field_simps [simp]:
  "world_wf (w\<lparr>w_mem := m\<rparr>) = world_wf w" "client_of (w\<lparr>w_mem := m\<rparr>) = client_of w"
  "table_of (w\<lparr>w_mem := m\<rparr>) = table_of w" "db_map (w\<lparr>w_mem := m\<rparr>) = db_map w"
  "world_wf (w\<lparr>files := fs\<rparr>) = world_wf w" "client_of (w\<lparr>files := fs\<rparr>) = client_of w"
  "table_of (w\<lparr>files := fs\<rparr>) = table_of w" "db_map (w\<lparr>files := fs\<rparr>) = db_map w"
  "world_wf (w\<lparr>w_bufs := bs\<rparr>) = world_wf w" "client_of (w\<lparr>w_bufs := bs\<rparr>) = client_of w"
  "table_of (w\<lparr>w_bufs := bs\<rparr>) = table_of w" "db_map (w\<lparr>w_bufs := bs\<rparr>) = db_map w"
  "world_wf (w\<lparr>send_res := rs\<rparr>) = world_wf w" "client_of (w\<lparr>send_res := rs\<rparr>) = client_of w"
  "table_of (w\<lparr>send_res := rs\<rparr>) = table_of w" "db_map (w\<lparr>send_res := rs\<rparr>) = db_map w"
  "world_wf (w\<lparr>close_res := cs\<rparr>) = world_wf w" "client_of (w\<lparr>close_res := cs\<rparr>) = client_of w"
  "table_of (w\<lparr>close_res := cs\<rparr>) = table_of w" "db_map (w\<lparr>close_res := cs\<rparr>) = db_map w"
  "world_wf (w\<lparr>w_next := n\<rparr>) = world_wf w" "client_of (w\<lparr>w_next := n\<rparr>) = client_of w"
  "table_of (w\<lparr>w_next := n\<rparr>) = table_of w" "db_map (w\<lparr>w_next := n\<rparr>) = db_map w"
  "calm (w\<lparr>w_next := n\<rparr>) = calm w"
  "calm (w\<lparr>files := fs\<rparr>) = calm w" "calm (w\<lparr>w_bufs := bs\<rparr>) = calm w"
  by (simp_all add: fun_eq_iff world_wf_def client_of_def table_of_def db_map_def calm_def)

section \<open>The connections\<close>

text \<open>What the server knows of its connections, without what they do: sockets, threads and count.\<close>

definition conns :: "World \<Rightarrow> (int list \<times> nat option list \<times> int) option" where
  "conns w = map_option (\<lambda>s. (map sock (clients_array s), clients_threads s, clients_count s)) (server w)"

lemma conns_simps [simp]:
  "conns (emit es w) = conns w" "conns (put_table d t w) = conns w" "conns (w\<lparr>w_mem := m\<rparr>) = conns w"
  "conns (w\<lparr>files := fs\<rparr>) = conns w" "conns (w\<lparr>w_bufs := bs\<rparr>) = conns w" "conns (w\<lparr>w_next := n\<rparr>) = conns w"
  "conns (w\<lparr>send_res := rs\<rparr>) = conns w" "conns (w\<lparr>close_res := cs\<rparr>) = conns w"
  by (simp_all add: conns_def put_table_def option.map_comp comp_def)

lemma conns_put_client:
  "client_of w k = Inr c \<Longrightarrow> sock c' = sock c \<Longrightarrow> conns (put_client k c' w) = conns w"
  by (auto simp: conns_def put_client_def client_of_def map_update list_update_same_conv split: option.splits if_splits)

section \<open>The zeroed server\<close>

text \<open>What \<open>memset (server, 0, sizeof (Server))\<close> leaves, and a process that owns a server.\<close>

definition zero_client :: Client where
  "zero_client = \<lparr>sock = 0, ip = [], port = 0, db = 0\<rparr>"

definition zero_server :: Server where
  "zero_server = \<lparr>srv_sock = 0, srv_addr = 0, srv_port = 0,
     clients_array = replicate MAX_CONN zero_client, clients_threads = replicate MAX_CONN None,
     clients_count = 0, tables = replicate NUM_DBS empty_table, restore = 0\<rparr>"

definition boot_world :: "Server \<Rightarrow> World" where
  "boot_world s = \<lparr>server = Some s, w_mem = [], send_res = [], close_res = [], files = Map.empty,
     writable = (\<lambda>_. True), w_bufs = Map.empty, w_next = 0,
     trace = []\<rparr>"

lemma boot_world_simps [simp]:
  "server (boot_world s) = Some s" "w_mem (boot_world s) = []" "files (boot_world s) p = None"
  "writable (boot_world s) p" "w_bufs (boot_world s) bid = None" "trace (boot_world s) = []"
  "calm (boot_world s)"
  by (simp_all add: boot_world_def calm_def)

lemma boot_world_wf [wf_intros]: "server_wf s \<Longrightarrow> world_wf (boot_world s)"
  by (simp add: world_wf_def)

lemma server_wf_zero [wf_intros]: "server_wf zero_server"
  by (auto simp: server_wf_def zero_server_def client_wf_def zero_client_def NUM_DBS_def ht_wf_empty)

text \<open>A small server for the examples: one key in database 0.\<close>

definition sample_world :: World where
  "sample_world = put_table 0 (ht_put empty_table ''k'' ''7'') (boot_world zero_server)"

lemma kv_ok_sample: "kv_ok ''k'' ''7''"
  by (simp add: kv_ok_def NUL_def)

lemma sample_world_wf: "world_wf sample_world" "calm sample_world" "w_mem sample_world = []"
  "writable sample_world p"
  by (auto simp: sample_world_def intro!: wf_intros kv_ok_sample)

lemma table_of_boot: "d < NUM_DBS \<Longrightarrow> table_of (boot_world zero_server) d = Inr empty_table"
  by (simp add: table_of_def zero_server_def)

lemma table_of_sample:
  "d < NUM_DBS \<Longrightarrow> table_of sample_world d =
     Inr (if d = 0 then ht_put empty_table ''k'' ''7'' else empty_table)"
  unfolding sample_world_def using table_of_put_table [OF table_of_boot] by auto

lemma db_map_sample: "db_map sample_world = (\<lambda>d. if d = 0 then [''k'' \<mapsto> ''7''] else Map.empty)"
proof
  fix d
  show "db_map sample_world d = (if d = 0 then [''k'' \<mapsto> ''7''] else Map.empty)"
  proof (cases "d < NUM_DBS")
    case True
    then show ?thesis
      using table_of_wf [OF sample_world_wf(1) True] table_of_sample [OF True]
      by (auto simp: ht_lookup_put ht_lookup_empty ht_wf_empty)
  next
    case False
    then show ?thesis
      by (auto simp: db_map_def sample_world_def put_table_def zero_server_def NUM_DBS_def)
  qed
qed

lemma client_of_sample: "k < MAX_CONN \<Longrightarrow> client_of sample_world k = Inr zero_client"
  by (simp add: sample_world_def client_of_def zero_server_def put_table_def)

end
