(* ===== verification/ReplyMsg.thy ===== *)
theory ReplyMsg
  imports ServerState
begin

text \<open>
  The replies of \<^verbatim>\<open>reply.c\<close>: each function formats one RESP message into memory it allocates and
  sends it to the socket of the client.  \<open>resp_decode\<close> is the other end of the protocol, what a
  client reads; the lemmas show that every message the server formats is read back as the value
  it stands for, with what follows it in the stream untouched.
\<close>

record ServerReply =
  r_msg :: "string option"
  r_error :: int

definition reply_new :: "World \<Rightarrow> ServerReply option \<times> World" where
  "reply_new w =
     (case malloc (w_mem w) of
        (False, m) \<Rightarrow> (None, w\<lparr>w_mem := m\<rparr>)
      | (True, m) \<Rightarrow> (Some \<lparr>r_msg = None, r_error = 1\<rparr>, w\<lparr>w_mem := m\<rparr>))"

definition CRLF :: string where "CRLF = [CR, LF]"

definition reply_send :: "World \<Rightarrow> nat \<Rightarrow> ServerReply option \<Rightarrow> ub + (int \<times> World)" where
  "reply_send w k rp =
     res_bind (client_of w k) (\<lambda>c.
     case rp of
       None \<Rightarrow> Inr (-1, w)
     | Some r \<Rightarrow>
         (case r_msg r of
            None \<Rightarrow> Inr (-1, w)
          | Some m \<Rightarrow>
              (case sys_send w (sock c) m of
                 (sent, w) \<Rightarrow> if sent = -1 then Inr (-1, w) else Inr (0, w))))"

text \<open>
  The allocation of a message: its size is \<open>snprintf (NULL, 0, ...) + 1\<close> as an \<open>int\<close>, so that a
  message of \<open>INT_MAX\<close> bytes or more overflows it or leaves a block too small to send.
\<close>

definition format_msg :: "World \<Rightarrow> string \<Rightarrow> ub + (string option \<times> World)" where
  "format_msg w s =
     (if INT_MAX \<le> int (length s) then Inl OutOfBounds
      else
        (case malloc (w_mem w) of
           (False, m) \<Rightarrow> Inr (None, w\<lparr>w_mem := m\<rparr>)
         | (True, m) \<Rightarrow> Inr (Some s, w\<lparr>w_mem := m\<rparr>)))"

text \<open>What the five functions do once their arguments are checked; \<open>err\<close> is the new error field.\<close>

definition reply_text ::
    "World \<Rightarrow> ServerReply \<Rightarrow> nat \<Rightarrow> string \<Rightarrow> int \<Rightarrow> ub + (int \<times> ServerReply option \<times> World)" where
  "reply_text w r k s err =
     res_bind (format_msg w s) (\<lambda>(mp, w).
     case mp of
       None \<Rightarrow> Inr (-1, Some (r\<lparr>r_msg := None\<rparr>), w)
     | Some m \<Rightarrow>
         (let r = r\<lparr>r_msg := Some m, r_error := err\<rparr> in
          res_bind (reply_send w k (Some r)) (\<lambda>(rc, w).
          Inr (0, Some r, w))))"

definition reply_nil ::
    "World \<Rightarrow> ServerReply option \<Rightarrow> Cmd option \<Rightarrow> nat \<Rightarrow> ub + (int \<times> ServerReply option \<times> World)" where
  "reply_nil w rp cmdp k =
     (case rp of
        None \<Rightarrow> Inr (-1, None, w)
      | Some r \<Rightarrow>
          if cmdp = None then Inr (-1, Some r, w)
          else reply_text w r k (''$-1'' @ CRLF) (r_error r))"

definition reply_bulk_str ::
    "World \<Rightarrow> ServerReply option \<Rightarrow> Cmd option \<Rightarrow> nat \<Rightarrow> string option
      \<Rightarrow> ub + (int \<times> ServerReply option \<times> World)" where
  "reply_bulk_str w rp cmdp k datap =
     (case rp of
        None \<Rightarrow> Inr (-1, None, w)
      | Some r \<Rightarrow>
          if cmdp = None then Inr (-1, Some r, w)
          else
            (case datap of
               None \<Rightarrow>
                 res_bind (reply_nil w (Some r) cmdp k) (\<lambda>(rc, rp, w). Inr (0, rp, w))
             | Some data \<Rightarrow>
                 reply_text w r k (''$'' @ show_nat (length data) @ CRLF @ data @ CRLF) 0))"

definition reply_simple_str ::
    "World \<Rightarrow> ServerReply option \<Rightarrow> nat \<Rightarrow> string \<Rightarrow> ub + (int \<times> ServerReply option \<times> World)" where
  "reply_simple_str w rp k m =
     (case rp of
        None \<Rightarrow> Inr (-1, None, w)
      | Some r \<Rightarrow> reply_text w r k (''+'' @ m @ CRLF) 0)"

definition reply_integer ::
    "World \<Rightarrow> ServerReply option \<Rightarrow> nat \<Rightarrow> int \<Rightarrow> ub + (int \<times> ServerReply option \<times> World)" where
  "reply_integer w rp k n =
     (case rp of
        None \<Rightarrow> Inr (-1, None, w)
      | Some r \<Rightarrow> reply_text w r k ('':'' @ show_int n @ CRLF) 0)"

definition reply_ok ::
    "World \<Rightarrow> ServerReply option \<Rightarrow> nat \<Rightarrow> ub + (int \<times> ServerReply option \<times> World)" where
  "reply_ok w rp k =
     res_bind (reply_simple_str w rp k ''OK'') (\<lambda>(rc, rp, w). Inr (0, rp, w))"

definition reply_err ::
    "World \<Rightarrow> ServerReply option \<Rightarrow> nat \<Rightarrow> string \<Rightarrow> ub + (int \<times> ServerReply option \<times> World)" where
  "reply_err w rp k m =
     (case rp of
        None \<Rightarrow> Inr (-1, None, w)
      | Some r \<Rightarrow> reply_text w r k (''-ERR '' @ m @ CRLF) 0)"

section \<open>Reading a reply\<close>

datatype resp = RSimple string | RError string | RInt int | RBulk string | RNil

text \<open>A line: the bytes before the next CR LF, and what follows it.\<close>

fun read_line :: "string \<Rightarrow> (string \<times> string) option" where
  "read_line (c # d # s) =
     (if c = CR \<and> d = LF then Some ([], s)
      else map_option (\<lambda>(l, r). (c # l, r)) (read_line (d # s)))"
| "read_line s = None"

definition resp_decode :: "string \<Rightarrow> (resp \<times> string) option" where
  "resp_decode inp =
     (case inp of
        [] \<Rightarrow> None
      | t # s \<Rightarrow>
          (case read_line s of
             None \<Rightarrow> None
           | Some (l, r) \<Rightarrow>
               if t = CHR ''+'' then Some (RSimple l, r)
               else if t = CHR ''-'' then Some (RError l, r)
               else if t = CHR '':'' then Some (RInt (strtol l), r)
               else if t = CHR ''$'' then
                 (let n = strtol l in
                  if n = -1 then Some (RNil, r)
                  else if 0 \<le> n \<and> nat n + 2 \<le> length r \<and> take 2 (drop (nat n) r) = CRLF
                  then Some (RBulk (take (nat n) r), drop (nat n + 2) r)
                  else None)
               else None))"

lemma read_line_crlf:
  "\<not> has_crlf (l @ [CR]) \<Longrightarrow> read_line (l @ CRLF @ r) = Some (l, r)"
proof (induction l)
  case Nil
  then show ?case by (simp add: CRLF_def)
next
  case (Cons c l)
  show ?case
  proof (cases l)
    case Nil
    with Cons show ?thesis by (auto simp: CRLF_def)
  next
    case (Cons d l')
    with Cons.IH Cons.prems show ?thesis by auto
  qed
qed

lemma no_cr_no_crlf: "CR \<notin> set l \<Longrightarrow> \<not> has_crlf (l @ [CR])"
  by (induction l) (auto simp: has_crlf_Cons)

lemma no_cr_show [simp]: "CR \<notin> set (show_nat n)" "CR \<notin> set (show_int i)"
  using show_nat_digits digit_not_special
  by (auto simp: show_int_def char_consts split: if_splits)

lemma read_line_show [simp]:
  "read_line (show_nat n @ CRLF @ r) = Some (show_nat n, r)"
  "read_line (show_int i @ CRLF @ r) = Some (show_int i, r)"
  by (simp_all add: read_line_crlf no_cr_no_crlf)

lemma strtol_show_nat: "int n \<le> LONG_MAX \<Longrightarrow> strtol (show_nat n) = int n"
  using strtol_show_int [of "int n"] by (simp add: show_int_def LONG_MIN_def)

section \<open>What the reply functions send\<close>

text \<open>With nothing failing, the one effect of a reply is that its bytes go out.\<close>

lemma reply_text_ok:
  assumes "calm w" and "client_of w k = Inr c" and "int (length s) < INT_MAX"
  shows "reply_text w r k s err =
    Inr (0, Some (r\<lparr>r_msg := Some s, r_error := err\<rparr>), emit [Send (sock c) s] w)"
  using assms
  by (simp add: reply_text_def format_msg_def reply_send_def sys_send_calm Let_def)

definition bulk_msg :: "string option \<Rightarrow> string" where
  "bulk_msg v = (case v of None \<Rightarrow> ''$-1'' @ CRLF
     | Some data \<Rightarrow> ''$'' @ show_nat (length data) @ CRLF @ data @ CRLF)"

definition int_msg :: "int \<Rightarrow> string" where "int_msg n = '':'' @ show_int n @ CRLF"
definition ok_msg :: string where "ok_msg = ''+OK'' @ CRLF"
definition err_msg :: "string \<Rightarrow> string" where "err_msg m = ''-ERR '' @ m @ CRLF"

lemmas msg_defs = bulk_msg_def int_msg_def ok_msg_def err_msg_def

lemma reply_fns_ok:
  assumes "calm w" and "client_of w k = Inr c"
  shows "int (length (bulk_msg v)) < INT_MAX \<Longrightarrow> \<exists>r'. reply_bulk_str w (Some r) (Some cmd) k v =
      Inr (0, Some r', emit [Send (sock c) (bulk_msg v)] w)"
    and "int (length (int_msg n)) < INT_MAX \<Longrightarrow> \<exists>r'. reply_integer w (Some r) k n =
      Inr (0, Some r', emit [Send (sock c) (int_msg n)] w)"
    and "\<exists>r'. reply_ok w (Some r) k = Inr (0, Some r', emit [Send (sock c) ok_msg] w)"
    and "int (length (err_msg m)) < INT_MAX \<Longrightarrow> \<exists>r'. reply_err w (Some r) k m =
      Inr (0, Some r', emit [Send (sock c) (err_msg m)] w)"
  using reply_text_ok [OF assms]
  by (auto simp: reply_bulk_str_def reply_nil_def reply_integer_def reply_ok_def INT_MAX_def
      reply_simple_str_def reply_err_def msg_defs CRLF_def split: option.splits)

section \<open>The messages are read back\<close>

lemma resp_decode_int:
  "LONG_MIN \<le> n \<Longrightarrow> n \<le> LONG_MAX \<Longrightarrow> resp_decode (int_msg n @ rest) = Some (RInt n, rest)"
  by (simp add: resp_decode_def int_msg_def strtol_show_int)

lemma resp_decode_bulk:
  assumes "\<And>data. v = Some data \<Longrightarrow> int (length data) \<le> LONG_MAX"
  shows "resp_decode (bulk_msg v @ rest) = Some (case v of None \<Rightarrow> RNil | Some d \<Rightarrow> RBulk d, rest)"
proof (cases v)
  case None
  have "read_line (''-1'' @ CRLF @ rest) = Some (''-1'', rest)"
    by (rule read_line_crlf) (simp add: char_consts)
  moreover have "strtol ''-1'' = -1"
    by (simp add: strtol_def is_space_def is_digit_def digit_val_def LONG_MIN_def LONG_MAX_def)
  ultimately show ?thesis using None by (simp add: resp_decode_def bulk_msg_def)
next
  case (Some d)
  with assms show ?thesis
    by (simp add: resp_decode_def bulk_msg_def strtol_show_nat Let_def) (simp add: CRLF_def)
qed

lemma resp_decode_simple:
  assumes "CR \<notin> set m"
  shows "resp_decode (''+'' @ m @ CRLF @ rest) = Some (RSimple m, rest)"
  using read_line_crlf [OF no_cr_no_crlf [OF assms]] by (simp add: resp_decode_def)

lemma resp_decode_ok: "resp_decode (ok_msg @ rest) = Some (RSimple ''OK'', rest)"
  using resp_decode_simple [of "''OK''" rest] by (simp add: ok_msg_def char_consts)

lemma resp_decode_err:
  assumes "CR \<notin> set m"
  shows "resp_decode (err_msg m @ rest) = Some (RError (''ERR '' @ m), rest)"
proof -
  have "read_line ((''ERR '' @ m) @ CRLF @ rest) = Some (''ERR '' @ m, rest)"
    using assms by (intro read_line_crlf no_cr_no_crlf) (simp add: char_consts)
  then show ?thesis by (simp add: resp_decode_def err_msg_def)
qed

section \<open>Messages fit\<close>

lemma int_msg_short: "INT_MIN \<le> n \<Longrightarrow> n \<le> INT_MAX \<Longrightarrow> int (length (int_msg n)) < INT_MAX"
  using show_int_length [of n] by (simp add: int_msg_def CRLF_def INT_MAX_def INT_MIN_def)

definition short_value :: "string option \<Rightarrow> bool" where
  "short_value v \<longleftrightarrow> (case v of None \<Rightarrow> True | Some d \<Rightarrow> length d < 2 ^ 30)"

lemma bulk_msg_short: "short_value v \<Longrightarrow> int (length (bulk_msg v)) < INT_MAX"
proof (cases v)
  case (Some d)
  assume "short_value v"
  with Some have "length d < 2 ^ 30" by (simp add: short_value_def)
  then show ?thesis
    using show_nat_length [of "length d" 10] Some by (simp add: bulk_msg_def CRLF_def INT_MAX_def)
qed (simp add: bulk_msg_def CRLF_def INT_MAX_def)

section \<open>Properties\<close>

text \<open>
C25. Replies are read back.  With nothing failing, each of the six reply functions returns 0, sends one
message to the client's socket and changes nothing else, and a RESP reader takes from the
stream exactly that message and gets the value: the bulk string (or nil for a null pointer), nil, the
integer, OK, the simple string, the error text.
\<close>
theorem replies_read_back:
  assumes "calm w" and "client_of w k = Inr c" and "short_value v" and "INT_MIN \<le> n" and "n \<le> INT_MAX"
    and "CR \<notin> set m" and "length m < 2 ^ 30"
  shows "(\<exists>r' b. reply_bulk_str w (Some r) (Some cmd) k v = Inr (0, Some r', emit [Send (sock c) b] w) \<and>
      resp_decode (b @ rest) = Some (case v of None \<Rightarrow> RNil | Some d \<Rightarrow> RBulk d, rest)) \<and>
    (\<exists>r' b. reply_nil w (Some r) (Some cmd) k = Inr (0, Some r', emit [Send (sock c) b] w) \<and>
      resp_decode (b @ rest) = Some (RNil, rest)) \<and>
    (\<exists>r' b. reply_integer w (Some r) k n = Inr (0, Some r', emit [Send (sock c) b] w) \<and>
      resp_decode (b @ rest) = Some (RInt n, rest)) \<and>
    (\<exists>r' b. reply_ok w (Some r) k = Inr (0, Some r', emit [Send (sock c) b] w) \<and>
      resp_decode (b @ rest) = Some (RSimple ''OK'', rest)) \<and>
    (\<exists>r' b. reply_simple_str w (Some r) k m = Inr (0, Some r', emit [Send (sock c) b] w) \<and>
      resp_decode (b @ rest) = Some (RSimple m, rest)) \<and>
    (\<exists>r' b. reply_err w (Some r) k m = Inr (0, Some r', emit [Send (sock c) b] w) \<and>
      resp_decode (b @ rest) = Some (RError (''ERR '' @ m), rest))"
proof (intro conjI)
  note fns = reply_fns_ok [OF assms(1,2)]
  have m: "int (length (err_msg m)) < INT_MAX" "int (length (''+'' @ m @ CRLF)) < INT_MAX"
    using assms(7) by (simp_all add: err_msg_def CRLF_def INT_MAX_def)
  have n: "LONG_MIN \<le> n" "n \<le> LONG_MAX"
    using assms(4,5) by (simp_all add: INT_MIN_def INT_MAX_def LONG_MIN_def LONG_MAX_def)
  have v: "int (length data) \<le> LONG_MAX" if "v = Some data" for data
    using assms(3) that by (simp add: short_value_def LONG_MAX_def)
  show "\<exists>r' b. reply_bulk_str w (Some r) (Some cmd) k v = Inr (0, Some r', emit [Send (sock c) b] w) \<and>
      resp_decode (b @ rest) = Some (case v of None \<Rightarrow> RNil | Some d \<Rightarrow> RBulk d, rest)"
    using fns(1) [OF bulk_msg_short [OF assms(3)]] resp_decode_bulk [of v] v by metis
  show "\<exists>r' b. reply_nil w (Some r) (Some cmd) k = Inr (0, Some r', emit [Send (sock c) b] w) \<and>
      resp_decode (b @ rest) = Some (RNil, rest)"
    using reply_text_ok [OF assms(1,2), of "bulk_msg None"] resp_decode_bulk [of None rest]
    by (auto simp: reply_nil_def bulk_msg_def CRLF_def INT_MAX_def)
  show "\<exists>r' b. reply_integer w (Some r) k n = Inr (0, Some r', emit [Send (sock c) b] w) \<and>
      resp_decode (b @ rest) = Some (RInt n, rest)"
    using fns(2) [OF int_msg_short [OF assms(4,5)]] resp_decode_int [OF n] by metis
  show "\<exists>r' b. reply_ok w (Some r) k = Inr (0, Some r', emit [Send (sock c) b] w) \<and>
      resp_decode (b @ rest) = Some (RSimple ''OK'', rest)"
    using fns(3) resp_decode_ok by metis
  show "\<exists>r' b. reply_simple_str w (Some r) k m = Inr (0, Some r', emit [Send (sock c) b] w) \<and>
      resp_decode (b @ rest) = Some (RSimple m, rest)"
    using reply_text_ok [OF assms(1,2) m(2)] resp_decode_simple [OF assms(6), of rest]
    by (auto simp: reply_simple_str_def)
  show "\<exists>r' b. reply_err w (Some r) k m = Inr (0, Some r', emit [Send (sock c) b] w) \<and>
      resp_decode (b @ rest) = Some (RError (''ERR '' @ m), rest)"
    using fns(4) [OF m(1)] resp_decode_err [OF assms(6)] by metis
qed

theorem replies_read_back_witness:
  "(\<exists>r' b. reply_integer sample_world (Some \<lparr>r_msg = None, r_error = 1\<rparr>) 3 (- 5) =
      Inr (0, Some r', emit [Send 0 b] sample_world) \<and> resp_decode (b @ ''+'') = Some (RInt (- 5), ''+'')) \<and>
   (\<exists>r' b. reply_simple_str sample_world (Some \<lparr>r_msg = None, r_error = 1\<rparr>) 3 ''a'' =
      Inr (0, Some r', emit [Send 0 b] sample_world) \<and> resp_decode (b @ ''+'') = Some (RSimple ''a'', ''+''))"
proof -
  have "client_of sample_world 3 = Inr zero_client" "sock zero_client = 0"
    by (simp_all add: client_of_sample MAX_CONN_def zero_client_def)
  moreover have "CR \<notin> set ''a''" by (simp add: char_consts)
  ultimately show ?thesis
    using replies_read_back [OF sample_world_wf(2), of 3 zero_client None "- 5" "''a''" "\<lparr>r_msg = None, r_error = 1\<rparr>" _ "''+''"]
    by (auto simp: short_value_def INT_MIN_def INT_MAX_def)
qed

text \<open>
Failed and partial sends go unnoticed.  When \<open>send\<close> fails nothing reaches the client, when it
takes only \<open>n\<close> bytes the rest of the message is never sent, and in both cases the reply function
returns 0; only a failed allocation of the message makes it return -1, with nothing sent.
\<close>
lemma send_failures_ignored:
  assumes "client_of w k = Inr c" and "int (length s) < INT_MAX"
  shows "(w_mem w = [] \<and> send_res w = None # rs \<longrightarrow>
      (\<exists>r'. reply_text w r k s e = Inr (0, Some r', w\<lparr>send_res := rs\<rparr>))) \<and>
    (w_mem w = [] \<and> send_res w = Some n # rs \<longrightarrow>
      (\<exists>r'. reply_text w r k s e = Inr (0, Some r', emit [Send (sock c) (take n s)] (w\<lparr>send_res := rs\<rparr>)))) \<and>
    (w_mem w = False # m \<longrightarrow> (\<exists>r'. reply_text w r k s e = Inr (-1, Some r', w\<lparr>w_mem := m\<rparr>)))"
  using assms by (auto simp: reply_text_def format_msg_def reply_send_def sys_send_def Let_def)

end
