(* ===== verification/LockDiscipline.thy ===== *)
theory LockDiscipline
  imports ServerState
begin

text \<open>
  The locking discipline of the server: every bucket of every table has a reader-writer lock,
  and the server has one more for its connection counter.  Locks are ordered by database and
  bucket, the order in which \<open>SAVE\<close> and \<open>LOAD\<close> take them, with the lock of the server last.
  \<open>lock_run\<close> follows a thread through the events it causes and fails when it takes a lock that is
  not above all those it holds, touches a bucket without its lock (or writes under a read lock),
  or sends or closes while it still holds a lock.  Threads that pass cannot deadlock on each
  other, since every lock is waited for in one order.
\<close>

section \<open>The order of the locks\<close>

instantiation lock :: linorder
begin

fun less_eq_lock :: "lock \<Rightarrow> lock \<Rightarrow> bool" where
  "less_eq_lock (BucketLock d i) (BucketLock e j) = (d < e \<or> (d = e \<and> i \<le> j))"
| "less_eq_lock (BucketLock d i) ServerLock = True"
| "less_eq_lock ServerLock (BucketLock d i) = False"
| "less_eq_lock ServerLock ServerLock = True"

definition less_lock :: "lock \<Rightarrow> lock \<Rightarrow> bool" where
  "less_lock a b \<longleftrightarrow> a \<le> b \<and> \<not> b \<le> a"

instance
proof
  fix a b c :: lock
  show "a < b \<longleftrightarrow> a \<le> b \<and> \<not> b \<le> a" by (simp add: less_lock_def)
  show "a \<le> a" by (cases a) auto
  show "a \<le> b \<Longrightarrow> b \<le> c \<Longrightarrow> a \<le> c" by (cases a; cases b; cases c) auto
  show "a \<le> b \<Longrightarrow> b \<le> a \<Longrightarrow> a = b" by (cases a; cases b) auto
  show "a \<le> b \<or> b \<le> a" by (cases a; cases b) auto
qed

end

lemma less_lock_simps [simp]:
  "BucketLock d i < BucketLock e j \<longleftrightarrow> d < e \<or> (d = e \<and> i < j)"
  "BucketLock d i < ServerLock" "\<not> ServerLock < l"
  by (auto simp: less_lock_def) (cases l; simp)

section \<open>Following the locks of a thread\<close>

text \<open>The locks held, each with whether it is held for writing.\<close>

type_synonym held = "(lock \<times> bool) list"

fun lock_step :: "event \<Rightarrow> held \<Rightarrow> held option" where
  "lock_step (RdLock l) h = (if \<forall>(l', m) \<in> set h. l' < l then Some ((l, False) # h) else None)"
| "lock_step (WrLock l) h = (if \<forall>(l', m) \<in> set h. l' < l then Some ((l, True) # h) else None)"
| "lock_step (Unlock l) h =
     (if l \<in> fst ` set h then Some (filter (\<lambda>(l', m). l' \<noteq> l) h) else None)"
| "lock_step (ReadBucket d i) h = (if BucketLock d i \<in> fst ` set h then Some h else None)"
| "lock_step (WriteBucket d i) h = (if (BucketLock d i, True) \<in> set h then Some h else None)"
| "lock_step (Send fd m) h = (if h = [] then Some h else None)"
| "lock_step (Close fd) h = (if h = [] then Some h else None)"
| "lock_step (Shutdown fd) h = (if h = [] then Some h else None)"
| "lock_step (Join t) h = (if h = [] then Some h else None)"

fun lock_run :: "event list \<Rightarrow> held \<Rightarrow> held option" where
  "lock_run [] h = Some h"
| "lock_run (e # es) h = (case lock_step e h of None \<Rightarrow> None | Some h \<Rightarrow> lock_run es h)"

definition disciplined :: "event list \<Rightarrow> bool" where
  "disciplined es \<longleftrightarrow> lock_run es [] = Some []"

lemma lock_run_append:
  "lock_run (es @ fs) h = (case lock_run es h of None \<Rightarrow> None | Some h \<Rightarrow> lock_run fs h)"
  by (induction es arbitrary: h) (auto split: option.splits)

lemma disciplined_append: "disciplined es \<Longrightarrow> disciplined fs \<Longrightarrow> disciplined (es @ fs)"
  by (simp add: disciplined_def lock_run_append)

lemma disciplined_Nil [simp]: "disciplined []"
  by (simp add: disciplined_def)

section \<open>Taking every bucket lock\<close>

definition bucket_locks :: "lock list" where
  "bucket_locks = concat (map (\<lambda>d. map (BucketLock d) [0..<NUM_BUCKETS]) [0..<NUM_DBS])"

lemma set_bucket_locks [simp]:
  "set bucket_locks = {BucketLock d i | d i. d < NUM_DBS \<and> i < NUM_BUCKETS}"
  by (auto simp: bucket_locks_def)

lemma sorted_bucket_locks: "sorted_wrt (<) bucket_locks"
proof -
  have "sorted_wrt (<) (concat (map (\<lambda>d. map (BucketLock d) [0..<n]) ds))" if "sorted_wrt (<) ds" for n and ds :: "nat list"
    using that by (induction ds) (auto simp: sorted_wrt_append sorted_wrt_map)
  then show ?thesis by (simp add: bucket_locks_def)
qed

lemma take_locks:
  assumes "sorted_wrt (<) ls" and "\<forall>l \<in> set ls. \<forall>(l', m) \<in> set h. l' < l"
  shows "lock_run (map RdLock ls) h = Some (rev (map (\<lambda>l. (l, False)) ls) @ h)"
    and "lock_run (map WrLock ls) h = Some (rev (map (\<lambda>l. (l, True)) ls) @ h)"
  using assms by (induction ls arbitrary: h) auto

lemma drop_locks:
  assumes "distinct (map fst h)" and "distinct ls" and "set ls \<subseteq> fst ` set h"
  shows "lock_run (map Unlock ls) h = Some (filter (\<lambda>(l, m). l \<notin> set ls) h)"
  using assms
proof (induction ls arbitrary: h)
  case Nil
  then show ?case by (simp add: split_beta)
next
  case (Cons l ls)
  have "set ls \<subseteq> fst ` set (filter (\<lambda>(l', m). l' \<noteq> l) h)"
    using Cons.prems by force
  with Cons show ?case
    by (simp add: distinct_map_filter split_beta)
qed

text \<open>
  What runs between taking all the locks and releasing them again: reads and writes of buckets
  of the sixteen tables.
\<close>

definition bucket_access :: "bool \<Rightarrow> event \<Rightarrow> bool" where
  "bucket_access m e \<longleftrightarrow> (\<exists>d i. d < NUM_DBS \<and> i < NUM_BUCKETS \<and>
     (e = ReadBucket d i \<or> (m \<and> e = WriteBucket d i)))"

lemma accesses_run:
  assumes "\<forall>e \<in> set es. bucket_access m e"
    and "\<And>d i. d < NUM_DBS \<Longrightarrow> i < NUM_BUCKETS \<Longrightarrow> (BucketLock d i, m) \<in> set h"
  shows "lock_run es h = Some h"
  using assms
proof (induction es)
  case (Cons e es)
  then obtain d i where di: "(BucketLock d i, m) \<in> set h" "e = ReadBucket d i \<or> (m \<and> e = WriteBucket d i)"
    by (auto simp: bucket_access_def)
  then have "lock_step e h = Some h" by force
  with Cons show ?case by simp
qed simp

lemma disciplined_all_buckets:
  assumes "\<forall>e \<in> set es. bucket_access m e"
  shows "disciplined (map (if m then WrLock else RdLock) bucket_locks @ es @ map Unlock bucket_locks)"
proof -
  let ?h = "rev (map (\<lambda>l. (l, m)) bucket_locks)"
  have "lock_run (map (if m then WrLock else RdLock) bucket_locks) [] = Some ?h"
    using take_locks [OF sorted_bucket_locks, of "[]"] by simp
  moreover have "lock_run es ?h = Some ?h"
    using assms by (rule accesses_run) auto
  moreover have d: "distinct bucket_locks"
    using sorted_bucket_locks strict_sorted_iff by blast
  have "lock_run (map Unlock bucket_locks) ?h = Some []"
    using d by (subst drop_locks) (auto simp: comp_def rev_map [symmetric] filter_empty_conv image_image)
  ultimately show ?thesis by (simp add: disciplined_def lock_run_append)
qed

end
