(* ===== verification/Rdb.thy ===== *)
theory Rdb
  imports LockDiscipline
begin

text \<open>
  The binary snapshots of \<^verbatim>\<open>serializer.c\<close>: writing the databases to a file and reading them
  back.  A file is its list of bytes, and \<open>fopen\<close> fails as the world says; \<open>fwrite\<close> is taken to
  write what it is given.  Reading follows the code byte by byte: a short read leaves the rest
  of the block as it was, a length of \<open>0xFFFFFFFF\<close> makes the block size wrap to 0, and the
  database that entries go to is unset until the first \<open>SELECTDB\<close>.  The lemmas show that
  loading a saved snapshot restores every database (with the buckets reversed), over whatever
  the loading server already holds.
\<close>

definition RDB_MAGIC :: string where "RDB_MAGIC = ''MINREDIS''"
definition RDB_VERSION :: char where "RDB_VERSION = CHR 0x01"
definition RDB_PATH :: string where "RDB_PATH = ''dump.minredis''"
definition OP_SELECTDB :: char where "OP_SELECTDB = CHR 0xFE"
definition OP_EOF :: char where "OP_EOF = CHR 0xFF"
definition TYPE_STRING :: char where "TYPE_STRING = CHR 0x00"

lemmas rdb_consts = OP_SELECTDB_def OP_EOF_def TYPE_STRING_def

section \<open>Saving\<close>

definition byte_char :: "8 word \<Rightarrow> char" where
  "byte_char b = char_of (unat b)"

definition write_len :: "nat \<Rightarrow> char list" where
  "write_len len =
     (let n = (of_nat len :: 32 word) in
      map byte_char
        [ucast (drop_bit 24 n), ucast (drop_bit 16 n), ucast (drop_bit 8 n), ucast (and n 255)])"

definition entry_bytes :: "string \<times> string \<Rightarrow> char list" where
  "entry_bytes = (\<lambda>(k, v).
     [TYPE_STRING] @ write_len (length k) @ k @ write_len (length v) @ v)"

definition table_bytes :: "nat \<Rightarrow> HashTable \<Rightarrow> char list" where
  "table_bytes curr_db ht =
     (if hash_count (Some ht) = 0 then []
      else [OP_SELECTDB, char_of curr_db] @
           concat (map (\<lambda>b. concat (map (\<lambda>e. entry_bytes (e_key e, e_value e)) b)) (buckets ht)))"

text \<open>The buckets that are read: all of them for the count, again for the entries.\<close>

definition table_reads :: "nat \<Rightarrow> HashTable \<Rightarrow> event list" where
  "table_reads d ht =
     map (ReadBucket d) [0..<NUM_BUCKETS] @
     (if hash_count (Some ht) = 0 then [] else map (ReadBucket d) [0..<NUM_BUCKETS])"

definition rdb_save :: "World \<Rightarrow> string option \<Rightarrow> ub + (int \<times> World)" where
  "rdb_save w pathp =
     (case server w of
        None \<Rightarrow> Inr (-1, w)
      | Some s \<Rightarrow>
          (let path = (case pathp of None \<Rightarrow> RDB_PATH | Some p \<Rightarrow> p) in
           if \<not> writable w path then Inr (-1, w)
           else
             res_bind (map_res (\<lambda>d. table_of w d) [0..<NUM_DBS]) (\<lambda>ts.
             let out = RDB_MAGIC @ [RDB_VERSION] @
                       concat (map (\<lambda>(d, t). table_bytes d t) (enumerate 0 ts)) @ [OP_EOF];
                 reads = concat (map (\<lambda>(d, t). table_reads d t) (enumerate 0 ts))
             in Inr (0, emit (map RdLock bucket_locks @ reads @ map Unlock bucket_locks)
                          (w\<lparr>files := (files w)(path := Some out)\<rparr>)))))"

section \<open>Loading\<close>

definition fread :: "nat \<Rightarrow> char list \<Rightarrow> char list \<times> char list" where
  "fread n inp = (take n inp, drop n inp)"

definition be_len :: "char list \<Rightarrow> 32 word" where
  "be_len buf =
     or (or (or (push_bit 24 (of_char (buf ! 0))) (push_bit 16 (of_char (buf ! 1))))
            (push_bit 8 (of_char (buf ! 2))))
        (of_char (buf ! 3))"

text \<open>
  One length-prefixed string: the block it is read into, with its terminator.  The length is read
  into the four bytes \<open>buf\<close>, which a short read leaves partly as they were.
\<close>

definition load_block :: "mem \<Rightarrow> block \<Rightarrow> char list \<Rightarrow> ub + (block \<times> block \<times> char list \<times> mem)" where
  "load_block m buf inp =
     (case fread 4 inp of
        (got, inp) \<Rightarrow>
          res_bind (block_copy buf 0 got (length got)) (\<lambda>buf.
          res_bind (map_res (block_get buf) [0..<4]) (\<lambda>bytes.
          let len = be_len bytes; size = unat (len + 1) in
          case malloc m of
            (False, m) \<Rightarrow> Inl NullDeref
          | (True, m) \<Rightarrow>
              (case fread (unat len) inp of
                 (got, inp) \<Rightarrow>
                   res_bind (block_copy (fresh_block size) 0 got (length got)) (\<lambda>b.
                   res_bind (block_put b (unat len) NUL) (\<lambda>b.
                   Inr (buf, b, inp, m)))))))"

lemma load_block_shorter: "load_block m buf inp = Inr (buf', b, inp', m') \<Longrightarrow> length inp' \<le> length inp"
  by (cases "malloc m") (auto simp: load_block_def fread_def Let_def res_bind_eq_Inr split: if_splits prod.splits bool.splits)

text \<open>The result of \<open>hash_set\<close> is ignored by the loader.\<close>

definition load_entry :: "World \<Rightarrow> nat option \<Rightarrow> block \<Rightarrow> block \<Rightarrow> ub + World" where
  "load_entry w sel kb vb =
     res_bind (block_cstr kb) (\<lambda>k.
     res_bind (block_cstr vb) (\<lambda>v.
     case sel of
       None \<Rightarrow> Inl Uninit
     | Some d \<Rightarrow>
         res_bind (table_of w d) (\<lambda>t.
         res_bind (hash_set (w_mem w) (Some t) (Some k) (Some v)) (\<lambda>(rc, tp, m).
         Inr (emit [WriteBucket d (hash_fn k)] (put_table d (the tp) (w\<lparr>w_mem := m\<rparr>)))))))"

function load_loop :: "World \<Rightarrow> nat option \<Rightarrow> char list \<Rightarrow> ub + (int \<times> World)" where
  "load_loop w sel inp =
     (case inp of
        [] \<Rightarrow> Inr (-1, w)
      | opcode # inp \<Rightarrow>
          if opcode = OP_EOF then Inr (0, w)
          else if opcode = OP_SELECTDB then
            (case inp of
               [] \<Rightarrow> Inr (-1, w)
             | d # inp \<Rightarrow> load_loop w (Some (of_char d)) inp)
          else if opcode = TYPE_STRING then
            res_bind (load_block (w_mem w) (fresh_block 4) inp) (\<lambda>(buf, kb, inp, m).
            res_bind (load_block m buf inp) (\<lambda>(buf, vb, inp, m).
            res_bind (load_entry (w\<lparr>w_mem := m\<rparr>) sel kb vb) (\<lambda>w.
            load_loop w sel inp)))
          else load_loop w sel inp)"
  by pat_completeness auto
termination
  by (relation "measure (\<lambda>(w, sel, inp). length inp)")
    (auto dest!: load_block_shorter)

declare load_loop.simps [simp del]

definition rdb_load :: "World \<Rightarrow> string option \<Rightarrow> ub + (int \<times> World)" where
  "rdb_load w pathp =
     (case server w of
        None \<Rightarrow> Inr (-1, w)
      | Some s \<Rightarrow>
          (let path = (case pathp of None \<Rightarrow> RDB_PATH | Some p \<Rightarrow> p) in
           case files w path of
             None \<Rightarrow> Inr (-1, w)
           | Some inp \<Rightarrow>
               (case fread 8 inp of
                  (magic, inp) \<Rightarrow>
                    if length magic \<noteq> 8 then Inr (-1, w)
                    else if magic \<noteq> RDB_MAGIC then Inr (-1, w)
                    else
                      (case fread 1 inp of
                         (version, inp) \<Rightarrow>
                           if length version \<noteq> 1 then Inr (-1, w)
                           else load_loop w None inp))))"

lemma load_loop_simps:
  "load_loop w sel [] = Inr (-1, w)"
  "load_loop w sel (OP_EOF # inp) = Inr (0, w)"
  "load_loop w sel [OP_SELECTDB] = Inr (-1, w)"
  "load_loop w sel (OP_SELECTDB # d # inp) = load_loop w (Some (of_char d)) inp"
  "load_loop w sel (TYPE_STRING # inp) =
     res_bind (load_block (w_mem w) (fresh_block 4) inp) (\<lambda>(buf, kb, inp, m).
     res_bind (load_block m buf inp) (\<lambda>(buf, vb, inp, m).
     res_bind (load_entry (w\<lparr>w_mem := m\<rparr>) sel kb vb) (\<lambda>w.
     load_loop w sel inp)))"
  by (subst load_loop.simps, simp add: rdb_consts)+

section \<open>Reading back what was written\<close>

lemma of_char_byte_char: "(of_char (byte_char b) :: 32 word) = ucast b"
proof -
  have "unat b < 256"
    using unsigned_less [of b] by simp
  then have "(of_char (byte_char b) :: nat) = unat b"
    by (simp add: byte_char_def)
  then have "(word_of_nat (of_char (byte_char b)) :: 32 word) = word_of_nat (unat b)" by simp
  then show ?thesis by (simp only: of_nat_of_char) (simp add: unsigned_ucast_eq)
qed

lemma length_write_len [simp]: "length (write_len n) = 4"
  by (simp add: write_len_def Let_def)

lemma word_bytes:
  fixes m :: "32 word"
  shows "or (or (or (push_bit 24 (ucast (ucast (drop_bit 24 m) :: 8 word)))
      (push_bit 16 (ucast (ucast (drop_bit 16 m) :: 8 word))))
      (push_bit 8 (ucast (ucast (drop_bit 8 m) :: 8 word)))) (ucast (ucast (and m (mask 8)) :: 8 word)) = m" (is "?l = m")
proof (rule bit_word_eqI)
  fix k assume "k < LENGTH(32)"
  then consider "k < 8" | "8 \<le> k" "k < 16" | "16 \<le> k" "k < 24" | "24 \<le> k" "k < 32" by fastforce
  then show "bit ?l k = bit m k"
    by cases (auto simp: bit_simps dest: bit_imp_le_length)
qed
lemma be_len_write_len: "be_len (write_len n) = of_nat n"
proof -
  have "(255 :: 32 word) = mask 8" by (simp add: mask_eq_exp_minus_1)
  then show ?thesis
   using word_bytes [of "word_of_nat n"] by (simp add: be_len_def write_len_def Let_def of_char_byte_char numeral_3_eq_3 numeral_2_eq_2)
qed

definition fits :: "string \<Rightarrow> bool" where
  "fits s \<longleftrightarrow> cstring s \<and> length s < 2 ^ 32 - 1"

lemma map_res_block_get: "map_res (block_get (map Some s @ b)) [0..<length s] = Inr s"
proof -
  have "map_res (block_get (map Some s @ b)) [0..<length s] = Inr (map ((!) s) [0..<length s])"
    by (rule map_res_eq_map) (simp add: block_get_def nth_append)
  then show ?thesis by (simp add: map_nth)
qed

lemma load_block_written:
  assumes "fits s" and "length buf = 4"
  shows "load_block [] buf (write_len (length s) @ s @ rest) =
    Inr (map Some (write_len (length s)), map Some s @ [Some NUL], rest, [])"
proof -
  have u: "unat (of_nat n :: 32 word) = n" if "n \<le> Suc (length s)" for n
    using assms that by (simp add: fits_def unat_of_nat take_bit_nat_eq_self)
  have l: "unat (of_nat (length s) :: 32 word) = length s"
      "unat ((of_nat (length s) :: 32 word) + 1) = Suc (length s)"
    using u [of "length s"] u [of "Suc (length s)"] by (simp_all add: add.commute)
  moreover have "fresh_block (Suc (length s)) = replicate (length s) None @ [None]"
    by (simp add: fresh_block_def replicate_append_same)
  moreover have "map_res (block_get (map Some (write_len (length s)))) [0..<4] = Inr (write_len (length s))"
    using map_res_block_get [of "write_len (length s)" "[]"] by simp
  ultimately show ?thesis
    using assms(2) by (simp add: load_block_def fread_def Let_def be_len_write_len block_copy_def block_put_def
        list_update_append del: upt_rec_numeral)
qed

definition put_all :: "HashTable \<Rightarrow> (string \<times> string) list \<Rightarrow> HashTable" where
  "put_all = foldl (\<lambda>t (k, v). ht_put t k v)"

lemma put_all_simps [simp]:
  "put_all t [] = t" "put_all t ((k, v) # kvs) = put_all (ht_put t k v) kvs"
  by (simp_all add: put_all_def)

lemma put_all_store: "fold_res ht_store t kvs = Inr (put_all t kvs)"
  by (induction kvs arbitrary: t) (auto simp: ht_store_put)

definition stored :: "nat \<Rightarrow> (string \<times> string) list \<Rightarrow> World \<Rightarrow> World" where
  "stored d kvs w =
     (case table_of w d of Inl e \<Rightarrow> w
      | Inr t \<Rightarrow> emit (map (\<lambda>(k, v). WriteBucket d (hash_fn k)) kvs) (put_table d (put_all t kvs) w))"

lemma load_entry_written:
  assumes "fits k" "fits v" "table_of w d = Inr t" "w_mem w = []"
  shows "load_entry w (Some d) (map Some k @ [Some NUL]) (map Some v @ [Some NUL]) =
    Inr (stored d [(k, v)] w)"
  using assms by (simp add: load_entry_def fits_def hash_set_put stored_def)

lemma load_entries_written:
  assumes "\<forall>(k, v) \<in> set kvs. fits k \<and> fits v" and "table_of w d = Inr t" and "w_mem w = []"
  shows "load_loop w (Some d) (concat (map entry_bytes kvs) @ rest) = load_loop (stored d kvs w) (Some d) rest"
  using assms
proof (induction kvs arbitrary: w t)
  case Nil
  then show ?case by (simp add: stored_def put_table_id)
next
  case (Cons kv kvs)
  obtain k v where [simp]: "kv = (k, v)" by force
  from Cons.prems have f: "fits k" "fits v" by auto
  have "load_loop w (Some d) (concat (map entry_bytes (kv # kvs)) @ rest) =
      load_loop (stored d [(k, v)] w) (Some d) (concat (map entry_bytes kvs) @ rest)"
    using Cons.prems f
    by (simp add: entry_bytes_def load_loop_simps load_block_written load_entry_written)
  also have "\<dots> = load_loop (stored d kvs (stored d [(k, v)] w)) (Some d) rest"
    using Cons.prems by (intro Cons.IH) (auto simp: stored_def table_of_put_table)
  also have "stored d kvs (stored d [(k, v)] w) = stored d (kv # kvs) w"
    using Cons.prems by (simp add: stored_def table_of_put_table)
  finally show ?case .
qed

lemma stored_simps [simp]:
  "w_mem (stored d kvs w) = w_mem w" "send_res (stored d kvs w) = send_res w"
  "close_res (stored d kvs w) = close_res w" "files (stored d kvs w) = files w"
  "writable (stored d kvs w) = writable w" "w_bufs (stored d kvs w) = w_bufs w"
  "client_of (stored d kvs w) = client_of w" "calm (stored d kvs w) = calm w"
  by (auto simp: stored_def split: sum.splits)

lemma stored_Nil [simp]: "stored d [] w = w"
  by (auto simp: stored_def put_table_id split: sum.splits)

lemma table_of_stored:
  "table_of w e = Inr t \<Longrightarrow> table_of (stored d kvs w) e = Inr (if d = e then put_all t kvs else t)"
  by (auto simp: stored_def table_of_put_table split: sum.splits)

text \<open>What \<open>rdb_save\<close> needs of a table for the file to be read back.\<close>

definition saveable :: "HashTable \<Rightarrow> bool" where
  "saveable t \<longleftrightarrow> length (buckets t) = NUM_BUCKETS \<and> length (ht_entries t) < size_mod \<and> (\<forall>(k, v) \<in> set (ht_entries t). fits k \<and> fits v)"

lemma table_bytes_entries:
  assumes "saveable t"
  shows "table_bytes d t = (if ht_entries t = [] then []
    else [OP_SELECTDB, char_of d] @ concat (map entry_bytes (ht_entries t)))"
proof -
  have "concat (map (\<lambda>e. entry_bytes (e_key e, e_value e)) b) = concat (map entry_bytes (pairs b))" for b
    by (simp add: pairs_def comp_def)
  then have "concat (map (\<lambda>b. concat (map (\<lambda>e. entry_bytes (e_key e, e_value e)) b)) bs) =
      concat (map entry_bytes (concat (map pairs bs)))" for bs
    by (induction bs) simp_all
  with assms show ?thesis
    by (simp add: table_bytes_def hash_count_entries saveable_def) (simp add: ht_entries_def)
qed

lemma load_table_written:
  assumes "saveable t" and "table_of w d = Inr u" and "w_mem w = []" and "d < NUM_DBS"
  shows "\<exists>sel'. load_loop w sel (table_bytes d t @ rest) = load_loop (stored d (ht_entries t) w) sel' rest"
proof (cases "ht_entries t = []")
  case True
  with assms show ?thesis by (auto simp: table_bytes_entries)
next
  case False
  have "(of_char (char_of d) :: nat) = d"
    using assms(4) by (simp add: NUM_DBS_def)
  with assms False load_entries_written [of "ht_entries t" w d u rest] show ?thesis
    by (auto simp: table_bytes_entries load_loop_simps saveable_def)
qed

definition restored :: "HashTable list \<Rightarrow> World \<Rightarrow> World" where
  "restored ts w = foldl (\<lambda>w (d, t). stored d (ht_entries t) w) w (enumerate 0 ts)"

lemma load_tables_written:
  assumes "\<forall>t \<in> set ts. saveable t" and "n + length ts \<le> NUM_DBS"
    and "\<forall>d < NUM_DBS. \<exists>u. table_of w d = Inr u" and "w_mem w = []"
  shows "load_loop w sel (concat (map (\<lambda>(d, t). table_bytes d t) (enumerate n ts)) @ [OP_EOF]) =
    Inr (0, foldl (\<lambda>w (d, t). stored d (ht_entries t) w) w (enumerate n ts))"
  using assms
proof (induction ts arbitrary: n w sel)
  case Nil
  then show ?case by (simp add: load_loop_simps)
next
  case (Cons t ts)
  from Cons.prems have "n < NUM_DBS" by simp
  with Cons.prems obtain u where u: "table_of w n = Inr u" by blast
  let ?rest = "concat (map (\<lambda>(d, t). table_bytes d t) (enumerate (Suc n) ts)) @ [OP_EOF]"
  have "\<forall>d < NUM_DBS. \<exists>u. table_of (stored n (ht_entries t) w) d = Inr u"
    using Cons.prems(3) by (metis table_of_stored)
  then have IH: "load_loop (stored n (ht_entries t) w) sel' ?rest = Inr (0,
      foldl (\<lambda>w (d, t). stored d (ht_entries t) w) (stored n (ht_entries t) w) (enumerate (Suc n) ts))"
    for sel' using Cons.prems by (intro Cons.IH) simp_all
  obtain sel' where "load_loop w sel (table_bytes n t @ ?rest) =
      load_loop (stored n (ht_entries t) w) sel' ?rest"
    using load_table_written [of t w n u sel ?rest] Cons.prems u by auto
  with IH show ?case by simp
qed

lemma table_of_foldl_stored:
  assumes "table_of w e = Inr u"
  shows "table_of (foldl (\<lambda>w (d, t). stored d (ht_entries t) w) w (enumerate n ts)) e =
    Inr (if n \<le> e \<and> e < n + length ts then put_all u (ht_entries (ts ! (e - n))) else u)"
  using assms
proof (induction ts arbitrary: n w u)
  case (Cons t ts)
  show ?case
    using Cons.IH [OF table_of_stored [OF Cons.prems, of n "ht_entries t"], of "Suc n"]
    by (auto simp: nth_Cons' Suc_le_eq)
qed auto

text \<open>The bytes of the file that \<open>rdb_save\<close> writes.\<close>

definition snapshot :: "HashTable list \<Rightarrow> char list" where
  "snapshot ts = RDB_MAGIC @ [RDB_VERSION] @
     concat (map (\<lambda>(d, t). table_bytes d t) (enumerate 0 ts)) @ [OP_EOF]"

definition db_tables :: "World \<Rightarrow> HashTable list" where
  "db_tables w = (case server w of None \<Rightarrow> [] | Some s \<Rightarrow> tables s)"

lemma db_tables_wf:
  assumes "world_wf w"
  shows "length (db_tables w) = NUM_DBS" "t \<in> set (db_tables w) \<Longrightarrow> ht_wf t"
    "d < NUM_DBS \<Longrightarrow> table_of w d = Inr (db_tables w ! d)"
    "d < NUM_DBS \<Longrightarrow> db_map w d = ht_lookup (db_tables w ! d)"
  using assms by (auto simp: world_wf_def server_wf_def db_tables_def table_of_def db_map_def)

definition snapshot_reads :: "HashTable list \<Rightarrow> event list" where
  "snapshot_reads ts = concat (map (\<lambda>(d, t). table_reads d t) (enumerate 0 ts))"

lemma set_snapshot_reads:
  "e \<in> set (snapshot_reads ts) \<Longrightarrow> \<exists>d i. e = ReadBucket d i \<and> d < length ts \<and> i < NUM_BUCKETS"
  by (auto simp: snapshot_reads_def table_reads_def in_set_enumerate_eq split: if_splits)

lemma rdb_save_snapshot:
  assumes "world_wf w" and "writable w (case pathp of None \<Rightarrow> RDB_PATH | Some p \<Rightarrow> p)"
  shows "rdb_save w pathp =
    Inr (0, emit (map RdLock bucket_locks @ snapshot_reads (db_tables w) @ map Unlock bucket_locks)
      (w\<lparr>files := (files w)
          ((case pathp of None \<Rightarrow> RDB_PATH | Some p \<Rightarrow> p) \<mapsto> snapshot (db_tables w))\<rparr>))"
proof -
  have "map_res (\<lambda>d. table_of w d) [0..<NUM_DBS] = Inr (map ((!) (db_tables w)) [0..<NUM_DBS])"
    using db_tables_wf(3) [OF assms(1)] by (intro map_res_eq_map) simp
  also have "map ((!) (db_tables w)) [0..<NUM_DBS] = db_tables w"
    using db_tables_wf(1) [OF assms(1)] by (metis map_nth)
  finally have "map_res (\<lambda>d. table_of w d) [0..<NUM_DBS] = Inr (db_tables w)" .
  with assms show ?thesis
    by (auto simp: rdb_save_def world_wf_def snapshot_def snapshot_reads_def Let_def)
qed

lemma rdb_load_snapshot:
  assumes "world_wf w" and "w_mem w = []" and "\<forall>t \<in> set ts. saveable t" and "length ts = NUM_DBS"
    and "files w (case pathp of None \<Rightarrow> RDB_PATH | Some p \<Rightarrow> p) = Some (snapshot ts)"
  shows "rdb_load w pathp = Inr (0, restored ts w)"
proof -
  have "load_loop w None (concat (map (\<lambda>(d, t). table_bytes d t) (enumerate 0 ts)) @ [OP_EOF]) =
      Inr (0, restored ts w)"
    using load_tables_written [of ts 0 w None] assms db_tables_wf(3) [OF assms(1)]
    by (simp add: restored_def)
  with assms(1,5) show ?thesis
    by (auto simp: rdb_load_def world_wf_def snapshot_def fread_def RDB_MAGIC_def)
qed

lemma table_of_restored:
  "table_of w d = Inr u \<Longrightarrow> d < length ts \<Longrightarrow>
   table_of (restored ts w) d = Inr (put_all u (ht_entries (ts ! d)))"
  using table_of_foldl_stored [of w d u 0 ts] by (simp add: restored_def)

lemma put_all_wf [wf_intros]:
  "ht_wf t \<Longrightarrow> \<forall>(k, v) \<in> set kvs. kv_ok k v \<Longrightarrow> ht_wf (put_all t kvs)"
  by (induction kvs arbitrary: t) (auto simp: ht_wf_put)

lemma lookup_put_all_entries:
  "ht_wf t \<Longrightarrow> ht_wf u \<Longrightarrow> ht_lookup (put_all u (ht_entries t)) = ht_lookup u ++ ht_lookup t"
  using hs.reload_over [of t u] by (simp add: put_all_store)

lemma put_all_empty: "ht_wf t \<Longrightarrow> put_all empty_table (ht_entries t) = \<lparr>buckets = map rev (buckets t)\<rparr>"
  using store_entries [of t] by (simp add: put_all_store)

lemma world_wf_stored [wf_intros]:
  "world_wf w \<Longrightarrow> d < NUM_DBS \<Longrightarrow> \<forall>(k, v) \<in> set kvs. kv_ok k v \<Longrightarrow> world_wf (stored d kvs w)"
  using table_of_wf [of w d] by (auto simp: stored_def intro!: wf_intros)

lemma world_wf_foldl_stored:
  "world_wf w \<Longrightarrow> n + length ts \<le> NUM_DBS \<Longrightarrow> \<forall>t \<in> set ts. ht_wf t \<Longrightarrow>
   world_wf (foldl (\<lambda>w (d, t). stored d (ht_entries t) w) w (enumerate n ts))"
proof (induction ts arbitrary: n w)
  case (Cons t ts)
  have "world_wf (stored n (ht_entries t) w)"
    using Cons.prems by (intro wf_intros) (auto dest: ht_entries_ok)
  with Cons.IH [of _ "Suc n"] Cons.prems show ?case by simp
qed simp

lemma writable_restored [simp]: "writable (restored ts w) = writable w"
proof -
  have "writable (foldl (\<lambda>w (d, t). stored d (ht_entries t) w) w xs) = writable w" for xs
    by (induction xs arbitrary: w) auto
  then show ?thesis by (simp add: restored_def)
qed

lemma world_wf_restored [wf_intros]:
  "world_wf w \<Longrightarrow> length ts = NUM_DBS \<Longrightarrow> \<forall>t \<in> set ts. ht_wf t \<Longrightarrow> world_wf (restored ts w)"
  unfolding restored_def by (rule world_wf_foldl_stored) simp_all

lemma db_map_restored:
  assumes "world_wf w" and "length ts = NUM_DBS" and "\<forall>t \<in> set ts. ht_wf t" and "d < NUM_DBS"
  shows "db_map (restored ts w) d = db_map w d ++ ht_lookup (ts ! d)"
proof -
  obtain u where u: "table_of w d = Inr u" "ht_wf u" "ht_lookup u = db_map w d"
    using table_of_wf [OF assms(1,4)] by blast
  from u(1) assms have "table_of (restored ts w) d = Inr (put_all u (ht_entries (ts ! d)))"
    by (intro table_of_restored) simp_all
  moreover have "world_wf (restored ts w)"
    using assms by (intro wf_intros)
  ultimately have "db_map (restored ts w) d = ht_lookup (put_all u (ht_entries (ts ! d)))"
    using table_of_wf [of "restored ts w" d] assms(4) by auto
  then show ?thesis
    using lookup_put_all_entries [of "ts ! d" u] u assms by simp
qed

section \<open>Loading any file\<close>

lemma db_tables_simps [simp]:
  "db_tables (emit es w) = db_tables w" "db_tables (w\<lparr>w_mem := m\<rparr>) = db_tables w"
  "db_tables (w\<lparr>files := fs\<rparr>) = db_tables w" "db_tables (put_client k c w) = db_tables w"
  "db_tables (add_clients n w) = db_tables w" "length (db_tables (put_table d t w)) = length (db_tables w)"
  by (auto simp: db_tables_def emit_def put_client_def add_clients_def put_table_def split: option.splits)

text \<open>What loading leaves alone, whatever it reads.\<close>

definition load_keeps :: "World \<Rightarrow> World \<Rightarrow> bool" where
  "load_keeps w w' \<longleftrightarrow> (world_wf w \<longrightarrow> world_wf w') \<and> client_of w' = client_of w \<and> conns w' = conns w \<and>
     files w' = files w \<and> w_bufs w' = w_bufs w \<and> w_next w' = w_next w \<and>
     length (db_tables w') = length (db_tables w) \<and> (calm w \<longrightarrow> calm w') \<and> send_res w' = send_res w \<and>
     (\<exists>es. trace w' = trace w @ es \<and> (\<forall>e \<in> set es. \<exists>d i. e = WriteBucket d i \<and>
         (world_wf w \<longrightarrow> d < NUM_DBS) \<and> i < NUM_BUCKETS))"

lemma load_keeps_refl [simp]: "load_keeps w w"
  by (simp add: load_keeps_def)

lemma load_keeps_trans: "load_keeps w u \<Longrightarrow> load_keeps u v \<Longrightarrow> load_keeps w v"
  by (clarsimp simp: load_keeps_def) (metis Un_iff append.assoc set_append)

lemma hash_set_mem: "hash_set [] (Some t) (Some k) (Some v) = Inr (rc, tp, m) \<Longrightarrow> m = []"
  by (simp add: hash_set_put)

lemma load_block_mem: "load_block [] buf inp = Inr (buf', b, inp', m) \<Longrightarrow> m = []"
  by (auto simp: load_block_def fread_def Let_def res_bind_eq_Inr split: if_splits)

lemma load_entry_keeps:
  assumes "load_entry w sel kb vb = Inr w'"
  shows "load_keeps w w'"
proof -
  from assms obtain k v d t rc tp m where h: "block_cstr kb = Inr k" "block_cstr vb = Inr v"
      "table_of w d = Inr t" "hash_set (w_mem w) (Some t) (Some k) (Some v) = Inr (rc, tp, m)"
      "w' = emit [WriteBucket d (hash_fn k)] (put_table d (the tp) (w\<lparr>w_mem := m\<rparr>))"
    by (auto simp: load_entry_def res_bind_eq_Inr split: option.splits)
  have d: "world_wf w \<longrightarrow> d < NUM_DBS"
    using h(3) by (auto simp: table_of_def world_wf_def server_wf_def split: if_splits)
  have "ht_wf t" if "world_wf w"
    using that h(3) by (auto simp: table_of_def world_wf_def server_wf_def split: if_splits)
  moreover have "kv_ok k v"
    using h(1,2) by (simp add: kv_ok_def block_cstr_cstring)
  ultimately have "ht_wf (the tp)" if "world_wf w"
    using that hash_set_cases [of "w_mem w" t k v] h(4) by (auto intro: ht_wf_put)
  moreover have "calm w \<longrightarrow> calm w'"
    using h(4,5) hash_set_mem [of t k v rc tp m] by (auto simp: calm_def)
  ultimately show ?thesis
    using d unfolding load_keeps_def h(5)
    by (intro conjI impI exI [of _ "[WriteBucket d (hash_fn k)]"]) (simp_all add: wf_intros)
qed

lemma load_loop_keeps: "load_loop w sel inp = Inr (rc, w') \<Longrightarrow> load_keeps w w' \<and> rc \<in> {0, -1}"
proof (induction w sel inp arbitrary: rc w' rule: load_loop.induct)
  case (1 w sel inp)
  show ?case
  proof (cases inp)
    case Nil
    with 1 show ?thesis by (simp add: load_loop.simps)
  next
    case (Cons opc inp1)
    consider "opc = OP_EOF" | "opc \<noteq> OP_EOF" "opc = OP_SELECTDB"
      | "opc \<noteq> OP_EOF" "opc \<noteq> OP_SELECTDB" "opc = TYPE_STRING"
      | "opc \<noteq> OP_EOF" "opc \<noteq> OP_SELECTDB" "opc \<noteq> TYPE_STRING"
      by blast
    then show ?thesis
    proof cases
      case 1
      with "1.prems" Cons show ?thesis by (simp add: load_loop_simps)
    next
      case 2
      show ?thesis
      proof (cases inp1)
        case Nil
        with 2 "1.prems" Cons show ?thesis by (simp add: load_loop_simps)
      next
        case c: (Cons d inp2)
        with 2 "1.prems" Cons "1.IH"(1) [OF Cons _ _ c] show ?thesis by (simp add: load_loop_simps)
      qed
    next
      case 3
      with "1.prems"(1) Cons obtain b1 kb i1 m1 b2 vb i2 m2 w1 where
        h: "load_block (w_mem w) (fresh_block 4) inp1 = Inr (b1, kb, i1, m1)" "load_block m1 b1 i1 = Inr (b2, vb, i2, m2)"
          "load_entry (w\<lparr>w_mem := m2\<rparr>) sel kb vb = Inr w1" "load_loop w1 sel i2 = Inr (rc, w')"
        by (auto simp: load_loop_simps res_bind_eq_Inr)
      have "m1 = [] \<and> m2 = []" if "w_mem w = []"
        using h(1,2) load_block_mem that by metis
      then have "load_keeps w (w\<lparr>w_mem := m2\<rparr>)"
        by (simp add: load_keeps_def calm_def)
      then have "load_keeps w w1"
        using load_entry_keeps [OF h(3)] load_keeps_trans by blast
      with h 3 Cons "1.IH"(2) [OF Cons 3(1,2,3) h(1) _ _ _ h(2) _ _ _ h(3) h(4)] show ?thesis
        using load_keeps_trans by auto
    next
      case 4
      with "1.prems" Cons "1.IH"(3) [OF Cons 4] show ?thesis by (simp add: load_loop.simps [of w])
    qed
  qed
qed

lemma rdb_load_keeps: "rdb_load w p = Inr (rc, w') \<Longrightarrow> load_keeps w w' \<and> rc \<in> {0, -1}"
  using load_loop_keeps by (fastforce simp: rdb_load_def Let_def fread_def split: option.splits if_splits)

lemma saveable_empty: "saveable empty_table"
  by (simp add: saveable_def ht_entries_def empty_table_def size_mod_def NUM_BUCKETS_def)

lemma saveable_sample: "\<forall>t \<in> set (db_tables sample_world). saveable t"
proof -
  have tb: "db_tables sample_world = (replicate NUM_DBS empty_table)[0 := ht_put empty_table ''k'' ''7'']"
    by (simp add: db_tables_def sample_world_def put_table_def zero_server_def)
  have "ht_entries (ht_put empty_table ''k'' ''7'') = [(''k'', ''7'')]"
    by code_simp
  moreover have "length (buckets (ht_put empty_table ''k'' ''7'')) = NUM_BUCKETS"
    by (simp add: ht_put_def empty_table_def Let_def)
  ultimately have sv: "saveable (ht_put empty_table ''k'' ''7'')"
    by (simp add: saveable_def fits_def size_mod_def NUL_def)
  then show ?thesis
    unfolding tb using saveable_empty by (auto dest!: set_update_subset_insert [THEN subsetD])
qed

text \<open>
C8. Snapshots round-trip.  Whatever a well-formed server holds, \<open>SAVE\<close> to a writable path
succeeds and changes no database, and loading the file it wrote into any well-formed server
succeeds and lets every saved pair override that server's pair of the same key, in each of the
sixteen databases.
\<close>
theorem save_load_overrides:
  assumes "world_wf w" and "\<forall>t \<in> set (db_tables w). saveable t" and "writable w path"
    and "world_wf w2" and "w_mem w2 = []"
  shows "\<exists>w1 w3. rdb_save w (Some path) = Inr (0, w1) \<and> db_map w1 = db_map w \<and>
    rdb_load (w2\<lparr>files := (files w2)(path := files w1 path)\<rparr>) (Some path) = Inr (0, w3) \<and>
    world_wf w3 \<and> (\<forall>d < NUM_DBS. db_map w3 d = db_map w2 d ++ db_map w d)"
  using assms db_tables_wf [OF assms(1)]
  by (simp add: rdb_save_snapshot rdb_load_snapshot world_wf_restored db_map_restored)

theorem save_load_overrides_witness:
  "\<exists>w1 w3. rdb_save sample_world (Some ''f'') = Inr (0, w1) \<and>
    rdb_load ((boot_world zero_server)\<lparr>files := Map.empty(''f'' := files w1 ''f'')\<rparr>) (Some ''f'') =
      Inr (0, w3) \<and> db_map w3 0 = [''k'' \<mapsto> ''7'']"
proof -
  have "db_map (boot_world zero_server) 0 = Map.empty"
    by (simp add: db_map_def zero_server_def ht_lookup_empty NUM_DBS_def)
  then show ?thesis
    using save_load_overrides [OF sample_world_wf(1) saveable_sample sample_world_wf(4) boot_world_wf
        [OF server_wf_zero] boot_world_simps(2), of "''f''"]
    by (fastforce simp: db_map_sample NUM_DBS_def boot_world_def)
qed

text \<open>Into empty databases, the tables come back with their buckets reversed.\<close>

definition reversed :: "HashTable \<Rightarrow> HashTable" where
  "reversed t = \<lparr>buckets = map rev (buckets t)\<rparr>"

lemma reversed_twice [simp]: "reversed (reversed t) = t"
  by (simp add: reversed_def comp_def)

lemma table_of_restored_empty:
  assumes "\<forall>t \<in> set ts. ht_wf t" and "table_of w d = Inr empty_table" and "d < length ts"
  shows "table_of (restored ts w) d = Inr (reversed (ts ! d))"
  using assms by (simp add: table_of_restored put_all_empty reversed_def)

lemma saveable_reversed: "saveable t \<Longrightarrow> saveable (reversed t)"
proof -
  have e: "pairs (rev b) = rev (pairs b)" for b by (simp add: pairs_def rev_map)
  have "length (ht_entries (reversed t)) = length (ht_entries t) \<and> set (ht_entries (reversed t)) = set (ht_entries t)"
    by (auto simp: ht_entries_def reversed_def length_concat comp_def e)
  then show "saveable t \<Longrightarrow> saveable (reversed t)" by (simp add: saveable_def reversed_def)
qed

text \<open>One round: a snapshot saved by one server and loaded by another with empty databases.\<close>

lemma reload_round:
  assumes "world_wf w" and "\<forall>t \<in> set (db_tables w). saveable t" and "writable w path"
    and "world_wf w2" and "w_mem w2 = []" and "\<forall>d < NUM_DBS. table_of w2 d = Inr empty_table"
  obtains w1 w3 where "rdb_save w (Some path) = Inr (0, w1)"
    "rdb_load (w2\<lparr>files := (files w2)(path := files w1 path)\<rparr>) (Some path) = Inr (0, w3)"
    "world_wf w3" "writable w3 = writable w2" "db_tables w3 = map reversed (db_tables w)"
proof -
  let ?u = "w2\<lparr>files := (files w2)(path \<mapsto> snapshot (db_tables w))\<rparr>"
  note wf = db_tables_wf [OF assms(1)]
  have w3: "world_wf (restored (db_tables w) ?u)" using assms(4) wf(1,2) by (intro world_wf_restored) auto
  have "db_tables (restored (db_tables w) ?u) ! d = reversed (db_tables w ! d)" if "d < NUM_DBS" for d
    using db_tables_wf(3) [OF w3 that] table_of_restored_empty [of "db_tables w" ?u d] assms(6) that wf(1,2) by simp
  then have "db_tables (restored (db_tables w) ?u) = map reversed (db_tables w)"
    using db_tables_wf(1) [OF w3] wf(1) by (intro nth_equalityI) simp_all
  then show thesis
    using that w3 assms wf(1) by (simp add: rdb_save_snapshot rdb_load_snapshot)
qed

text \<open>
C32. Loading a snapshot into empty databases gives the saved tables with every bucket chain
reversed, since each pair is inserted at the head of its chain; the server that loaded it is
well-formed and can save again, and a third server with empty databases that loads this second
snapshot has the very tables, chains in their order, that the first one had.
\<close>
theorem reload_reverses:
  assumes "world_wf w" and "\<forall>t \<in> set (db_tables w). saveable t" and "writable w path"
    and "world_wf w2" and "w_mem w2 = []" and "\<forall>d < NUM_DBS. table_of w2 d = Inr empty_table" and "writable w2 path"
    and "world_wf v2" and "w_mem v2 = []" and "\<forall>d < NUM_DBS. table_of v2 d = Inr empty_table"
  shows "\<exists>w1 w3 w4 w5. rdb_save w (Some path) = Inr (0, w1) \<and>
    rdb_load (w2\<lparr>files := (files w2)(path := files w1 path)\<rparr>) (Some path) = Inr (0, w3) \<and> world_wf w3 \<and>
    (\<forall>d < NUM_DBS. \<exists>t. table_of w d = Inr t \<and> table_of w3 d = Inr (reversed t)) \<and>
    rdb_save w3 (Some path) = Inr (0, w4) \<and>
    rdb_load (v2\<lparr>files := (files v2)(path := files w4 path)\<rparr>) (Some path) = Inr (0, w5) \<and> world_wf w5 \<and>
    (\<forall>d < NUM_DBS. table_of w5 d = table_of w d)"
proof -
  obtain w1 w3 where r: "rdb_save w (Some path) = Inr (0, w1)"
      "rdb_load (w2\<lparr>files := (files w2)(path := files w1 path)\<rparr>) (Some path) = Inr (0, w3)"
      "world_wf w3" "writable w3 = writable w2" "db_tables w3 = map reversed (db_tables w)"
    using reload_round [OF assms(1-6)] .
  have "\<forall>t \<in> set (db_tables w3). saveable t" "writable w3 path"
    using r(4,5) assms(2,7) saveable_reversed by auto
  from reload_round [OF r(3) this assms(8-10)]
  obtain w4 w5 where s: "rdb_save w3 (Some path) = Inr (0, w4)"
      "rdb_load (v2\<lparr>files := (files v2)(path := files w4 path)\<rparr>) (Some path) = Inr (0, w5)"
      "world_wf w5" "db_tables w5 = map reversed (db_tables w3)" .
  have "\<exists>t. table_of w d = Inr t \<and> table_of w3 d = Inr (reversed t)" "table_of w5 d = table_of w d" if "d < NUM_DBS" for d
    using db_tables_wf(1,3) [OF assms(1)] db_tables_wf(3) [OF r(3) that] db_tables_wf(3) [OF s(3) that] r(5) s(4) that by simp_all
  with r(1-3) s(1-3) show ?thesis by blast
qed

theorem reload_reverses_witness:
  "\<exists>w1 w3 w4 w5. rdb_save sample_world (Some ''f'') = Inr (0, w1) \<and>
    rdb_load ((boot_world zero_server)\<lparr>files := Map.empty(''f'' := files w1 ''f'')\<rparr>) (Some ''f'') = Inr (0, w3) \<and>
    table_of w3 0 = Inr (reversed (ht_put empty_table ''k'' ''7'')) \<and> rdb_save w3 (Some ''f'') = Inr (0, w4) \<and>
    rdb_load ((boot_world zero_server)\<lparr>files := Map.empty(''f'' := files w4 ''f'')\<rparr>) (Some ''f'') = Inr (0, w5) \<and>
    table_of w5 0 = Inr (ht_put empty_table ''k'' ''7'')"
proof -
  note b = boot_world_wf [OF server_wf_zero] boot_world_simps(2) table_of_boot
  have "\<forall>d < NUM_DBS. table_of (boot_world zero_server) d = Inr empty_table" "writable (boot_world zero_server) ''f''"
    "files (boot_world zero_server) = Map.empty" "0 < NUM_DBS"
    using b(3) by (simp_all add: boot_world_def NUM_DBS_def)
  then show ?thesis
    using reload_reverses [OF sample_world_wf(1) saveable_sample sample_world_wf(4) b(1,2) _ _ b(1,2), of "''f''"]
    by (fastforce simp: table_of_sample)
qed

text \<open>
No file breaks the tables.  Whatever the bytes of the file and whichever allocations fail,
if loading it returns at all then it returns 0 or -1, the server is well-formed again (every
key in the bucket of its hash, no key twice, all C strings), and no client and no file has
changed.
\<close>
lemma load_keeps_wf:
  assumes "world_wf w" and "rdb_load w p = Inr (rc, w')"
  shows "world_wf w' \<and> client_of w' = client_of w \<and> files w' = files w \<and> rc \<in> {0, -1}"
  using rdb_load_keeps [OF assms(2)] assms(1) by (simp add: load_keeps_def)

definition with_dump :: "char list \<Rightarrow> World \<Rightarrow> World" where
  "with_dump f w = w\<lparr>files := (files w)(RDB_PATH \<mapsto> f)\<rparr>"

lemma with_dump_simps [simp]:
  "world_wf (with_dump f w) = world_wf w" "w_mem (with_dump f w) = w_mem w"
  "table_of (with_dump f w) = table_of w" "files (with_dump f w) RDB_PATH = Some f"
  "server (with_dump f w) = server w"
  by (simp_all add: with_dump_def)

lemma rdb_load_dump:
  assumes "world_wf w"
  shows "rdb_load (with_dump (RDB_MAGIC @ version # f) w) None = load_loop (with_dump (RDB_MAGIC @ version # f) w) None f"
  using assms by (auto simp: rdb_load_def world_wf_def fread_def RDB_MAGIC_def)

lemma load_block_overflow: "load_block [] (fresh_block 4) (replicate 4 (CHR 0xFF) @ f) = Inl OutOfBounds"
proof -
  have "be_len (replicate 4 (CHR 0xFF)) = - 1"
    by (simp add: be_len_def)
  moreover have "map_res (block_get (map Some (replicate 4 (CHR 0xFF)))) [0..<4] = Inr (replicate 4 (CHR 0xFF))"
    using map_res_block_get [of "replicate 4 (CHR 0xFF)" "[]"] by simp
  ultimately show ?thesis
    by (simp add: load_block_def fread_def Let_def fresh_block_def block_copy_def block_put_def
        del: upt_rec_numeral)
qed

text \<open>
C36. What the loader does with a file it should refuse.  The version byte is ignored, and three
malformed files run into undefined behaviour: an entry before any \<open>SELECTDB\<close> uses an
uninitialised database number, a \<open>SELECTDB\<close> of 16 or more goes past the tables, and a length of
\<open>0xFFFFFFFF\<close> allocates 0 bytes and writes after them.
\<close>
theorem load_malformed:
  assumes "world_wf w" and "w_mem w = []" and "fits k" and "fits v" and "16 \<le> (of_char d :: nat)"
  shows "rdb_load (with_dump (RDB_MAGIC @ version # entry_bytes (k, v) @ f) w) None = Inl Uninit \<and>
    rdb_load (with_dump (RDB_MAGIC @ version # [OP_SELECTDB, d] @ entry_bytes (k, v) @ f) w) None = Inl OutOfBounds \<and>
    rdb_load (with_dump (RDB_MAGIC @ version # TYPE_STRING # replicate 4 (CHR 0xFF) @ f) w) None = Inl OutOfBounds"
proof -
  have "cstring k" "cstring v"
    using assms by (simp_all add: fits_def)
  moreover have "table_of w (of_char d) = Inl OutOfBounds"
    using assms by (auto simp: world_wf_def server_wf_def table_of_def NUM_DBS_def)
  ultimately show ?thesis
    using assms by (simp add: rdb_load_dump load_loop_simps entry_bytes_def load_block_written
        load_entry_def load_block_overflow)
qed

theorem load_malformed_witness:
  "rdb_load (with_dump (RDB_MAGIC @ CHR 0x01 # [OP_SELECTDB, CHR 0x10] @ entry_bytes (''k'', ''v''))
    sample_world) None = Inl OutOfBounds"
  using load_malformed [OF sample_world_wf(1,3), of "''k''" "''v''" "CHR 0x10" "CHR 0x01" "[]"]
  by (simp add: fits_def NUL_def)

section \<open>Truncated files\<close>

text \<open>A load that does not report success.\<close>

definition incomplete :: "ub + (int \<times> World) \<Rightarrow> bool" where
  "incomplete r \<longleftrightarrow> (\<forall>w'. r \<noteq> Inr (0, w'))"

lemma incomplete_simps [simp]: "incomplete (Inl u)" "incomplete (Inr (-1, w))"
  by (simp_all add: incomplete_def)

lemma load_block_truncated:
  assumes "fits s" and "n < 4 + length s" and "load_block m buf (take n (write_len (length s) @ s)) = Inr (buf', b, inp, m')"
  shows "inp = []"
proof -
  have "unat (of_nat (length s) :: 32 word) = length s"
    using assms(1) by (simp add: fits_def unat_of_nat take_bit_nat_eq_self)
  moreover have "map_res (block_get (map Some (write_len (length s)) @ b)) [0..<4] = Inr (write_len (length s))" for b
    using map_res_block_get [of "write_len (length s)" b] by simp
  ultimately show ?thesis
    using assms(2,3)
    by (cases "malloc m"; cases "n < 4")
      (auto simp: load_block_def fread_def Let_def be_len_write_len block_copy_def res_bind_eq_Inr
        simp del: upt_rec_numeral split: if_splits prod.splits bool.splits)
qed

lemma load_block_Nil: "load_block m buf [] = Inr (buf', b, inp, m') \<Longrightarrow> inp = []"
  using load_block_shorter [of m buf "[]"] by simp

lemma incomplete_bind:
  "(\<And>x. m = Inr x \<Longrightarrow> incomplete (f x)) \<Longrightarrow> incomplete (res_bind m f)"
  by (cases m) auto

lemma entry_truncated:
  assumes "fits k" and "fits v" and "w_mem w = []" and "n < length (entry_bytes (k, v))"
  shows "incomplete (load_loop w sel (take n (entry_bytes (k, v))))"
proof (cases n)
  case 0
  then show ?thesis by (simp add: load_loop_simps)
next
  case (Suc i)
  let ?k = "write_len (length k) @ k" and ?v = "write_len (length v) @ v"
  have e: "entry_bytes (k, v) = TYPE_STRING # ?k @ ?v"
    by (simp add: entry_bytes_def)
  have rest: "inp = []"
    if "load_block (w_mem w) (fresh_block 4) (take i (?k @ ?v)) = Inr (b1, kb, i1, m1)"
      "load_block m1 b1 i1 = Inr (b2, vb, inp, m2)" for b1 kb i1 m1 b2 vb inp m2
  proof (cases "i < length ?k")
    case True
    then have "take i (?k @ ?v) = take i ?k" by simp
    with that(1) True have "i1 = []"
      using load_block_truncated [OF assms(1), of i] by (simp only: length_append length_write_len)
    with that(2) show ?thesis using load_block_Nil by blast
  next
    case False
    then have "take i (?k @ ?v) = write_len (length k) @ k @ take (i - length ?k) ?v"
      by simp
    with that(1) have "load_block [] (fresh_block 4) (write_len (length k) @ k @ take (i - length ?k) ?v) =
        Inr (b1, kb, i1, m1)" unfolding assms(3) by metis
    then have "i1 = take (i - length ?k) ?v"
      unfolding load_block_written [OF assms(1) length_fresh_block] by blast
    moreover have "i - length ?k < 4 + length v"
      using assms(4) Suc False by (simp add: e)
    ultimately show ?thesis
      using load_block_truncated [OF assms(2)] that(2) by blast
  qed
  have "take n (entry_bytes (k, v)) = TYPE_STRING # take i (?k @ ?v)"
    by (simp only: e Suc take_Suc_Cons append_assoc)
  then show ?thesis
    by (auto simp: load_loop_simps(5) intro!: incomplete_bind simp del: take_append append_assoc)
      (metis rest load_loop_simps(1) incomplete_simps(2))
qed

lemma entries_truncated:
  assumes "\<forall>(k, v) \<in> set kvs. fits k \<and> fits v" and "table_of w d = Inr t" and "w_mem w = []"
  shows "incomplete (load_loop w (Some d) (take n (concat (map entry_bytes kvs))))"
  using assms
proof (induction kvs arbitrary: w t n)
  case Nil
  then show ?case by (simp add: load_loop_simps)
next
  case (Cons kv kvs)
  obtain k v where [simp]: "kv = (k, v)" by force
  show ?case
  proof (cases "n < length (entry_bytes (k, v))")
    case True
    then show ?thesis using entry_truncated Cons.prems by simp
  next
    case False
    have "incomplete (load_loop (stored d [(k, v)] w) (Some d)
        (take (n - length (entry_bytes (k, v))) (concat (map entry_bytes kvs))))"
      using Cons.prems by (intro Cons.IH [OF _ table_of_stored]) auto
    then show ?thesis
      using load_entries_written [of "[(k, v)]" w d t] Cons.prems False by simp
  qed
qed

lemma table_truncated:
  assumes "saveable t" and "table_of w d = Inr u" and "w_mem w = []" and "d < NUM_DBS"
  shows "incomplete (load_loop w sel (take n (table_bytes d t)))"
proof -
  have "(of_char (char_of d) :: nat) = d"
    using assms(4) by (simp add: NUM_DBS_def)
  with assms entries_truncated [of "ht_entries t" w d u] have h:
      "ht_entries t \<noteq> [] \<Longrightarrow> incomplete (load_loop w sel (take (Suc (Suc j)) (table_bytes d t)))" for j
    by (simp add: table_bytes_entries load_loop_simps saveable_def)
  consider "n = 0 \<or> ht_entries t = []" | "n = 1" "ht_entries t \<noteq> []" | j where "n = Suc (Suc j)" "ht_entries t \<noteq> []"
    by (metis One_nat_def not0_implies_Suc)
  then show ?thesis
    by cases (use assms h in \<open>auto simp: table_bytes_entries load_loop_simps\<close>)
qed

lemma tables_truncated:
  assumes "\<forall>t \<in> set ts. saveable t" and "n + length ts \<le> NUM_DBS"
    and "\<forall>d < NUM_DBS. \<exists>u. table_of w d = Inr u" and "w_mem w = []"
  shows "incomplete (load_loop w sel (take j (concat (map (\<lambda>(d, t). table_bytes d t) (enumerate n ts)))))"
  using assms
proof (induction ts arbitrary: n w sel j)
  case Nil
  then show ?case by (simp add: load_loop_simps)
next
  case (Cons t ts)
  from Cons.prems have "n < NUM_DBS" by simp
  with Cons.prems obtain u where u: "table_of w n = Inr u" by blast
  let ?rest = "concat (map (\<lambda>(d, t). table_bytes d t) (enumerate (Suc n) ts))"
  show ?case
  proof (cases "j \<le> length (table_bytes n t)")
    case True
    then show ?thesis using table_truncated [of t w n u] u Cons.prems by simp
  next
    case False
    have "\<forall>d < NUM_DBS. \<exists>u. table_of (stored n (ht_entries t) w) d = Inr u"
      using Cons.prems(3) by (metis table_of_stored)
    then have IH: "incomplete (load_loop (stored n (ht_entries t) w) sel' (take i ?rest))" for sel' i
      using Cons.prems by (intro Cons.IH) simp_all
    let ?i = "j - length (table_bytes n t)"
    obtain sel' where "load_loop w sel (table_bytes n t @ take ?i ?rest) =
        load_loop (stored n (ht_entries t) w) sel' (take ?i ?rest)"
      using load_table_written [of t w n u sel "take ?i ?rest"] Cons.prems u by auto
    with IH [of sel' ?i] False show ?thesis by simp
  qed
qed

lemma load_truncated:
  assumes "world_wf w" and "w_mem w = []" and "\<forall>t \<in> set ts. saveable t" and "length ts = NUM_DBS"
    and "n < length (snapshot ts)" and "files w path = Some (take n (snapshot ts))"
  shows "incomplete (rdb_load w (Some path))"
proof (cases "n < 9")
  case True
  with assms(1,6) show ?thesis
    by (auto simp: rdb_load_def world_wf_def fread_def)
next
  case False
  let ?body = "concat (map (\<lambda>(d, t). table_bytes d t) (enumerate 0 ts))"
  have "take n (snapshot ts) = RDB_MAGIC @ RDB_VERSION # take (n - 9) ?body"
    using False assms(5) by (simp add: snapshot_def RDB_MAGIC_def take_Cons' numeral_eq_Suc)
  then show ?thesis
    using tables_truncated [of ts 0 w None "n - 9"] assms db_tables_wf(3) [OF assms(1)]
    by (auto simp: rdb_load_def world_wf_def fread_def RDB_MAGIC_def)
qed

end
