(* ===== verification/Commands.thy ===== *)
theory Commands
  imports ReplyMsg Rdb
begin

text \<open>
  The command handlers of \<^verbatim>\<open>cmd.c\<close> and their dispatcher.  A handler takes the world, the parsed
  command, the slot of the client and the reply object, and returns the C return value with the
  reply object and the world after it.  The order of the lock operations, of the accesses to the
  table and of the bytes sent is the order of the code, recorded in the trace.
\<close>

type_synonym handled = "ub + (int \<times> ServerReply option \<times> World)"

definition CMD_ERR_MSG_UNKNOWN :: string where "CMD_ERR_MSG_UNKNOWN = ''unknown command''"

text \<open>The message of a wrong number of arguments, with the name of the command in quotes.\<close>

definition wrong_args :: "string \<Rightarrow> string" where
  "wrong_args name =
     ''numero di argomenti per il comando '' @ [CHR 0x22] @ name @ [CHR 0x22] @ '' errati''"

text \<open>The string of a token, the guards that every handler opens with, and \<open>return 0\<close>.\<close>

definition tok_str :: "World \<Rightarrow> Cmd \<Rightarrow> nat \<Rightarrow> ub + string" where
  "tok_str w cmd i = res_bind (tok_at (tokens cmd) i) (read_tok (w_bufs w))"

definition with_client ::
    "World \<Rightarrow> nat \<Rightarrow> ServerReply option \<Rightarrow> (Client \<Rightarrow> handled) \<Rightarrow> handled" where
  "with_client w k rp f =
     (case server w of
        None \<Rightarrow> Inr (-1, rp, w)
      | Some s \<Rightarrow>
          res_bind (client_of w k) (\<lambda>c. if sock c = -1 then Inr (-1, rp, w) else f c))"

definition return_0 :: "handled \<Rightarrow> handled" where
  "return_0 h = res_bind h (\<lambda>(rc, rp, w). Inr (0, rp, w))"

section \<open>The handlers\<close>

definition cmd_quit :: "World \<Rightarrow> Cmd \<Rightarrow> nat \<Rightarrow> ServerReply option \<Rightarrow> handled" where
  "cmd_quit w cmd k rp = with_client w k rp (\<lambda>c.
     if t_count (tokens cmd) > 1 then return_0 (reply_err w rp k (wrong_args ''QUIT''))
     else
       res_bind (reply_ok w rp k) (\<lambda>(rc, rp, w).
       case sys_close w (sock c) of
         (rc, w) \<Rightarrow>
           if rc = -1 then Inr (-1, rp, w)
           else
             (let w = put_client k (c\<lparr>sock := -1\<rparr>) w;
                  w = emit [WrLock ServerLock] w;
                  w = add_clients (-1) w;
                  w = emit [Unlock ServerLock] w
              in Inr (0, rp, w))))"

definition cmd_incr :: "World \<Rightarrow> Cmd \<Rightarrow> nat \<Rightarrow> ServerReply option \<Rightarrow> handled" where
  "cmd_incr w cmd k rp = with_client w k rp (\<lambda>c.
     if t_count (tokens cmd) \<noteq> 2 then return_0 (reply_err w rp k (wrong_args ''INCR''))
     else
       res_bind (tok_str w cmd 1) (\<lambda>key.
       res_bind (table_of w (db c)) (\<lambda>ht.
       let idx = hash_fn key; l = BucketLock (db c) idx;
           w = emit [WrLock l, ReadBucket (db c) idx] w
       in
       res_bind (hash_get (Some ht) (Some key)) (\<lambda>valp.
       case valp of
         None \<Rightarrow> return_0 (reply_integer (emit [Unlock l] w) rp k 0)
       | Some val \<Rightarrow>
           (let n = atoi val + 1; buf = take 31 (show_int n) in
            res_bind (hash_set (w_mem w) (Some ht) (Some key) (Some buf)) (\<lambda>(rc, htp, m).
            let w = put_table (db c) (the htp) (w\<lparr>w_mem := m\<rparr>);
                w = emit [WriteBucket (db c) idx, Unlock l] w
            in return_0 (reply_integer w rp k (int32 n))))))))"

text \<open>The rebuilt value of \<open>SET\<close>: the third word, then each further word behind a blank.\<close>

definition append_piece :: "StringBuffer option \<times> mem \<Rightarrow> string \<Rightarrow> ub + (StringBuffer option \<times> mem)" where
  "append_piece = (\<lambda>(str, m) s.
     res_bind (strbuf_append m str (Some s) (Some [SPACE])) (\<lambda>(rc, str, m). Inr (str, m)))"

definition set_value :: "World \<Rightarrow> Cmd \<Rightarrow> ub + (StringBuffer option \<times> mem)" where
  "set_value w cmd =
     (let count = t_count (tokens cmd) in
      res_bind (fold_res (\<lambda>len t. res_bind (tok_str w cmd t) (\<lambda>s. Inr (size_add len (length s))))
                 0 [2..<count]) (\<lambda>len.
      res_bind (tok_str w cmd 2) (\<lambda>first.
      res_bind (strbuf_new (w_mem w) (size_add len count) (Some first)) (\<lambda>(str, m).
      fold_res (\<lambda>acc t. res_bind (tok_str w cmd t) (append_piece acc)) (str, m) [3..<count]))))"

definition cmd_set :: "World \<Rightarrow> Cmd \<Rightarrow> nat \<Rightarrow> ServerReply option \<Rightarrow> handled" where
  "cmd_set w cmd k rp = with_client w k rp (\<lambda>c.
     if t_count (tokens cmd) < 3 then return_0 (reply_err w rp k (wrong_args ''SET''))
     else
       res_bind (set_value w cmd) (\<lambda>(strp, m).
       let w = w\<lparr>w_mem := m\<rparr> in
       res_bind (tok_str w cmd 1) (\<lambda>key.
       res_bind (case strp of None \<Rightarrow> Inl NullDeref | Some str \<Rightarrow> block_cstr (sb_buf str)) (\<lambda>value.
       res_bind (table_of w (db c)) (\<lambda>ht.
       let idx = hash_fn key; l = BucketLock (db c) idx; w = emit [WrLock l] w in
       res_bind (hash_set (w_mem w) (Some ht) (Some key) (Some value)) (\<lambda>(rc, htp, m).
       let w = put_table (db c) (the htp) (w\<lparr>w_mem := m\<rparr>);
           w = emit [WriteBucket (db c) idx, Unlock l] w
       in return_0 (reply_ok w rp k)))))))"

text \<open>
  \<open>GET\<close> releases the lock before it uses the pointer that \<open>hash_get\<close> returned: the value, which
  belongs to the entry in the bucket, is read (by \<open>strlen\<close> and \<open>snprintf\<close>) without the lock.
\<close>

definition cmd_get :: "World \<Rightarrow> Cmd \<Rightarrow> nat \<Rightarrow> ServerReply option \<Rightarrow> handled" where
  "cmd_get w cmd k rp = with_client w k rp (\<lambda>c.
     if t_count (tokens cmd) \<noteq> 2 then return_0 (reply_err w rp k (wrong_args ''GET''))
     else
       res_bind (tok_str w cmd 1) (\<lambda>key.
       res_bind (table_of w (db c)) (\<lambda>ht.
       let idx = hash_fn key; l = BucketLock (db c) idx;
           w = emit [RdLock l, ReadBucket (db c) idx, Unlock l] w
       in
       res_bind (hash_get (Some ht) (Some key)) (\<lambda>value.
       let w = (if value = None then w else emit [ReadBucket (db c) idx] w) in
       return_0 (reply_bulk_str w rp (Some cmd) k value)))))"

definition cmd_del :: "World \<Rightarrow> Cmd \<Rightarrow> nat \<Rightarrow> ServerReply option \<Rightarrow> handled" where
  "cmd_del w cmd k rp = with_client w k rp (\<lambda>c.
     if t_count (tokens cmd) \<noteq> 2 then return_0 (reply_err w rp k (wrong_args ''DEL''))
     else
       res_bind (table_of w (db c)) (\<lambda>ht.
       res_bind (tok_str w cmd 1) (\<lambda>key.
       let idx = hash_fn key; l = BucketLock (db c) idx; w = emit [WrLock l] w in
       res_bind (hash_del (Some ht) (Some key)) (\<lambda>(deleted, htp).
       let w = put_table (db c) (the htp) w;
           w = emit [WriteBucket (db c) idx, Unlock l] w
       in
       case deleted of
         None \<Rightarrow> return_0 (reply_integer w rp k 0)
       | Some old \<Rightarrow> return_0 (reply_integer w rp k 1)))))"

definition cmd_select :: "World \<Rightarrow> Cmd \<Rightarrow> nat \<Rightarrow> ServerReply option \<Rightarrow> handled" where
  "cmd_select w cmd k rp = with_client w k rp (\<lambda>c.
     if t_count (tokens cmd) \<noteq> 2 then return_0 (reply_err w rp k (wrong_args ''SELECT''))
     else
       res_bind (tok_str w cmd 1) (\<lambda>arg.
       let sel = atoi arg in
       if sel < 0 \<or> sel > int MAX_DB then
         res_bind (reply_err w rp k (wrong_args ''SELECT'')) (\<lambda>(rc, rp, w).
         case rp of
           None \<Rightarrow> Inl NullDeref
         | Some r \<Rightarrow> Inr (0, Some (r\<lparr>r_error := 1\<rparr>), w))
       else
         return_0 (reply_ok (put_client k (c\<lparr>db := nat sel\<rparr>) w) rp k)))"

definition info_text :: "Server \<Rightarrow> nat \<Rightarrow> nat \<Rightarrow> string" where
  "info_text s sel keys =
     ''# Server'' @ CRLF @ ''port:'' @ show_nat (srv_port s) @ CRLF @
     ''clients:'' @ show_int (clients_count s) @ CRLF @
     ''selected_db:'' @ show_nat sel @ CRLF @ ''keys:'' @ show_nat keys"

definition cmd_info :: "World \<Rightarrow> Cmd \<Rightarrow> nat \<Rightarrow> ServerReply option \<Rightarrow> handled" where
  "cmd_info w cmd k rp = with_client w k rp (\<lambda>c.
     if t_count (tokens cmd) > 1 then return_0 (reply_err w rp k (wrong_args ''INFO''))
     else
       res_bind (table_of w (db c)) (\<lambda>ht.
       let sel = db c; keys = hash_count (Some ht);
           w = emit (map (ReadBucket sel) [0..<NUM_BUCKETS]) w;
           info = info_text (the (server w)) sel keys
       in
       case malloc (w_mem w) of
         (False, m) \<Rightarrow> Inr (-1, rp, w\<lparr>w_mem := m\<rparr>)
       | (True, m) \<Rightarrow> return_0 (reply_bulk_str (w\<lparr>w_mem := m\<rparr>) rp (Some cmd) k (Some info))))"

text \<open>
  The path of \<open>SAVE\<close> and \<open>LOAD\<close> is the second slot of the token array, read whatever the number
  of tokens is: null when no earlier command of this connection had a second word.
\<close>

definition path_arg :: "World \<Rightarrow> Cmd \<Rightarrow> ub + string option" where
  "path_arg w cmd =
     res_bind (tok_at (tokens cmd) 1) (\<lambda>p.
     if p = TNull then Inr None else res_bind (read_tok (w_bufs w) p) (\<lambda>s. Inr (Some s)))"

definition cmd_save :: "Cmd \<Rightarrow> World \<Rightarrow> nat \<Rightarrow> ServerReply option \<Rightarrow> handled" where
  "cmd_save cmd w k rp =
     res_bind (path_arg w cmd) (\<lambda>path.
     res_bind (rdb_save w path) (\<lambda>(rc, w).
     return_0 (reply_ok w rp k)))"

definition cmd_load :: "Cmd \<Rightarrow> World \<Rightarrow> nat \<Rightarrow> ServerReply option \<Rightarrow> handled" where
  "cmd_load cmd w k rp =
     res_bind (path_arg w cmd) (\<lambda>path.
     if server w = None then Inl NullDeref
     else
       res_bind (rdb_load (emit (map WrLock bucket_locks) w) path) (\<lambda>(rc, w).
       return_0 (reply_ok (emit (map Unlock bucket_locks) w) rp k)))"

section \<open>The dispatcher\<close>

definition cmd_dispatch :: "Cmd option \<Rightarrow> World \<Rightarrow> nat \<Rightarrow> ub + (int \<times> World)" where
  "cmd_dispatch cmdp w k =
     (case cmdp of
        None \<Rightarrow> Inr (-1, w)
      | Some cmd \<Rightarrow>
          if ready cmd = 0 then Inr (1, w)
          else
            (case reply_new w of
               (r, w) \<Rightarrow>
                 res_bind
                   (case entry cmd of
                      CMD_GET \<Rightarrow> cmd_get w cmd k r
                    | CMD_SET \<Rightarrow> cmd_set w cmd k r
                    | CMD_DEL \<Rightarrow> cmd_del w cmd k r
                    | CMD_QUIT \<Rightarrow> cmd_quit w cmd k r
                    | CMD_SELECT \<Rightarrow> cmd_select w cmd k r
                    | CMD_SAVE \<Rightarrow> cmd_save cmd w k r
                    | CMD_LOAD \<Rightarrow> cmd_load cmd w k r
                    | CMD_INFO \<Rightarrow> cmd_info w cmd k r
                    | CMD_INCR \<Rightarrow> cmd_incr w cmd k r
                    | CMD_UNKNOWN \<Rightarrow> reply_err w r k CMD_ERR_MSG_UNKNOWN) (\<lambda>(rc, r, w).
                 Inr (0, w))))"

section \<open>A parsed command\<close>

text \<open>The tokens read as the words \<open>ws\<close>, and a connection that is being served.\<close>

definition cmd_holds :: "World \<Rightarrow> Cmd \<Rightarrow> string list \<Rightarrow> bool" where
  "cmd_holds w cmd ws \<longleftrightarrow> ready cmd \<noteq> 0 \<and> entry cmd = command_of ws \<and>
     t_count (tokens cmd) = length ws \<and> (\<forall>i < length ws. tok_str w cmd i = Inr (ws ! i)) \<and>
     (\<forall>s \<in> set ws. cstring s)"

definition serving :: "World \<Rightarrow> nat \<Rightarrow> Client \<Rightarrow> Cmd \<Rightarrow> string list \<Rightarrow> bool" where
  "serving w k c cmd ws \<longleftrightarrow> world_wf w \<and> calm w \<and> k < MAX_CONN \<and> client_of w k = Inr c \<and>
     sock c \<noteq> -1 \<and> cmd_holds w cmd ws"

lemma servingD:
  assumes "serving w k c cmd ws"
  shows "world_wf w" "calm w" "k < MAX_CONN" "client_of w k = Inr c" "sock c \<noteq> -1"
    "ready cmd \<noteq> 0" "entry cmd = command_of ws" "t_count (tokens cmd) = length ws"
    "i < length ws \<Longrightarrow> tok_str w cmd i = Inr (ws ! i)" "s \<in> set ws \<Longrightarrow> cstring s" "db c < NUM_DBS"
    "\<exists>s. server w = Some s" "\<exists>t. table_of w (db c) = Inr t \<and> ht_wf t \<and> ht_lookup t = db_map w (db c)"
proof -
  show "db c < NUM_DBS"
    using assms client_of_wf [of w k] by (auto simp: serving_def client_wf_def)
  then show "\<exists>t. table_of w (db c) = Inr t \<and> ht_wf t \<and> ht_lookup t = db_map w (db c)"
    using assms table_of_wf [of w "db c"] by (auto simp: serving_def)
qed (use assms in \<open>auto simp: serving_def cmd_holds_def world_wf_def\<close>)

lemma tok_str_simps [simp]:
  "tok_str (emit es w) cmd i = tok_str w cmd i" "tok_str (put_table d t w) cmd i = tok_str w cmd i"
  "tok_str (put_client k c w) cmd i = tok_str w cmd i" "tok_str (w\<lparr>w_mem := m\<rparr>) cmd i = tok_str w cmd i"
  by (simp_all add: tok_str_def)

lemma with_client_serving: "serving w k c cmd ws \<Longrightarrow> with_client w k rp f = f c"
  by (auto simp: with_client_def serving_def world_wf_def)

section \<open>The value of \<open>SET\<close>\<close>

definition join_words :: "string list \<Rightarrow> string" where
  "join_words ws = (case ws of [] \<Rightarrow> [] | w # ws \<Rightarrow> foldl (\<lambda>a t. a @ SPACE # t) w ws)"

lemma fold_res_tokens:
  "(\<And>t. t \<in> set ts \<Longrightarrow> g t = Inr (f t)) \<Longrightarrow>
   fold_res (\<lambda>b t. res_bind (g t) (h b)) b ts = fold_res h b (map f ts)"
  by (induction ts arbitrary: b) (auto intro: res_bind_cong)

lemma map_nth_drop: "map ((!) ws) [n..<length ws] = drop n ws"
  by (metis add.left_neutral drop_map drop_upt map_nth)

lemma fold_tokens:
  assumes "serving w k c cmd ws"
  shows "fold_res (\<lambda>b t. res_bind (tok_str w cmd t) (h b)) b [n..<length ws] = fold_res h b (drop n ws)"
proof -
  have "t \<in> set [n..<length ws] \<Longrightarrow> tok_str w cmd t = Inr (ws ! t)" for t
    using servingD(9) [OF assms, of t] by (metis atLeastLessThan_iff set_upt)
  then show ?thesis by (subst fold_res_tokens) (auto simp: map_nth_drop)
qed

lemma total_length:
  "n + sum_list (map length ss) < size_mod \<Longrightarrow>
   fold_res (\<lambda>len s. Inr (size_add len (length s))) n ss = Inr (n + sum_list (map length ss))"
  by (induction ss arbitrary: n) auto

lemma append_words:
  assumes "sb_holds_str sb s" and "\<forall>t \<in> set ts. cstring t"
    and "length s + sum_list (map length ts) + length ts + 1 \<le> sb_cap sb"
  shows "\<exists>sb'. fold_res append_piece (Some sb, m) ts = Inr (Some sb', m) \<and>
    sb_holds_str sb' (foldl (\<lambda>a t. a @ SPACE # t) s ts)"
  using assms
proof (induction ts arbitrary: sb s)
  case (Cons t ts)
  then obtain b1 where "strbuf_append m (Some sb) (Some t) (Some [SPACE]) = Inr (0, Some b1, m)"
      "sb_holds_str b1 (s @ [SPACE] @ t)" "sb_cap b1 = sb_cap sb"
    using strbuf_append_room [of sb s t "[SPACE]" "[SPACE]" m] by (auto simp: cstring_def)
  with Cons.IH [of b1 "s @ SPACE # t"] Cons.prems show ?case by (simp add: append_piece_def)
qed simp

definition words_size :: "string list \<Rightarrow> nat" where
  "words_size ws = sum_list (map length ws) + length ws"

lemma words_size_drop: "words_size (drop n ws) \<le> words_size ws"
  by (metis (no_types, lifting) add_mono append_take_drop_id le_add2 length_append map_append
      sum_list_append words_size_def)

lemma set_value_words:
  assumes s: "serving w k c cmd (name # key # v # vs)" and len: "words_size (name # key # v # vs) < 2 ^ 31"
  shows "\<exists>sb. set_value w cmd = Inr (Some sb, []) \<and>
    block_cstr (sb_buf sb) = Inr (join_words (v # vs))"
proof -
  let ?ws = "name # key # v # vs"
  let ?n = "length v + sum_list (map length vs)"
  obtain sb where sb: "strbuf_new [] (?n + length ?ws) (Some v) = Inr (Some sb, [])"
      "sb_holds_str sb v" "sb_cap sb = ?n + length ?ws"
    using strbuf_new_str [of v "?n + length ?ws"] servingD(10) [OF s] len
    by (auto simp: words_size_def size_mod_def)
  obtain sb' where "fold_res append_piece (Some sb, []) vs = Inr (Some sb', [])"
      "sb_holds_str sb' (join_words (v # vs))"
    using append_words [OF sb(2), of vs "[]"] sb(3) servingD(10) [OF s] by (auto simp: join_words_def)
  moreover have "fold_res (\<lambda>acc t. res_bind (tok_str w cmd t) (append_piece acc)) b [3..<length ?ws]
      = fold_res append_piece b vs" for b
    using fold_tokens [OF s, of append_piece b 3] by (simp del: upt_Suc)
  moreover have "fold_res (\<lambda>len t. res_bind (tok_str w cmd t) (\<lambda>s. Inr (size_add len (length s)))) 0 [2..<length ?ws]
      = Inr ?n"
    using fold_tokens [OF s, of "\<lambda>len s. Inr (size_add len (length s))" 0 2] len total_length [of 0 "v # vs"]
    by (simp add: words_size_def size_mod_def del: upt_Suc)
  ultimately show ?thesis
    using sb s len servingD(2,8) [OF s] servingD(9) [OF s, of 2]
    by (simp add: set_value_def Let_def words_size_def size_mod_def sb_holds_str_cstr del: upt_Suc)
qed

section \<open>What each command does\<close>

abbreviation r_init :: ServerReply where
  "r_init \<equiv> \<lparr>r_msg = None, r_error = 1\<rparr>"

lemma reply_new_calm: "calm w \<Longrightarrow> reply_new w = (Some r_init, w)"
  by (simp add: reply_new_def)

text \<open>A handler that ends with a reply, seen from the dispatcher.\<close>

abbreviation handled_world :: "handled \<Rightarrow> ub + (int \<times> World)" where
  "handled_world h \<equiv> res_bind h (\<lambda>(rc, r, w). Inr (0, w))"

lemma reply_end:
  assumes "calm w" and "client_of w k = Inr c"
  shows "int (length (bulk_msg v)) < INT_MAX \<Longrightarrow> handled_world (return_0 (reply_bulk_str w (Some r) (Some cmd) k v)) =
      Inr (0, emit [Send (sock c) (bulk_msg v)] w)"
    and "int (length (int_msg n)) < INT_MAX \<Longrightarrow> handled_world (return_0 (reply_integer w (Some r) k n)) =
      Inr (0, emit [Send (sock c) (int_msg n)] w)"
    and "handled_world (return_0 (reply_ok w (Some r) k)) = Inr (0, emit [Send (sock c) ok_msg] w)"
    and "int (length (err_msg m)) < INT_MAX \<Longrightarrow> handled_world (return_0 (reply_err w (Some r) k m)) =
      Inr (0, emit [Send (sock c) (err_msg m)] w)"
    and "int (length (err_msg m)) < INT_MAX \<Longrightarrow> handled_world (reply_err w (Some r) k m) =
      Inr (0, emit [Send (sock c) (err_msg m)] w)"
  using reply_fns_ok(1) [OF assms, of v r cmd] reply_fns_ok(2) [OF assms, of n r]
    reply_fns_ok(3) [OF assms, of r] reply_fns_ok(4) [OF assms, of m r]
  by (auto simp: return_0_def)

lemma wrong_args_short: "length name < 2 ^ 30 \<Longrightarrow> int (length (err_msg (wrong_args name))) < INT_MAX"
  by (simp add: err_msg_def wrong_args_def CRLF_def INT_MAX_def)

text \<open>The number of words that each command takes.\<close>

fun args_ok :: "CmdCode \<Rightarrow> nat \<Rightarrow> bool" where
  "args_ok CMD_GET n = (n = 2)"
| "args_ok CMD_SET n = (3 \<le> n)"
| "args_ok CMD_DEL n = (n = 2)"
| "args_ok CMD_QUIT n = (n \<le> 1)"
| "args_ok CMD_SELECT n = (n = 2)"
| "args_ok CMD_INFO n = (n \<le> 1)"
| "args_ok CMD_SAVE n = True"
| "args_ok CMD_LOAD n = True"
| "args_ok CMD_INCR n = (n = 2)"
| "args_ok CMD_UNKNOWN n = True"

fun cmd_name :: "CmdCode \<Rightarrow> string" where
  "cmd_name CMD_GET = ''GET''"
| "cmd_name CMD_SET = ''SET''"
| "cmd_name CMD_DEL = ''DEL''"
| "cmd_name CMD_QUIT = ''QUIT''"
| "cmd_name CMD_SELECT = ''SELECT''"
| "cmd_name CMD_INFO = ''INFO''"
| "cmd_name CMD_SAVE = ''SAVE''"
| "cmd_name CMD_LOAD = ''LOAD''"
| "cmd_name CMD_INCR = ''INCR''"
| "cmd_name CMD_UNKNOWN = ''''"

lemma length_cmd_name: "length (cmd_name e) \<le> 6"
  by (cases e) simp_all

lemmas handler_defs = cmd_get_def cmd_set_def cmd_del_def cmd_quit_def cmd_select_def cmd_info_def
  cmd_incr_def cmd_save_def cmd_load_def

lemma dispatch_serving:
  assumes "serving w k c cmd ws"
  shows "cmd_dispatch (Some cmd) w k = handled_world
    (case command_of ws of
       CMD_GET \<Rightarrow> cmd_get w cmd k (Some r_init) | CMD_SET \<Rightarrow> cmd_set w cmd k (Some r_init)
     | CMD_DEL \<Rightarrow> cmd_del w cmd k (Some r_init) | CMD_QUIT \<Rightarrow> cmd_quit w cmd k (Some r_init)
     | CMD_SELECT \<Rightarrow> cmd_select w cmd k (Some r_init) | CMD_SAVE \<Rightarrow> cmd_save cmd w k (Some r_init)
     | CMD_LOAD \<Rightarrow> cmd_load cmd w k (Some r_init) | CMD_INFO \<Rightarrow> cmd_info w cmd k (Some r_init)
     | CMD_INCR \<Rightarrow> cmd_incr w cmd k (Some r_init)
     | CMD_UNKNOWN \<Rightarrow> reply_err w (Some r_init) k CMD_ERR_MSG_UNKNOWN)"
  using servingD(2,6,7) [OF assms] by (simp add: cmd_dispatch_def reply_new_calm)

lemma dispatch_wrong_args:
  assumes s: "serving w k c cmd ws" and "\<not> args_ok (command_of ws) (length ws)"
  shows "cmd_dispatch (Some cmd) w k =
    Inr (0, emit [Send (sock c) (err_msg (wrong_args (cmd_name (command_of ws))))] w)"
proof -
  have l: "int (length (err_msg (wrong_args (cmd_name (command_of ws))))) < INT_MAX"
    using length_cmd_name [of "command_of ws"] by (intro wrong_args_short) simp
  show ?thesis
    using assms(2) reply_end(4) [OF servingD(2,4) [OF s] l]
    by (cases "command_of ws")
      (simp_all add: dispatch_serving [OF s] servingD(8) [OF s] handler_defs with_client_serving [OF s])
qed

lemma dispatch_unknown:
  assumes s: "serving w k c cmd ws" and "command_of ws = CMD_UNKNOWN"
  shows "cmd_dispatch (Some cmd) w k = Inr (0, emit [Send (sock c) (err_msg CMD_ERR_MSG_UNKNOWN)] w)"
  using assms(2)
  by (simp add: dispatch_serving [OF s] reply_end(5) [OF servingD(2,4) [OF s]] err_msg_def
      CMD_ERR_MSG_UNKNOWN_def CRLF_def INT_MAX_def)

lemma dispatch_get:
  assumes s: "serving w k c cmd [name, key]" and e: "command_of [name, key] = CMD_GET"
    and v: "short_value (db_map w (db c) key)"
  shows "cmd_dispatch (Some cmd) w k =
    Inr (0, emit ([RdLock (BucketLock (db c) (hash_fn key)), ReadBucket (db c) (hash_fn key),
        Unlock (BucketLock (db c) (hash_fn key))] @
        (if db_map w (db c) key = None then [] else [ReadBucket (db c) (hash_fn key)]) @
        [Send (sock c) (bulk_msg (db_map w (db c) key))]) w)"
proof -
  obtain t where t: "table_of w (db c) = Inr t" "ht_lookup t = db_map w (db c)"
    using servingD(13) [OF s] by blast
  then show ?thesis
    using servingD(9) [OF s, of 1] bulk_msg_short [OF v] servingD(2,4) [OF s]
    by (simp add: dispatch_serving [OF s] servingD(8) [OF s] e cmd_get_def with_client_serving [OF s]
        Let_def hash_get_lookup reply_end(1) [of _ k c])
qed

lemma dispatch_set:
  assumes s: "serving w k c cmd (name # key # v # vs)" and e: "command_of (name # key # v # vs) = CMD_SET"
    and len: "words_size (name # key # v # vs) < 2 ^ 30"
  shows "\<exists>t. table_of w (db c) = Inr t \<and> cmd_dispatch (Some cmd) w k =
    Inr (0, emit [WrLock (BucketLock (db c) (hash_fn key)), WriteBucket (db c) (hash_fn key),
        Unlock (BucketLock (db c) (hash_fn key)), Send (sock c) ok_msg]
      (put_table (db c) (ht_put t key (join_words (v # vs))) w))"
proof -
  obtain t where t: "table_of w (db c) = Inr t"
    using servingD(13) [OF s] by blast
  obtain sb where "set_value w cmd = Inr (Some sb, [])" "block_cstr (sb_buf sb) = Inr (join_words (v # vs))"
    using set_value_words [OF s] len by auto
  with t show ?thesis
    using servingD(9) [OF s, of 1] servingD(2,4) [OF s]
    by (simp add: dispatch_serving [OF s] servingD(8) [OF s] e cmd_set_def with_client_serving [OF s]
        Let_def hash_set_put reply_end(3) [of _ k c])
qed

lemma dispatch_del:
  assumes s: "serving w k c cmd [name, key]" and e: "command_of [name, key] = CMD_DEL"
  shows "\<exists>t. table_of w (db c) = Inr t \<and> cmd_dispatch (Some cmd) w k =
    Inr (0, emit [WrLock (BucketLock (db c) (hash_fn key)), WriteBucket (db c) (hash_fn key),
        Unlock (BucketLock (db c) (hash_fn key)),
        Send (sock c) (int_msg (if db_map w (db c) key = None then 0 else 1))]
      (put_table (db c) (ht_remove t key) w))"
proof -
  obtain t where t: "table_of w (db c) = Inr t" "ht_wf t" "ht_lookup t = db_map w (db c)"
    using servingD(13) [OF s] by blast
  have "int (length (int_msg 0)) < INT_MAX" "int (length (int_msg 1)) < INT_MAX"
    by (rule int_msg_short; simp add: INT_MIN_def INT_MAX_def)+
  with t show ?thesis
    using servingD(9) [OF s, of 1] servingD(2,4) [OF s]
    by (cases "db_map w (db c) key")
      (simp_all add: dispatch_serving [OF s] servingD(8) [OF s] e cmd_del_def with_client_serving [OF s]
        Let_def hash_del_remove reply_end(2) [of _ k c])
qed

text \<open>\<open>INCR\<close> of a missing key creates nothing; otherwise the successor is stored and the low 32 bits answered.\<close>

lemma dispatch_incr:
  assumes s: "serving w k c cmd [name, key]" and e: "command_of [name, key] = CMD_INCR"
  shows "\<exists>t. table_of w (db c) = Inr t \<and> cmd_dispatch (Some cmd) w k =
    (case db_map w (db c) key of
       None \<Rightarrow> Inr (0, emit [WrLock (BucketLock (db c) (hash_fn key)), ReadBucket (db c) (hash_fn key),
          Unlock (BucketLock (db c) (hash_fn key)), Send (sock c) (int_msg 0)] w)
     | Some v \<Rightarrow> Inr (0, emit [WrLock (BucketLock (db c) (hash_fn key)), ReadBucket (db c) (hash_fn key),
          WriteBucket (db c) (hash_fn key), Unlock (BucketLock (db c) (hash_fn key)),
          Send (sock c) (int_msg (int32 (atoi v + 1)))]
          (put_table (db c) (ht_put t key (show_int (atoi v + 1))) w)))"
proof -
  obtain t where t: "table_of w (db c) = Inr t" "ht_wf t" "ht_lookup t = db_map w (db c)"
    using servingD(13) [OF s] by blast
  have "int (length (int_msg 0)) < INT_MAX" "int (length (int_msg (int32 n))) < INT_MAX" for n
    by (rule int_msg_short; simp add: INT_MIN_def INT_MAX_def int32_range)
      (rule int_msg_short; simp add: int32_range)
  moreover have "length (show_int (atoi v + 1)) \<le> 11" for v
    using atoi_range [of v] by (intro show_int_length) (simp_all add: INT_MAX_def)
  ultimately show ?thesis using t
    using servingD(9) [OF s, of 1] servingD(2,4) [OF s]
    by (cases "db_map w (db c) key")
      (simp_all add: dispatch_serving [OF s] servingD(8) [OF s] e cmd_incr_def with_client_serving [OF s]
        Let_def hash_get_lookup hash_set_put reply_end(2) [of _ k c] le_trans [of _ 11 31])
qed

lemma dispatch_select:
  assumes s: "serving w k c cmd [name, arg]" and e: "command_of [name, arg] = CMD_SELECT"
  shows "cmd_dispatch (Some cmd) w k =
    (if 0 \<le> atoi arg \<and> atoi arg < int NUM_DBS
     then Inr (0, emit [Send (sock c) ok_msg] (put_client k (c\<lparr>db := nat (atoi arg)\<rparr>) w))
     else Inr (0, emit [Send (sock c) (err_msg (wrong_args ''SELECT''))] w))"
proof -
  have l: "int (length (err_msg (wrong_args ''SELECT''))) < INT_MAX"
    by (rule wrong_args_short) simp
  have "client_of (put_client k c' w) k = Inr c'" for c'
    using servingD(1,3) [OF s] by (auto simp: client_of_def put_client_def world_wf_def server_wf_def)
  moreover have "int MAX_DB = int NUM_DBS - 1"
    by (simp add: MAX_DB_def NUM_DBS_def)
  ultimately show ?thesis
    using servingD(9) [OF s, of 1] servingD(2,4) [OF s] reply_fns_ok(4) [OF servingD(2,4) [OF s] l, of r_init]
    by (auto simp add: dispatch_serving [OF s] servingD(8) [OF s] e cmd_select_def with_client_serving [OF s]
        Let_def reply_end(3) [of _ k "c\<lparr>db := n\<rparr>" for n] l)
qed

lemma dispatch_quit:
  assumes s: "serving w k c cmd [name]" and e: "command_of [name] = CMD_QUIT"
  shows "cmd_dispatch (Some cmd) w k =
    Inr (0, emit [Send (sock c) ok_msg, Close (sock c), WrLock ServerLock, Unlock ServerLock]
      (add_clients (-1) (put_client k (c\<lparr>sock := -1\<rparr>) w)))"
  using reply_fns_ok(3) [OF servingD(2,4) [OF s], of r_init] servingD(2) [OF s]
  by (auto simp: dispatch_serving [OF s] servingD(8) [OF s] e cmd_quit_def with_client_serving [OF s]
      sys_close_calm Let_def)

lemma path_arg_word: "tok_str w cmd 1 = Inr p \<Longrightarrow> path_arg w cmd = Inr (Some p)"
  by (cases "tok_at (tokens cmd) 1") (auto simp: path_arg_def tok_str_def)

lemma path_arg_null: "tok_at (tokens cmd) 1 = Inr TNull \<Longrightarrow> path_arg w cmd = Inr None"
  by (simp add: path_arg_def)

lemma path_arg_dangling:
  "tok_at (tokens cmd) 1 = Inr (TPtr bid off) \<Longrightarrow> w_bufs w bid = None \<Longrightarrow> path_arg w cmd = Inl Dangling"
  by (simp add: path_arg_def)

lemma dispatch_save:
  assumes s: "serving w k c cmd ws" and e: "command_of ws = CMD_SAVE" and p: "path_arg w cmd = Inr pathp"
  shows "cmd_dispatch (Some cmd) w k =
    (let path = (case pathp of None \<Rightarrow> RDB_PATH | Some p \<Rightarrow> p) in
     if writable w path
     then Inr (0, emit (map RdLock bucket_locks @ snapshot_reads (db_tables w) @ map Unlock bucket_locks @
            [Send (sock c) ok_msg]) (w\<lparr>files := (files w)(path \<mapsto> snapshot (db_tables w))\<rparr>))
     else Inr (0, emit [Send (sock c) ok_msg] w))"
proof (cases "writable w (case pathp of None \<Rightarrow> RDB_PATH | Some p \<Rightarrow> p)")
  case True
  then show ?thesis
    using servingD(2,4) [OF s] rdb_save_snapshot [OF servingD(1) [OF s] True]
    by (simp add: dispatch_serving [OF s] e cmd_save_def p reply_end(3) [of _ k c] Let_def)
next
  case False
  then have "rdb_save w pathp = Inr (-1, w)"
    using servingD(12) [OF s] by (auto simp: rdb_save_def)
  with False show ?thesis
    using servingD(2,4) [OF s]
    by (simp add: dispatch_serving [OF s] e cmd_save_def p reply_end(3) [of _ k c] Let_def)
qed

lemma dispatch_load:
  assumes s: "serving w k c cmd ws" and e: "command_of ws = CMD_LOAD" and p: "path_arg w cmd = Inr pathp"
  shows "cmd_dispatch (Some cmd) w k =
    (case rdb_load (emit (map WrLock bucket_locks) w) pathp of
       Inl u \<Rightarrow> Inl u
     | Inr (rc, w') \<Rightarrow> Inr (0, emit (map Unlock bucket_locks @ [Send (sock c) ok_msg]) w'))"
proof -
  have "calm w' \<and> client_of w' k = Inr c"
    if "rdb_load (emit (map WrLock bucket_locks) w) pathp = Inr (rc, w')" for rc w'
    using rdb_load_keeps [OF that] servingD(2,4) [OF s] by (auto simp: load_keeps_def)
  then show ?thesis
    using servingD(12) [OF s]
    by (auto simp: dispatch_serving [OF s] e cmd_load_def p reply_end(3) [of _ k c] split: sum.split)
qed

lemma dispatch_info:
  assumes s: "serving w k c cmd [name]" and e: "command_of [name] = CMD_INFO"
    and srv: "server w = Some srv" and n: "card (dom (db_map w (db c))) < size_mod"
    and len: "short_value (Some (info_text srv (db c) (card (dom (db_map w (db c))))))"
  shows "cmd_dispatch (Some cmd) w k =
    Inr (0, emit (map (ReadBucket (db c)) [0..<NUM_BUCKETS] @
      [Send (sock c) (bulk_msg (Some (info_text srv (db c) (card (dom (db_map w (db c)))))))]) w)"
proof -
  obtain t where t: "table_of w (db c) = Inr t" "ht_wf t" "ht_lookup t = db_map w (db c)"
    using servingD(13) [OF s] by blast
  have "hash_count (Some t) = card (dom (db_map w (db c)))"
    using hash_count_keys [OF t(2)] t(3) n by simp
  then show ?thesis
    using t(1) servingD(2,4) [OF s] bulk_msg_short [OF len]
    by (simp add: dispatch_serving [OF s] servingD(8) [OF s] e cmd_info_def with_client_serving [OF s] srv
        Let_def reply_end(1) [of _ k c])
qed

end
