(* ===== verification/CommandSpec.thy ===== *)
theory CommandSpec
  imports Commands
begin

text \<open>
  What a connection is promised, and that the handlers keep the promise.  The abstract state is
  sixteen finite maps, the selected database and whether the connection is open; \<open>spec_step\<close> maps
  the words of a command to the reply and the next abstract state.  The main lemma shows that
  the dispatcher refines it, command by command, and leaves the other connections, the files and
  the well-formedness of the server alone; further lemmas cover \<open>INFO\<close>, \<open>SAVE\<close> and \<open>LOAD\<close>,
  the locks the handlers take, and what goes wrong when a command has no second word.
\<close>

record Abs =
  a_dbs :: "nat \<Rightarrow> string \<Rightarrow> string option"
  a_sel :: nat
  a_open :: bool

fun resp_encode :: "resp \<Rightarrow> string" where
  "resp_encode (RSimple s) = ''+'' @ s @ CRLF"
| "resp_encode (RError s) = ''-'' @ s @ CRLF"
| "resp_encode (RInt n) = int_msg n"
| "resp_encode (RBulk s) = bulk_msg (Some s)"
| "resp_encode RNil = bulk_msg None"

definition put_key :: "string \<Rightarrow> string option \<Rightarrow> Abs \<Rightarrow> Abs" where
  "put_key k v a = a\<lparr>a_dbs := (a_dbs a)(a_sel a := (a_dbs a (a_sel a))(k := v))\<rparr>"

definition args_error :: "CmdCode \<Rightarrow> resp" where
  "args_error e = RError (''ERR '' @ wrong_args (cmd_name e))"

definition spec_step :: "string list \<Rightarrow> Abs \<Rightarrow> resp \<times> Abs" where
  "spec_step ws a =
     (let e = command_of ws; m = a_dbs a (a_sel a); key = ws ! 1 in
      if \<not> args_ok e (length ws) then (args_error e, a)
      else
        (case e of
           CMD_GET \<Rightarrow> (case m key of None \<Rightarrow> RNil | Some v \<Rightarrow> RBulk v, a)
         | CMD_SET \<Rightarrow> (RSimple ''OK'', put_key key (Some (join_words (drop 2 ws))) a)
         | CMD_DEL \<Rightarrow> (RInt (if m key = None then 0 else 1), put_key key None a)
         | CMD_INCR \<Rightarrow>
             (case m key of
                None \<Rightarrow> (RInt 0, a)
              | Some v \<Rightarrow> (RInt (int32 (atoi v + 1)), put_key key (Some (show_int (atoi v + 1))) a))
         | CMD_SELECT \<Rightarrow>
             (if 0 \<le> atoi key \<and> atoi key < int NUM_DBS
              then (RSimple ''OK'', a\<lparr>a_sel := nat (atoi key)\<rparr>) else (args_error e, a))
         | CMD_QUIT \<Rightarrow> (RSimple ''OK'', a\<lparr>a_open := False\<rparr>)
         | _ \<Rightarrow> (RError (''ERR '' @ CMD_ERR_MSG_UNKNOWN), a)))"

text \<open>The commands that only concern the databases and the connection.\<close>

definition data_command :: "string list \<Rightarrow> bool" where
  "data_command ws \<longleftrightarrow> command_of ws \<notin> {CMD_INFO, CMD_SAVE, CMD_LOAD}"

definition abs_of :: "World \<Rightarrow> Client \<Rightarrow> Abs" where
  "abs_of w c = \<lparr>a_dbs = db_map w, a_sel = db c, a_open = (sock c \<noteq> -1)\<rparr>"

fun sends :: "event list \<Rightarrow> (int \<times> string) list" where
  "sends [] = []"
| "sends (Send fd m # es) = (fd, m) # sends es"
| "sends (_ # es) = sends es"

lemma sends_append [simp]: "sends (es @ fs) = sends es @ sends fs"
  by (induction es rule: sends.induct) auto

definition small_values :: "World \<Rightarrow> bool" where
  "small_values w \<longleftrightarrow> (\<forall>d k. short_value (db_map w d k))"

text \<open>A \<open>GET\<close> that finds its key: the command whose reply is built from memory read without lock.\<close>

definition get_hit :: "World \<Rightarrow> Client \<Rightarrow> string list \<Rightarrow> bool" where
  "get_hit w c ws \<longleftrightarrow> command_of ws = CMD_GET \<and> length ws = 2 \<and> db_map w (db c) (ws ! 1) \<noteq> None"

text \<open>
  What one command leaves: the next abstract state, one reply, the rest untouched; and with
  \<open>d\<close>, that its events obey the locking discipline.
\<close>

definition command_done :: "bool \<Rightarrow> World \<Rightarrow> nat \<Rightarrow> Client \<Rightarrow> resp \<times> Abs \<Rightarrow> World \<Rightarrow> bool" where
  "command_done d w k c ra w' \<longleftrightarrow>
     (\<exists>c' es. client_of w' k = Inr c' \<and> abs_of w' c' = snd ra \<and> sock c' \<in> {sock c, -1} \<and>
        trace w' = trace w @ es \<and> sends es = [(sock c, resp_encode (fst ra))] \<and>
        (d \<longrightarrow> disciplined es)) \<and>
     world_wf w' \<and> calm w' \<and> small_values w' \<and> (\<forall>j. j \<noteq> k \<longrightarrow> client_of w' j = client_of w j) \<and>
     files w' = files w \<and> w_bufs w' = w_bufs w"

lemma command_of_cases:
  assumes "args_ok (command_of ws) (length ws)"
  obtains name key where "ws = [name, key]" "command_of ws \<in> {CMD_GET, CMD_DEL, CMD_INCR, CMD_SELECT}"
  | name key v vs where "ws = name # key # v # vs" "command_of ws = CMD_SET"
  | name where "ws = [name]" "command_of ws \<in> {CMD_QUIT, CMD_INFO}"
  | "command_of ws \<in> {CMD_UNKNOWN, CMD_SAVE, CMD_LOAD}"
proof -
  have two: "length ws = 2 \<Longrightarrow> \<exists>a b. ws = [a, b]" and three: "3 \<le> length ws \<Longrightarrow> \<exists>a b d e. ws = a # b # d # e"
    by (auto simp: numeral_2_eq_2 numeral_3_eq_3 length_Suc_conv Suc_le_length_iff)
  have one: "length ws \<le> 1 \<Longrightarrow> command_of ws \<noteq> CMD_UNKNOWN \<Longrightarrow> \<exists>a. ws = [a]"
    by (cases ws) (auto simp: command_of_def)
  show thesis
    using assms that two three one by (cases "command_of ws") (auto simp del: One_nat_def)
qed

lemma short_set: "words_size (name # key # v # vs) < 2 ^ 30 \<Longrightarrow> short_value (Some (join_words (v # vs)))"
proof -
  have "length (foldl (\<lambda>a t. a @ SPACE # t) x ts) = length x + words_size ts" for x and ts :: "string list"
    by (induction ts arbitrary: x) (simp_all add: words_size_def)
  then show "words_size (name # key # v # vs) < 2 ^ 30 \<Longrightarrow> ?thesis"
    by (simp add: short_value_def join_words_def words_size_def)
qed

lemma short_show: "short_value (Some (show_int (atoi v + 1)))"
proof -
  have "length (show_int (atoi v + 1)) \<le> 11"
    using atoi_range [of v] by (intro show_int_length) (simp_all add: INT_MAX_def)
  then show ?thesis by (simp add: short_value_def)
qed

section \<open>The dispatcher refines the specification\<close>

lemma abs_of_emit [simp]: "abs_of (emit es w) c = abs_of w c"
  by (simp add: abs_of_def)

lemma command_done_reply:
  assumes "serving w k c cmd ws" and "small_values w"
    and "sends es = [(sock c, resp_encode r)]" and "d \<longrightarrow> disciplined es"
  shows "command_done d w k c (r, abs_of w c) (emit es w)"
  using assms servingD(1,2,4) [OF assms(1)] by (simp add: command_done_def small_values_def)

lemma command_done_put:
  assumes s: "serving w k c cmd ws" and "small_values w" and "ht_wf t"
    and "ht_lookup t = (db_map w (db c))(key := v)" and "short_value v"
    and "sends es = [(sock c, resp_encode r)]" and "d \<longrightarrow> disciplined es"
  shows "command_done d w k c (r, put_key key v (abs_of w c)) (emit es (put_table (db c) t w))"
proof -
  have "db_map (put_table (db c) t w) = (db_map w)(db c := (db_map w (db c))(key := v))"
    using db_map_put_table [OF servingD(1,11) [OF s]] assms(4) by simp
  then show ?thesis
    using assms servingD(1,2,4) [OF s]
    by (simp add: command_done_def small_values_def abs_of_def put_key_def wf_intros)
qed

lemma client_of_put_client:
  "world_wf w \<Longrightarrow> k < MAX_CONN \<Longrightarrow> client_of (put_client k c w) j = (if j = k then Inr c else client_of w j)"
  by (auto simp: client_of_def put_client_def world_wf_def server_wf_def)

lemma command_done_client:
  assumes s: "serving w k c cmd ws" and "small_values w" and "db c' < NUM_DBS" and "sock c' \<in> {sock c, -1}"
    and "sends es = [(sock c, resp_encode r)]" and "d \<longrightarrow> disciplined es" and "w' = put_client k c' w \<or> w' = add_clients n (put_client k c' w)"
  shows "command_done d w k c (r, abs_of w c') (emit es w')"
  using assms servingD(1,2,3) [OF s]
  by (auto simp: command_done_def small_values_def abs_of_def client_of_put_client client_wf_def
      intro!: wf_intros)

lemma two_words_refine:
  assumes s: "serving w k c cmd [name, key]" and small: "small_values w"
    and e: "command_of [name, key] \<in> {CMD_GET, CMD_DEL, CMD_INCR, CMD_SELECT}"
  shows "\<exists>w'. cmd_dispatch (Some cmd) w k = Inr (0, w') \<and>
    command_done (\<not> get_hit w c [name, key]) w k c (spec_step [name, key] (abs_of w c)) w'"
proof -
  obtain t where t: "table_of w (db c) = Inr t" "ht_wf t" "ht_lookup t = db_map w (db c)"
    using servingD(13) [OF s] by blast
  have spec: "args_ok (command_of [name, key]) (length [name, key])"
    using e by auto
  from e show ?thesis
  proof (elim insertE emptyE)
    assume e: "command_of [name, key] = CMD_GET"
    have "command_done (db_map w (db c) key = None) w k c
      (case db_map w (db c) key of None \<Rightarrow> RNil | Some v \<Rightarrow> RBulk v, abs_of w c)
      (emit ([RdLock (BucketLock (db c) (hash_fn key)), ReadBucket (db c) (hash_fn key),
        Unlock (BucketLock (db c) (hash_fn key))] @
        (if db_map w (db c) key = None then [] else [ReadBucket (db c) (hash_fn key)]) @
        [Send (sock c) (bulk_msg (db_map w (db c) key))]) w)"
      by (rule command_done_reply [OF s small]) (simp_all add: disciplined_def split: option.split)
    then show ?thesis
      using dispatch_get [OF s e] small e
      by (simp add: spec_step_def small_values_def abs_of_def get_hit_def)
  next
    assume e: "command_of [name, key] = CMD_DEL"
    show ?thesis
      using dispatch_del [OF s e] t small e
      by (auto simp: get_hit_def spec_step_def Let_def abs_of_def [of w c, symmetric] disciplined_def ht_lookup_remove ht_wf_remove
          short_value_def intro!: command_done_put [OF s small]) (auto simp: abs_of_def)
  next
    assume e: "command_of [name, key] = CMD_INCR"
    show ?thesis
    proof (cases "db_map w (db c) key")
      case None
      have "command_done True w k c (RInt 0, abs_of w c)
        (emit [WrLock (BucketLock (db c) (hash_fn key)), ReadBucket (db c) (hash_fn key),
          Unlock (BucketLock (db c) (hash_fn key)), Send (sock c) (int_msg 0)] w)"
        by (rule command_done_reply [OF s small]) (simp_all add: disciplined_def)
      then show ?thesis
        using dispatch_incr [OF s e] None e by (simp add: spec_step_def abs_of_def get_hit_def)
    next
      case (Some v)
      have "command_done True w k c (RInt (int32 (atoi v + 1)), put_key key (Some (show_int (atoi v + 1))) (abs_of w c))
        (emit [WrLock (BucketLock (db c) (hash_fn key)), ReadBucket (db c) (hash_fn key),
          WriteBucket (db c) (hash_fn key), Unlock (BucketLock (db c) (hash_fn key)),
          Send (sock c) (int_msg (int32 (atoi v + 1)))]
          (put_table (db c) (ht_put t key (show_int (atoi v + 1))) w))"
        using t servingD(10) [OF s, of key] by (intro command_done_put [OF s small])
          (simp_all add: disciplined_def ht_lookup_put short_show ht_wf_put kv_ok_def)
      then show ?thesis
        using dispatch_incr [OF s e] Some e t(1) by (simp add: spec_step_def abs_of_def get_hit_def)
    qed
  next
    assume e: "command_of [name, key] = CMD_SELECT"
    show ?thesis
    proof (cases "0 \<le> atoi key \<and> atoi key < int NUM_DBS")
      case True
      have "command_done True w k c (RSimple ''OK'', abs_of w (c\<lparr>db := nat (atoi key)\<rparr>))
        (emit [Send (sock c) ok_msg] (put_client k (c\<lparr>db := nat (atoi key)\<rparr>) w))"
        using True by (intro command_done_client [OF s small]) (auto simp: disciplined_def ok_msg_def)
      then show ?thesis
        using dispatch_select [OF s e] True e by (simp add: spec_step_def abs_of_def get_hit_def)
    next
      case False
      have "command_done True w k c (args_error CMD_SELECT, abs_of w c)
        (emit [Send (sock c) (err_msg (wrong_args ''SELECT''))] w)"
        by (rule command_done_reply [OF s small]) (simp_all add: disciplined_def args_error_def err_msg_def)
      then show ?thesis
        using dispatch_select [OF s e] False e by (auto simp: spec_step_def get_hit_def)
    qed
  qed
qed

lemma cstring_join: "\<forall>t \<in> set ws. cstring t \<Longrightarrow> cstring (join_words ws)"
proof -
  have "cstring (foldl (\<lambda>a t. a @ SPACE # t) x ts)" if "cstring x" "\<forall>t \<in> set ts. cstring t" for x ts
    using that by (induction ts arbitrary: x) auto
  then show "\<forall>t \<in> set ws. cstring t \<Longrightarrow> ?thesis"
    by (cases ws) (simp_all add: join_words_def)
qed

lemma set_refines:
  assumes s: "serving w k c cmd (name # key # v # vs)" and small: "small_values w"
    and e: "command_of (name # key # v # vs) = CMD_SET" and len: "words_size (name # key # v # vs) < 2 ^ 30"
  shows "\<exists>w'. cmd_dispatch (Some cmd) w k = Inr (0, w') \<and>
    command_done (\<not> get_hit w c (name # key # v # vs)) w k c (spec_step (name # key # v # vs) (abs_of w c)) w'"
proof -
  obtain t where t: "table_of w (db c) = Inr t" "ht_wf t" "ht_lookup t = db_map w (db c)"
    using servingD(13) [OF s] by blast
  have "cstring (join_words (v # vs))"
    using servingD(10) [OF s] by (intro cstring_join) simp
  then have "command_done True w k c (RSimple ''OK'', put_key key (Some (join_words (v # vs))) (abs_of w c))
    (emit [WrLock (BucketLock (db c) (hash_fn key)), WriteBucket (db c) (hash_fn key),
        Unlock (BucketLock (db c) (hash_fn key)), Send (sock c) ok_msg]
      (put_table (db c) (ht_put t key (join_words (v # vs))) w))"
    using t servingD(10) [OF s, of key] short_set [OF len] by (intro command_done_put [OF s small])
      (simp_all add: disciplined_def ht_lookup_put ht_wf_put kv_ok_def ok_msg_def)
  then show ?thesis
    using dispatch_set [OF s e len] e t(1) by (simp add: spec_step_def get_hit_def)
qed

lemma quit_refines:
  assumes s: "serving w k c cmd [name]" and small: "small_values w" and e: "command_of [name] = CMD_QUIT"
  shows "\<exists>w'. cmd_dispatch (Some cmd) w k = Inr (0, w') \<and> command_done (\<not> get_hit w c [name]) w k c (spec_step [name] (abs_of w c)) w'"
proof -
  have "command_done True w k c (RSimple ''OK'', abs_of w (c\<lparr>sock := -1\<rparr>))
    (emit [Send (sock c) ok_msg, Close (sock c), WrLock ServerLock, Unlock ServerLock]
      (add_clients (-1) (put_client k (c\<lparr>sock := -1\<rparr>) w)))"
    using servingD(11) [OF s]
    by (intro command_done_client [OF s small]) (auto simp: disciplined_def ok_msg_def)
  then show ?thesis
    using dispatch_quit [OF s e] e by (simp add: spec_step_def abs_of_def get_hit_def)
qed

lemma dispatch_refines_spec:
  assumes s: "serving w k c cmd ws" and small: "small_values w" and data: "data_command ws"
    and len: "words_size ws < 2 ^ 30"
  shows "\<exists>w'. cmd_dispatch (Some cmd) w k = Inr (0, w') \<and> command_done (\<not> get_hit w c ws) w k c (spec_step ws (abs_of w c)) w'"
proof (cases "args_ok (command_of ws) (length ws)")
  case False
  have "command_done True w k c (args_error (command_of ws), abs_of w c)
    (emit [Send (sock c) (err_msg (wrong_args (cmd_name (command_of ws))))] w)"
    by (rule command_done_reply [OF s small]) (simp_all add: disciplined_def args_error_def err_msg_def)
  moreover have "\<not> get_hit w c ws"
    using False by (auto simp: get_hit_def)
  ultimately show ?thesis
    using False dispatch_wrong_args [OF s False] by (simp add: spec_step_def)
next
  case True
  then show ?thesis
  proof (cases rule: command_of_cases)
    case (1 name key)
    with two_words_refine s small show ?thesis by simp
  next
    case (2 name key v vs)
    with set_refines s small len show ?thesis by simp
  next
    case (3 name)
    with quit_refines s small data show ?thesis by (auto simp: data_command_def)
  next
    case 4
    then have u: "command_of ws = CMD_UNKNOWN" using data by (auto simp: data_command_def)
    have "command_done True w k c (RError (''ERR '' @ CMD_ERR_MSG_UNKNOWN), abs_of w c)
      (emit [Send (sock c) (err_msg CMD_ERR_MSG_UNKNOWN)] w)"
      by (rule command_done_reply [OF s small]) (simp_all add: disciplined_def err_msg_def)
    with u dispatch_unknown [OF s u] show ?thesis by (simp add: spec_step_def get_hit_def)
  qed
qed

section \<open>Sample connections\<close>

text \<open>The sample server with a parsed command of one or two words in a live buffer.\<close>

definition sample_in :: "string list \<Rightarrow> World" where
  "sample_in ws = sample_world\<lparr>w_bufs := [0 \<mapsto> concat (map (\<lambda>w. map Some w @ [Some NUL]) ws)]\<rparr>"

definition sample_cmd :: "string list \<Rightarrow> nat list \<Rightarrow> Cmd" where
  "sample_cmd ws offs =
     \<lparr>tokens = \<lparr>t_buf = map (TPtr 0) offs @ replicate (TOKENS_INIT_CAP - length offs) TNull,
               t_count = length ws, t_cap = TOKENS_INIT_CAP\<rparr>,
      entry = command_of ws, ready = 1\<rparr>"

lemma sample_in_simps [simp]:
  "world_wf (sample_in ws)" "calm (sample_in ws)" "db_map (sample_in ws) = db_map sample_world"
  "client_of (sample_in ws) = client_of sample_world" "table_of (sample_in ws) = table_of sample_world"
  "trace (sample_in ws) = []" "writable (sample_in ws) p" "server (sample_in ws) = server sample_world"
  "w_mem (sample_in ws) = []"
  using sample_world_wf by (simp_all add: sample_in_def) (simp_all add: sample_world_def)

lemma sample_small: "small_values (sample_in ws)"
  by (simp add: small_values_def short_value_def db_map_sample)

lemma sample_serving:
  assumes "cstring a" and "cstring b" and "offs = [0, length a + 1]"
  shows "serving (sample_in [a, b]) 3 zero_client (sample_cmd [a, b] offs) [a, b]"
    and "serving (sample_in [a]) 3 zero_client (sample_cmd [a] [0]) [a]"
  using assms
  by (auto simp: serving_def cmd_holds_def client_of_sample MAX_CONN_def zero_client_def sample_cmd_def tok_str_def
      tok_at_def sample_in_def block_cstr_at_def less_Suc_eq TOKENS_INIT_CAP_def sample_world_wf)

lemma serving_variants:
  assumes "serving w k c cmd ws"
  shows "ht_wf t \<Longrightarrow> serving (put_table d t w) k c cmd ws"
    and "serving (w\<lparr>writable := f\<rparr>) k c cmd ws"
  using assms
  by (auto simp: serving_def cmd_holds_def intro: wf_intros)
    (auto simp: world_wf_def calm_def client_of_def tok_str_def)

lemma dispatch_disciplined:
  assumes "serving w k c cmd ws" and "small_values w" and "words_size ws < 2 ^ 30"
    and "command_of ws \<noteq> CMD_INFO" and "\<not> get_hit w c ws" and "cmd_dispatch (Some cmd) w k = Inr (rc, w')"
  shows "\<exists>es. trace w' = trace w @ es \<and> disciplined es"
proof (cases "data_command ws")
  case True
  then show ?thesis
    using dispatch_refines_spec [OF assms(1,2) _ assms(3)] assms(5,6) by (auto simp: command_done_def)
next
  case False
  note s = assms(1)
  from False assms(4) consider "command_of ws = CMD_SAVE" | "command_of ws = CMD_LOAD"
    by (auto simp: data_command_def)
  then show ?thesis
  proof cases
    case 1
    obtain pathp where p: "path_arg w cmd = Inr pathp"
      using assms(6) 1 by (auto simp: dispatch_serving [OF s] cmd_save_def res_bind_eq_Inr)
    have "\<forall>e \<in> set (snapshot_reads (db_tables w)). bucket_access False e"
      using set_snapshot_reads [of _ "db_tables w"] db_tables_wf(1) [OF servingD(1) [OF s]]
      by (fastforce simp: bucket_access_def)
    from disciplined_append [OF disciplined_all_buckets [OF this], of "[Send (sock c) ok_msg]"]
    have "disciplined (map RdLock bucket_locks @ snapshot_reads (db_tables w) @ map Unlock bucket_locks @
        [Send (sock c) ok_msg])" by (simp add: disciplined_def)
    then show ?thesis
      using dispatch_save [OF s 1 p] assms(6) by (auto simp: Let_def disciplined_def split: if_splits)
  next
    case 2
    obtain pathp where p: "path_arg w cmd = Inr pathp"
      using assms(6) 2 by (auto simp: dispatch_serving [OF s] cmd_load_def res_bind_eq_Inr)
    from dispatch_load [OF s 2 p] assms(6) obtain rc1 w1 where l:
      "rdb_load (emit (map WrLock bucket_locks) w) pathp = Inr (rc1, w1)"
      "w' = emit (map Unlock bucket_locks @ [Send (sock c) ok_msg]) w1"
      by (auto split: sum.splits)
    obtain es where es: "trace w1 = trace (emit (map WrLock bucket_locks) w) @ es"
        "\<forall>e \<in> set es. bucket_access True e"
      using rdb_load_keeps [OF l(1)] servingD(1) [OF s] by (fastforce simp: load_keeps_def bucket_access_def)
    from disciplined_append [OF disciplined_all_buckets [OF es(2)], of "[Send (sock c) ok_msg]"]
    have "disciplined (map WrLock bucket_locks @ es @ map Unlock bucket_locks @ [Send (sock c) ok_msg])"
      by (simp add: disciplined_def)
    with es(1) l(2) show ?thesis by simp
  qed
qed

text \<open>
C1. The dispatcher refines the abstract server.  For a connection that is being served, a parsed
command (any command other than INFO, SAVE and LOAD) with the words \<open>ws\<close>, and nothing failing,
\<open>cmd_dispatch\<close> returns 0; exactly one message goes to the client, the encoding of the reply
\<open>spec_step\<close> gives; the sixteen databases, the selected database and the openness of the
connection are those \<open>spec_step\<close> gives; the locking discipline is kept, unless the command is a GET
that finds its key; and the other clients, the files and the well-formedness of the server are
kept.
\<close>
theorem dispatch_refines:
  assumes "serving w k c cmd ws" and "small_values w" and "data_command ws" and "words_size ws < 2 ^ 30"
  shows "\<exists>w'. cmd_dispatch (Some cmd) w k = Inr (0, w') \<and>
    command_done (\<not> get_hit w c ws) w k c (spec_step ws (abs_of w c)) w'"
  using dispatch_refines_spec [OF assms] .

theorem dispatch_refines_witness:
  "\<exists>w'. cmd_dispatch (Some (sample_cmd [''INCR'', ''k''] [0, 5])) (sample_in [''INCR'', ''k'']) 3 = Inr (0, w') \<and>
    sends (trace w') = [(0, int_msg 8)] \<and> db_map w' 0 = [''k'' \<mapsto> ''8'']"
proof -
  let ?w = "sample_in [''INCR'', ''k'']"
  have s: "serving ?w 3 zero_client (sample_cmd [''INCR'', ''k''] [0, 5]) [''INCR'', ''k'']"
    by (rule sample_serving) (simp_all add: NUL_def)
  have "atoi ''7'' = 7" "show_int 8 = ''8''" "int32 8 = 8"
    by code_simp+
  then have "spec_step [''INCR'', ''k''] (abs_of ?w zero_client) =
      (RInt 8, put_key ''k'' (Some ''8'') (abs_of ?w zero_client))"
    by (simp add: spec_step_def Let_def command_of_def abs_of_def db_map_sample zero_client_def)
  then show ?thesis
    using dispatch_refines [OF s sample_small]
    by (fastforce simp: data_command_def command_of_def words_size_def command_done_def abs_of_def put_key_def
        zero_client_def db_map_sample)
qed

text \<open>
C35. INCR at the top of the range of \<open>int\<close>.  The handler computes in 64 bits what \<open>atoi\<close> read
in 32, so on the value 2147483647 it stores 2147483648, but the reply function takes an \<open>int\<close>
and answers -2147483648; and since \<open>atoi\<close> keeps the low 32 bits, the next INCR of that key
computes -2147483647.
\<close>
theorem incr_overflow:
  assumes "serving w k c cmd [''INCR'', key]" and "db_map w (db c) key = Some ''2147483647''"
  shows "\<exists>w'. cmd_dispatch (Some cmd) w k = Inr (0, w') \<and>
    (\<exists>es. trace w' = trace w @ es \<and> sends es = [(sock c, int_msg (- 2147483648))]) \<and>
    db_map w' (db c) key = Some ''2147483648'' \<and> atoi ''2147483648'' + 1 = - 2147483647"
proof -
  have v: "atoi ''2147483647'' = 2147483647" "show_int 2147483648 = ''2147483648''"
      "int32 2147483648 = - 2147483648" "atoi ''2147483648'' + 1 = - 2147483647"
    by (simp add: atoi_def strtol_eval int32_eval) (simp add: show_eval, simp add: int32_eval,
      simp add: atoi_def strtol_eval int32_eval)
  have e: "command_of [''INCR'', key] = CMD_INCR" by (simp add: command_of_def)
  obtain t where t: "table_of w (db c) = Inr t" "ht_wf t" "ht_lookup t = db_map w (db c)"
    using servingD(13) [OF assms(1)] by blast
  then show ?thesis
    using dispatch_incr [OF assms(1) e] assms(2) v servingD(1,11) [OF assms(1)]
    by (auto simp: db_map_put_table ht_lookup_put)
qed

theorem incr_overflow_witness:
  "\<exists>w'. cmd_dispatch (Some (sample_cmd [''INCR'', ''k''] [0, 5]))
      (put_table 0 (ht_put empty_table ''k'' ''2147483647'') (sample_in [''INCR'', ''k''])) 3 = Inr (0, w') \<and>
    db_map w' 0 ''k'' = Some ''2147483648''"
proof -
  let ?w = "put_table 0 (ht_put empty_table ''k'' ''2147483647'') (sample_in [''INCR'', ''k''])"
  have wf: "ht_wf (ht_put empty_table ''k'' ''2147483647'')"
    by (intro wf_intros) (simp add: kv_ok_def NUL_def)
  have s: "serving ?w 3 zero_client (sample_cmd [''INCR'', ''k''] [0, 5]) [''INCR'', ''k'']"
    using wf by (intro serving_variants sample_serving) (simp_all add: NUL_def)
  have "db_map ?w 0 ''k'' = Some ''2147483647''"
    by (simp add: db_map_put_table ht_lookup_put ht_wf_empty NUM_DBS_def)
  then show ?thesis using incr_overflow [OF s] by (auto simp: zero_client_def)
qed

text \<open>
C19. The locks.  Whatever command a served connection has sent, if \<open>cmd_dispatch\<close> returns with the
world \<open>w'\<close> then the events it caused obey the discipline, for every command but INFO and a GET that
finds its key: locks are taken in the order of database and bucket, every bucket that is read is
locked, every bucket that is written is locked for writing, no message is sent under a lock, and
every lock is released.
\<close>
theorem commands_disciplined:
  assumes "serving w k c cmd ws" and "small_values w" and "words_size ws < 2 ^ 30"
    and "command_of ws \<noteq> CMD_INFO" and "\<not> get_hit w c ws" and "cmd_dispatch (Some cmd) w k = Inr (rc, w')"
  shows "\<exists>es. trace w' = trace w @ es \<and> disciplined es"
  using dispatch_disciplined [OF assms] .

theorem commands_disciplined_witness:
  "\<exists>w' es. cmd_dispatch (Some (sample_cmd [''DEL'', ''k''] [0, 4])) (sample_in [''DEL'', ''k'']) 3 = Inr (0, w') \<and>
    trace w' = es \<and> es \<noteq> [] \<and> disciplined es"
proof -
  have s: "serving (sample_in [''DEL'', ''k'']) 3 zero_client (sample_cmd [''DEL'', ''k''] [0, 4]) [''DEL'', ''k'']"
    by (rule sample_serving) (simp_all add: NUL_def)
  have e: "command_of [''DEL'', ''k''] = CMD_DEL" by (simp add: command_of_def)
  obtain w' where del: "cmd_dispatch (Some (sample_cmd [''DEL'', ''k''] [0, 4])) (sample_in [''DEL'', ''k'']) 3 = Inr (0, w')"
      "trace w' \<noteq> []"
    using dispatch_del [OF s e] by auto
  show ?thesis
    using commands_disciplined [OF s sample_small _ _ _ del(1)] e del by (simp add: words_size_def get_hit_def)
qed

text \<open>
C38. INFO breaks the discipline: on a well-formed INFO the first event is a read of a bucket whose
lock the thread does not hold.
\<close>
theorem info_unlocked:
  assumes "serving w k c cmd [''INFO'']" and "server w = Some srv" and "card (dom (db_map w (db c))) < size_mod"
    and "short_value (Some (info_text srv (db c) (card (dom (db_map w (db c))))))"
  shows "\<exists>w' es. cmd_dispatch (Some cmd) w k = Inr (0, w') \<and> trace w' = trace w @ es \<and> \<not> disciplined es \<and>
    sends es = [(sock c, bulk_msg (Some (info_text srv (db c) (card (dom (db_map w (db c)))))))]"
proof -
  have "command_of [''INFO''] = CMD_INFO" by (simp add: command_of_def)
  moreover have "sends (map (ReadBucket d) is) = []" for d "is"
    by (induction "is") auto
  moreover have "map (ReadBucket (db c)) [0..<NUM_BUCKETS] = ReadBucket (db c) 0 # map (ReadBucket (db c)) [1..<NUM_BUCKETS]"
    by (simp add: NUM_BUCKETS_def upt_rec)
  ultimately show ?thesis
    using dispatch_info [OF assms(1) _ assms(2-4)] by (auto simp: disciplined_def)
qed

theorem info_unlocked_witness:
  "\<exists>w'. cmd_dispatch (Some (sample_cmd [''INFO''] [0])) (sample_in [''INFO'']) 3 = Inr (0, w') \<and>
    \<not> disciplined (trace w')"
proof -
  have s: "serving (sample_in [''INFO'']) 3 zero_client (sample_cmd [''INFO''] [0]) [''INFO'']"
    by (rule sample_serving(2) [where b = "[]"]) (simp_all add: NUL_def)
  have "card (dom (db_map (sample_in [''INFO'']) (db zero_client))) = 1"
    by (simp add: db_map_sample zero_client_def)
  moreover obtain srv where srv: "server (sample_in [''INFO'']) = Some srv" "srv_port srv = 0" "clients_count srv = 0"
    by (auto simp: sample_world_def put_table_def zero_server_def)
  ultimately show ?thesis
    using info_unlocked [OF s srv(1)]
    by (auto simp: short_value_def info_text_def srv show_eval CRLF_def size_mod_def zero_client_def)
qed

text \<open>
A GET that finds its key breaks the discipline too: it releases the lock of the bucket and then
reads the value, which belongs to the entry in that bucket, to build its reply, so that a SET, INCR
or DEL of the same key by another connection may free the value while it is being read.
\<close>
lemma get_reads_unlocked:
  assumes "serving w k c cmd [''GET'', key]" and "db_map w (db c) key = Some v" and "length v < 2 ^ 30"
  shows "\<exists>w' es1 es2. cmd_dispatch (Some cmd) w k = Inr (0, w') \<and>
    trace w' = trace w @ es1 @ ReadBucket (db c) (hash_fn key) # es2 \<and>
    lock_run es1 [] = Some [] \<and> \<not> disciplined (es1 @ ReadBucket (db c) (hash_fn key) # es2) \<and>
    sends es2 = [(sock c, bulk_msg (Some v))]"
proof -
  let ?l = "BucketLock (db c) (hash_fn key)"
  have "command_of [''GET'', key] = CMD_GET" by (simp add: command_of_def)
  from dispatch_get [OF assms(1) this] assms(2,3)
  have "cmd_dispatch (Some cmd) w k = Inr (0, emit [RdLock ?l, ReadBucket (db c) (hash_fn key), Unlock ?l,
      ReadBucket (db c) (hash_fn key), Send (sock c) (bulk_msg (Some v))] w)"
    by (simp add: short_value_def)
  then show ?thesis
    by (intro exI [of _ "emit [RdLock ?l, ReadBucket (db c) (hash_fn key), Unlock ?l,
          ReadBucket (db c) (hash_fn key), Send (sock c) (bulk_msg (Some v))] w"]
        exI [of _ "[RdLock ?l, ReadBucket (db c) (hash_fn key), Unlock ?l]"]
        exI [of _ "[Send (sock c) (bulk_msg (Some v))]"]) (simp add: disciplined_def)
qed

text \<open>
SAVE and LOAD take their path from the second token slot without looking at the number of
tokens.  When that slot still holds a pointer into the buffer of an earlier command, which is
freed by then, a plain SAVE or LOAD reads freed memory; only a connection that never sent a
second word gets the default path.
\<close>
lemma stale_path:
  assumes "serving w k c cmd [name]" and "name \<in> {''SAVE'', ''LOAD''}"
    and "tok_at (tokens cmd) 1 = Inr (TPtr bid off)" and "w_bufs w bid = None"
  shows "cmd_dispatch (Some cmd) w k = Inl Dangling"
  using assms(2) path_arg_dangling [OF assms(3,4)]
  by (auto simp: dispatch_serving [OF assms(1)] command_of_def cmd_save_def cmd_load_def)

text \<open>
C37. SAVE and LOAD always answer OK.  A SAVE to a path that cannot be opened answers OK without
writing anything, and a LOAD of a file that is missing or is no snapshot answers OK without
loading anything.
\<close>
theorem save_load_always_ok:
  assumes "serving w k c cmd [name, path]" and "name \<in> {''SAVE'', ''LOAD''}"
    and "\<not> writable w path" and "files w path = None \<or> (\<exists>f. files w path = Some f \<and> take 8 f \<noteq> RDB_MAGIC)"
  shows "\<exists>w' es. cmd_dispatch (Some cmd) w k = Inr (0, w') \<and> trace w' = trace w @ es \<and>
    sends es = [(sock c, ok_msg)] \<and> files w' = files w \<and> db_map w' = db_map w"
proof -
  have p: "path_arg w cmd = Inr (Some path)"
    using servingD(9) [OF assms(1), of 1] by (intro path_arg_word) simp
  have s: "sends (map f ls) = []" if "\<And>l. sends [f l] = []" for f and ls :: "lock list"
    using that by (induction ls) (auto, metis append_Cons append_Nil sends_append)
  let ?w = "emit (map WrLock bucket_locks) w"
  have l: "rdb_load ?w (Some path) = Inr (-1, ?w)"
    using assms(4) servingD(12) [OF assms(1)] by (auto simp: rdb_load_def fread_def)
  from assms(2) consider "name = ''SAVE''" | "name = ''LOAD''" by blast
  then show ?thesis
  proof cases
    case 1
    then have "command_of [name, path] = CMD_SAVE" by (simp add: command_of_def)
    from dispatch_save [OF assms(1) this p] assms(3) show ?thesis by (auto simp: Let_def)
  next
    case 2
    then have "command_of [name, path] = CMD_LOAD" by (simp add: command_of_def)
    from dispatch_load [OF assms(1) this p] l show ?thesis by (simp add: s)
  qed
qed

theorem save_load_always_ok_witness:
  "\<exists>w'. cmd_dispatch (Some (sample_cmd [''LOAD'', ''f''] [0, 5])) ((sample_in [''LOAD'', ''f''])\<lparr>writable := \<lambda>_. False\<rparr>) 3 =
     Inr (0, w') \<and> sends (trace w') = [(0, ok_msg)]"
proof -
  have s: "serving ((sample_in [''LOAD'', ''f''])\<lparr>writable := \<lambda>_. False\<rparr>) 3 zero_client
      (sample_cmd [''LOAD'', ''f''] [0, 5]) [''LOAD'', ''f'']"
    by (intro serving_variants sample_serving) (simp_all add: NUL_def)
  have "files (sample_in [''LOAD'', ''f'']) ''f'' = None"
    by (simp add: sample_in_def sample_world_def)
  then show ?thesis
    using save_load_always_ok [OF s] by (auto simp: zero_client_def)
qed

end
