(* ===== verification/Worker.thy ===== *)
theory Worker
  imports CommandSpec
begin

text \<open>
  The thread that serves one connection, \<open>worker_handle_client\<close> of \<^verbatim>\<open>server.c\<close>.  What \<open>recv\<close>
  returns is the input of the model, a list with one element per call; a thread whose input is
  used up is waiting in \<open>recv\<close>.  Each complete line of the accumulated bytes is copied to a
  buffer of its own, parsed and executed there, and the buffer is freed.  The lemmas show that
  the thread answers the lines of the stream in order, however the stream is cut into pieces.
\<close>

definition BUFSIZ :: nat where "BUFSIZ = 8192"

datatype recv = RecvErr | RecvEof | RecvData "char list"

datatype thread = Waiting | Finished

section \<open>The code\<close>

function find_crlf_from :: "block \<Rightarrow> nat \<Rightarrow> nat \<Rightarrow> ub + nat" where
  "find_crlf_from buf len i =
     (if i + 1 < len then
        res_bind (block_get buf i) (\<lambda>c.
        if c = CR then
          res_bind (block_get buf (i + 1)) (\<lambda>d.
          if d = LF then Inr (i + 2) else find_crlf_from buf len (i + 1))
        else find_crlf_from buf len (i + 1))
      else Inr 0)"
  by pat_completeness auto
termination by (relation "measure (\<lambda>(buf, len, i). len - i)") auto

declare find_crlf_from.simps [simp del]

definition find_crlf :: "block \<Rightarrow> nat \<Rightarrow> ub + nat" where
  "find_crlf buf len = find_crlf_from buf len 0"

text \<open>\<open>memmove (b, b + from, n)\<close>.\<close>

definition block_move :: "block \<Rightarrow> nat \<Rightarrow> nat \<Rightarrow> ub + block" where
  "block_move b from n =
     (if from + n \<le> length b then Inr (take n (drop from b) @ drop n b) else Inl OutOfBounds)"

definition block_bytes :: "block \<Rightarrow> nat \<Rightarrow> ub + char list" where
  "block_bytes b n = map_res (block_get b) [0..<n]"

text \<open>
  One complete command of \<open>cmd_len\<close> bytes.  It is copied to a buffer of its own and parsed there;
  without memory for the copy there is no command.
\<close>

definition parse_line ::
    "World \<Rightarrow> Cmd \<Rightarrow> StringBuffer \<Rightarrow> nat \<Rightarrow> ub + ((nat \<times> Cmd option) option \<times> World)" where
  "parse_line w cmd querybuf cmd_len =
     (case malloc (w_mem w) of
        (False, m) \<Rightarrow> Inr (None, w\<lparr>w_mem := m\<rparr>)
      | (True, m) \<Rightarrow>
          (let bid = w_next w; w = w\<lparr>w_mem := m, w_next := bid + 1\<rparr> in
           res_bind (block_bytes (sb_buf querybuf) cmd_len) (\<lambda>bytes.
           res_bind (block_copy (fresh_block (cmd_len + 1)) 0 bytes cmd_len) (\<lambda>cmd_buf.
           res_bind (block_put cmd_buf cmd_len NUL) (\<lambda>cmd_buf.
           let tmp = \<lparr>sb_buf = cmd_buf, sb_len = cmd_len, sb_cap = cmd_len + 1\<rparr> in
           res_bind (cmd_parse bid (w_bufs w) (w_mem w) (Some cmd) (Some tmp)) (\<lambda>(n, cmdp, tmpp, m).
           Inr (Some (bid, cmdp), w\<lparr>w_mem := m, w_bufs := (w_bufs w)(bid \<mapsto> sb_buf (the tmpp))\<rparr>)))))))"

text \<open>
  After the command the copy is freed and its bytes are removed from the input; the Boolean says
  whether the thread goes on.
\<close>

definition end_line ::
    "World \<Rightarrow> nat \<Rightarrow> nat \<Rightarrow> StringBuffer \<Rightarrow> nat \<Rightarrow> ub + (bool \<times> World \<times> StringBuffer)" where
  "end_line w k bid querybuf cmd_len =
     (let w = w\<lparr>w_bufs := (w_bufs w)(bid := None)\<rparr>;
          len = sb_len querybuf - cmd_len
      in
      res_bind (if len > 0 then block_move (sb_buf querybuf) cmd_len len else Inr (sb_buf querybuf)) (\<lambda>b.
      res_bind (client_of w k) (\<lambda>c.
      Inr (sock c \<noteq> -1, w, querybuf\<lparr>sb_buf := b, sb_len := len\<rparr>))))"

definition run_command ::
    "World \<Rightarrow> nat \<Rightarrow> Cmd \<Rightarrow> StringBuffer \<Rightarrow> nat \<Rightarrow> ub + (bool \<times> World \<times> Cmd \<times> StringBuffer)" where
  "run_command w k cmd querybuf cmd_len =
     res_bind (parse_line w cmd querybuf cmd_len) (\<lambda>(parsed, w).
     case parsed of
       None \<Rightarrow> Inr (False, w, cmd, querybuf)
     | Some (bid, cmdp) \<Rightarrow>
         res_bind (cmd_dispatch cmdp w k) (\<lambda>(rc, w).
         res_bind (end_line w k bid querybuf cmd_len) (\<lambda>(running, w, querybuf).
         Inr (running, w, the cmdp, querybuf))))"

lemmas run_command_defs = run_command_def parse_line_def end_line_def

lemma run_command_shorter:
  "run_command w k cmd qb n = Inr (True, w', cmd', qb') \<Longrightarrow> sb_len qb' = sb_len qb - n"
  by (cases "malloc (w_mem w)")
    (auto simp: run_command_defs Let_def res_bind_eq_Inr split: bool.splits if_splits)

text \<open>The inner loop, over the complete commands in the buffer.\<close>

lemma find_crlf_from_bounds: "find_crlf_from b len i = Inr e \<Longrightarrow> e = 0 \<or> (i + 2 \<le> e \<and> e \<le> len)"
proof (induction b len i rule: find_crlf_from.induct)
  case (1 b len i)
  have IH: "find_crlf_from b len (i + 1) = Inr e \<Longrightarrow> e = 0 \<or> (i + 2 \<le> e \<and> e \<le> len)"
    if "i + 1 < len" "block_get b i = Inr c" "c = CR \<Longrightarrow> \<exists>d. block_get b (i + 1) = Inr d \<and> d \<noteq> LF" for c
    using "1.IH" [OF that(1,2)] that(3) by (cases "c = CR") fastforce+
  from "1.prems" consider "e = 0" | "e = i + 2" "i + 1 < len"
    | c where "i + 1 < len" "block_get b i = Inr c" "c = CR \<Longrightarrow> \<exists>d. block_get b (i + 1) = Inr d \<and> d \<noteq> LF"
        "find_crlf_from b len (i + 1) = Inr e"
    by (subst (asm) find_crlf_from.simps) (auto simp: res_bind_eq_Inr split: if_splits)
  then show ?case
    by cases (use IH in fastforce)+
qed

function run_commands ::
    "World \<Rightarrow> nat \<Rightarrow> Cmd \<Rightarrow> StringBuffer \<Rightarrow> ub + (bool \<times> World \<times> Cmd \<times> StringBuffer)" where
  "run_commands w k cmd querybuf =
     res_bind (find_crlf (sb_buf querybuf) (sb_len querybuf)) (\<lambda>end_pos.
     if end_pos = 0 then Inr (True, w, cmd, querybuf)
     else
       res_bind (run_command w k cmd querybuf end_pos) (\<lambda>(running, w, cmd, querybuf).
       if running then run_commands w k cmd querybuf else Inr (False, w, cmd, querybuf)))"
  by pat_completeness auto
termination
proof (relation "measure (\<lambda>(w, k, cmd, querybuf). sb_len querybuf)", goal_cases)
  case 1
  show ?case by simp
next
  case (2 w k cmd qb e r running r1 w' r2 cmd' qb')
  then have "sb_len qb' = sb_len qb - e" using run_command_shorter by auto
  moreover have "2 \<le> e \<and> e \<le> sb_len qb"
    using find_crlf_from_bounds 2 by (fastforce simp: find_crlf_def)
  ultimately show ?case by simp
qed

declare run_commands.simps [simp del]

text \<open>The outer loop, over the results of \<open>recv\<close>.\<close>

fun worker_loop ::
    "World \<Rightarrow> nat \<Rightarrow> Cmd \<Rightarrow> StringBuffer \<Rightarrow> recv list \<Rightarrow> ub + (thread \<times> World \<times> Cmd \<times> StringBuffer)" where
  "worker_loop w k cmd querybuf [] = Inr (Waiting, w, cmd, querybuf)"
| "worker_loop w k cmd querybuf (RecvErr # rs) = Inr (Finished, w, cmd, querybuf)"
| "worker_loop w k cmd querybuf (RecvEof # rs) = Inr (Finished, w, cmd, querybuf)"
| "worker_loop w k cmd querybuf (RecvData bytes # rs) =
     res_bind (strbuf_append_noterm (w_mem w) (Some querybuf) (Some bytes) (length bytes)) (\<lambda>(rc, qbp, m).
     res_bind (run_commands (w\<lparr>w_mem := m\<rparr>) k cmd (the qbp)) (\<lambda>(running, w, cmd, querybuf).
     if running then worker_loop w k cmd querybuf rs else Inr (Finished, w, cmd, querybuf)))"

text \<open>The buffer and the command of a new thread; without them it ends at once.\<close>

definition worker_start :: "World \<Rightarrow> (Cmd \<times> StringBuffer) option \<times> World" where
  "worker_start w =
     (case malloc (w_mem w) of
        (False, m) \<Rightarrow> (None, w\<lparr>w_mem := m\<rparr>)
      | (True, m) \<Rightarrow>
          (let querybuf = \<lparr>sb_buf = fresh_block BUFSIZ, sb_len = 0, sb_cap = BUFSIZ\<rparr> in
           case cmd_init m of
             (None, m) \<Rightarrow> (None, w\<lparr>w_mem := m\<rparr>)
           | (Some cmd, m) \<Rightarrow> (Some (cmd, querybuf), w\<lparr>w_mem := m\<rparr>)))"

definition worker_handle_client :: "World \<Rightarrow> nat \<Rightarrow> recv list \<Rightarrow> ub + (thread \<times> World)" where
  "worker_handle_client w k rs =
     (case worker_start w of
        (None, w) \<Rightarrow> Inr (Finished, w)
      | (Some (cmd, querybuf), w) \<Rightarrow>
          res_bind (worker_loop w k cmd querybuf rs) (\<lambda>(th, w, cmd, querybuf). Inr (th, w)))"

section \<open>Lines of a stream\<close>

lemma read_line_eq: "read_line s = Some (l, r) \<Longrightarrow> s = l @ CRLF @ r \<and> \<not> has_crlf (l @ [CR])"
  by (induction s arbitrary: l r rule: read_line.induct)
    (auto simp: CRLF_def has_crlf_Cons Cons_eq_append_conv split: if_splits)

lemma read_line_None: "read_line s = None \<longleftrightarrow> \<not> has_crlf s"
  by (induction s rule: read_line.induct) auto

lemma read_line_append: "read_line s = Some (l, r) \<Longrightarrow> read_line (s @ t) = Some (l, r @ t)"
  using read_line_eq [of s l r] read_line_crlf [of l "r @ t"] by simp

function lines_of :: "string \<Rightarrow> string list \<times> string" where
  "lines_of s =
     (case read_line s of None \<Rightarrow> ([], s)
      | Some (l, r) \<Rightarrow> (case lines_of r of (ls, rest) \<Rightarrow> (l # ls, rest)))"
  by pat_completeness auto
termination
  by (relation "measure length") (auto simp: CRLF_def dest!: sym [THEN read_line_eq] read_line_eq)

declare lines_of.simps [simp del]

lemma lines_of_simps:
  "\<not> has_crlf s \<Longrightarrow> lines_of s = ([], s)"
  "read_line s = Some (l, r) \<Longrightarrow> lines_of s = (l # fst (lines_of r), snd (lines_of r))"
  by (simp_all add: lines_of.simps [of s] flip: read_line_None) (simp add: split_beta)

lemma lines_of_rest: "\<not> has_crlf (snd (lines_of s))"
proof (induction s rule: lines_of.induct)
  case (1 s)
  then show ?case by (cases "read_line s") (auto simp: lines_of_simps read_line_None)
qed

text \<open>The lines of a stream do not depend on where it is cut.\<close>

lemma lines_of_append:
  "lines_of (s @ t) = (fst (lines_of s) @ fst (lines_of (snd (lines_of s) @ t)),
     snd (lines_of (snd (lines_of s) @ t)))"
proof (induction s rule: lines_of.induct)
  case (1 s)
  show ?case
  proof (cases "read_line s")
    case None
    then show ?thesis by (simp add: lines_of_simps read_line_None)
  next
    case (Some p)
    obtain l r where p: "read_line s = Some (l, r)" using Some by (cases p) auto
    then show ?thesis
      using "1.IH" [OF p refl] by (simp add: lines_of_simps(2) [OF p] lines_of_simps(2) [OF read_line_append [OF p]])
  qed
qed

section \<open>The end of a line in the buffer\<close>

lemma find_crlf_from_line:
  assumes "b = map Some (pre @ s) @ rem"
  shows "find_crlf_from b (length (pre @ s)) (length pre) =
    Inr (case read_line s of None \<Rightarrow> 0 | Some (l, r) \<Rightarrow> length pre + length l + 2)"
  using assms
proof (induction s arbitrary: pre)
  case Nil
  then show ?case by (simp add: find_crlf_from.simps)
next
  case (Cons c s)
  have c: "block_get b (length pre) = Inr c"
    using Cons.prems by (simp add: block_get_def nth_append)
  show ?case
  proof (cases s)
    case Nil
    then show ?thesis by (simp add: find_crlf_from.simps)
  next
    case s: (Cons d s')
    have d: "block_get b (Suc (length pre)) = Inr d"
      using Cons.prems s by (simp add: block_get_def nth_append)
    have IH: "find_crlf_from b (length ((pre @ [c]) @ s)) (length (pre @ [c])) =
        Inr (case read_line s of None \<Rightarrow> 0 | Some (l, r) \<Rightarrow> length (pre @ [c]) + length l + 2)"
      using Cons.prems by (intro Cons.IH) simp
    show ?thesis
      by (subst find_crlf_from.simps) (use IH c d s in \<open>auto split: option.splits\<close>)
  qed
qed

lemma find_crlf_line:
  assumes "sb_holds_raw qb s"
  shows "find_crlf (sb_buf qb) (sb_len qb) =
    Inr (case read_line s of None \<Rightarrow> 0 | Some (l, r) \<Rightarrow> length l + 2)"
  using find_crlf_from_line [of "sb_buf qb" "[]" s] assms by (auto simp: sb_holds_raw_iff find_crlf_def split: option.splits)

lemma block_bytes_raw: "block_bytes (map Some (s @ t) @ b) (length s) = Inr s"
proof -
  have "map_res (block_get (map Some (s @ t) @ b)) [0..<length s] = Inr (map ((!) s) [0..<length s])"
    by (rule map_res_eq_map) (simp add: block_get_def nth_append)
  then show ?thesis by (simp add: block_bytes_def map_nth)
qed

section \<open>Words of a line\<close>

lemma scan_size:
  "scan cur s = (ws, l) \<Longrightarrow> sum_list (map length ws) + length l \<le> length cur + length s \<and> length ws \<le> length s"
  by (induction s arbitrary: cur ws l) (auto split: if_splits prod.splits, fastforce+)

lemma words_size_bound: "words_size (words s) \<le> 2 * length s + 1"
proof -
  obtain ws l where sc: "scan [] s = (ws, l)" by force
  have "sum_list (map length (map cut vs)) \<le> sum_list (map length vs)" for vs
    by (induction vs) (auto simp: cut_def intro: add_mono length_takeWhile_le)
  from this [of ws] this [of "ws @ [l]"] show ?thesis
    using scan_size [OF sc] by (auto simp: words_def sc words_size_def)
qed

lemma words_cstring: "w \<in> set (words s) \<Longrightarrow> cstring w"
  by (auto simp: words_def cut_def split: prod.splits if_splits)

section \<open>What the thread does\<close>

definition conn :: "World \<Rightarrow> nat \<Rightarrow> Client \<Rightarrow> Cmd \<Rightarrow> bool" where
  "conn w k c cmd \<longleftrightarrow> world_wf w \<and> calm w \<and> small_values w \<and> k < MAX_CONN \<and>
     client_of w k = Inr c \<and> toks_wf (tokens cmd)"

text \<open>The replies \<open>rs\<close> went out, and the connection is in the abstract state \<open>a\<close>.\<close>

definition served :: "World \<Rightarrow> nat \<Rightarrow> Client \<Rightarrow> resp list \<times> Abs \<Rightarrow> World \<Rightarrow> bool" where
  "served w k c ra w' \<longleftrightarrow>
     (\<exists>c' es. client_of w' k = Inr c' \<and> abs_of w' c' = snd ra \<and> sock c' \<in> {sock c, -1} \<and>
        trace w' = trace w @ es \<and> sends es = map (\<lambda>r. (sock c, resp_encode r)) (fst ra)) \<and>
     (\<forall>j. j \<noteq> k \<longrightarrow> client_of w' j = client_of w j) \<and> files w' = files w"

lemma a_open_abs_of [simp]: "a_open (abs_of w c) \<longleftrightarrow> sock c \<noteq> -1"
  by (simp add: abs_of_def)

lemma served_trans:
  assumes "served w k c (rs, a) w1" and "client_of w1 k = Inr c1" and "a_open a"
    and "served w1 k c1 (rs', a') w2"
  shows "served w k c (rs @ rs', a') w2"
proof -
  from assms(1,2) obtain es where 1: "abs_of w1 c1 = a" "sock c1 \<in> {sock c, -1}" "trace w1 = trace w @ es"
      "sends es = map (\<lambda>r. (sock c, resp_encode r)) rs"
      "\<forall>j. j \<noteq> k \<longrightarrow> client_of w1 j = client_of w j" "files w1 = files w"
    by (auto simp: served_def)
  with assms(3) have s: "sock c1 = sock c" by auto
  from assms(4) obtain c2 es' where "client_of w2 k = Inr c2" "abs_of w2 c2 = a'" "sock c2 \<in> {sock c1, -1}"
      "trace w2 = trace w1 @ es'" "sends es' = map (\<lambda>r. (sock c1, resp_encode r)) rs'"
      "\<forall>j. j \<noteq> k \<longrightarrow> client_of w2 j = client_of w1 j" "files w2 = files w1"
    by (auto simp: served_def)
  with 1 s show ?thesis
    by (auto simp: served_def intro!: exI [of _ "es @ es'"])
qed

lemma served_refl: "client_of w k = Inr c \<Longrightarrow> served w k c ([], abs_of w c) w"
  by (simp add: served_def)

lemma abs_of_fields [simp]:
  "abs_of (w\<lparr>w_mem := m\<rparr>) c = abs_of w c" "abs_of (w\<lparr>w_bufs := b\<rparr>) c = abs_of w c"
  "abs_of (w\<lparr>w_next := n\<rparr>) c = abs_of w c"
  by (simp_all add: abs_of_def)

lemma parse_line_eq:
  assumes "calm w" and "sb_buf qb = map Some (s @ r) @ b"
  shows "parse_line w cmd qb (length s) =
    res_bind (cmd_parse (w_next w) (w_bufs w) [] (Some cmd)
      (Some \<lparr>sb_buf = map Some s @ [Some NUL], sb_len = length s, sb_cap = length s + 1\<rparr>)) (\<lambda>(n, cmdp, tmpp, m).
    Inr (Some (w_next w, cmdp),
      w\<lparr>w_next := w_next w + 1, w_mem := m, w_bufs := (w_bufs w)(w_next w \<mapsto> sb_buf (the tmpp))\<rparr>))"
proof -
  have bytes: "block_bytes (sb_buf qb) (length s) = Inr s"
    using block_bytes_raw assms(2) by metis
  have "fresh_block (Suc (length s)) = replicate (length s) None @ [None]"
    by (simp add: fresh_block_def replicate_append_same)
  then have "block_copy (fresh_block (Suc (length s))) 0 s (length s) = Inr (map Some s @ [None])"
      "block_put (map Some s @ [None]) (length s) NUL = Inr (map Some s @ [Some NUL])"
    by (simp_all add: block_copy_def block_put_def list_update_append)
  with assms(1) bytes show ?thesis
    by (simp add: parse_line_def Let_def del: fun_upd_apply replicate.simps)
qed

text \<open>What is left in the buffer when the first line is removed.\<close>

definition rest_of :: "StringBuffer \<Rightarrow> string \<Rightarrow> StringBuffer" where
  "rest_of qb r = qb\<lparr>sb_buf := (if r = [] then sb_buf qb else map Some r @ drop (length r) (sb_buf qb)), sb_len := length r\<rparr>"

lemma rest_of_holds: "sb_holds_raw qb (s @ r) \<Longrightarrow> sb_holds_raw (rest_of qb r) r"
  by (auto simp: sb_holds_raw_iff rest_of_def)

lemma end_line_eq:
  assumes "sb_holds_raw qb (s @ r)" and "client_of w k = Inr c"
  shows "end_line w k bid qb (length s) = Inr (sock c \<noteq> -1, w\<lparr>w_bufs := (w_bufs w)(bid := None)\<rparr>, rest_of qb r)"
proof -
  from assms(1) obtain b where "sb_buf qb = map Some (s @ r) @ b" "sb_len qb = length (s @ r)"
    by (auto simp: sb_holds_raw_iff)
  then show ?thesis
    using assms(2) by (simp add: end_line_def block_move_def rest_of_def Let_def)
qed

text \<open>
  A line is parsed into its words, in a buffer of its own, and dispatched from there; the first word
  slots are new, the others keep what an earlier command left in them.
\<close>

lemma line_words:
  assumes cn: "conn w k c cmd" "sock c \<noteq> -1" and qb: "sb_holds_raw qb (l @ CRLF @ r)" and len: "length l < 2 ^ 28"
  obtains cmd1 b where
    "parse_line w cmd qb (length l + 2) = Inr (Some (w_next w, Some cmd1),
       w\<lparr>w_next := w_next w + 1, w_mem := [], w_bufs := (w_bufs w)(w_next w \<mapsto> b)\<rparr>)"
    "serving (w\<lparr>w_next := w_next w + 1, w_mem := [], w_bufs := (w_bufs w)(w_next w \<mapsto> b)\<rparr>) k c cmd1 (words (l @ CRLF))"
    "words_size (words (l @ CRLF)) < 2 ^ 30" "toks_wf (tokens cmd1)"
    "tokens_read (w_next w) (w_bufs w) b (toks (tokens cmd1)) (words (l @ CRLF))"
    "\<forall>i. length (words (l @ CRLF)) \<le> i \<longrightarrow> i < t_cap (tokens cmd) \<longrightarrow> t_buf (tokens cmd1) ! i = t_buf (tokens cmd) ! i"
proof -
  let ?s = "l @ CRLF" and ?bid = "w_next w"
  have cn': "world_wf w" "calm w" "small_values w" "k < MAX_CONN" "client_of w k = Inr c" "toks_wf (tokens cmd)"
    using cn by (simp_all add: conn_def)
  have n: "length l + 2 = length ?s" by (simp add: CRLF_def)
  let ?tmp = "\<lparr>sb_buf = map Some ?s @ [Some NUL], sb_len = length ?s, sb_cap = length ?s + 1\<rparr>"
  have raw: "raw_holds ?tmp ?s" by (simp add: raw_holds_def)
  have crlf: "has_crlf ?s" by (simp add: has_crlf_append CRLF_def)
  have len': "length ?s < 2 ^ 31" using len n by simp
  obtain cmd1 raw1 j where P: "cmd_parse ?bid (w_bufs w) [] (Some cmd) (Some ?tmp) =
      Inr (j, Some cmd1, Some raw1, [])" "toks_wf (tokens cmd1)"
      "tokens_read ?bid (w_bufs w) (sb_buf raw1) (toks (tokens cmd1)) (words ?s)"
      "t_count (tokens cmd1) = length (words ?s)" "ready cmd1 = 1" "entry cmd1 = command_of (words ?s)"
      "\<forall>i. length (words ?s) \<le> i \<longrightarrow> i < t_cap (tokens cmd) \<longrightarrow> t_buf (tokens cmd1) ! i = t_buf (tokens cmd) ! i"
    using cmd_parse_words [OF raw cn'(6) len', of ?bid "w_bufs w"] crlf by auto
  let ?u = "w\<lparr>w_next := ?bid + 1, w_mem := [], w_bufs := (w_bufs w)(?bid \<mapsto> sb_buf raw1)\<rparr>"
  have "tok_str ?u cmd1 i = Inr (words ?s ! i)" if "i < length (words ?s)" for i
    using that tokens_read_nth [OF P(3) that] P(2,4) by (simp add: tok_str_def tok_at_toks)
  then have "serving ?u k c cmd1 (words ?s)"
    using P cn' cn(2) words_cstring [of _ ?s] by (simp add: serving_def cmd_holds_def calm_def)
  moreover have "words_size (words ?s) < 2 ^ 30"
    using words_size_bound [of ?s] len n by simp
  moreover obtain b where "sb_buf qb = map Some (?s @ r) @ b"
    using qb by (auto simp: sb_holds_raw_iff)
  from parse_line_eq [OF cn'(2) this, of cmd] P(1)
  have "parse_line w cmd qb (length l + 2) = Inr (Some (?bid, Some cmd1), ?u)"
    unfolding n by simp
  ultimately show thesis using that P(2,3,7) by blast
qed

lemma line_parsed:
  assumes cn: "conn w k c cmd" "sock c \<noteq> -1" and qb: "sb_holds_raw qb (l @ CRLF @ r)" and len: "length l < 2 ^ 28"
  shows "\<exists>cmd1 b u qb'. u = w\<lparr>w_next := w_next w + 1, w_mem := [], w_bufs := (w_bufs w)(w_next w \<mapsto> b)\<rparr> \<and>
    serving u k c cmd1 (words (l @ CRLF)) \<and> small_values u \<and> words_size (words (l @ CRLF)) < 2 ^ 30 \<and>
    toks_wf (tokens cmd1) \<and> sb_holds_raw qb' r \<and>
    tokens_read (w_next w) (w_bufs w) b (toks (tokens cmd1)) (words (l @ CRLF)) \<and>
    (\<forall>i. length (words (l @ CRLF)) \<le> i \<longrightarrow> i < t_cap (tokens cmd) \<longrightarrow> t_buf (tokens cmd1) ! i = t_buf (tokens cmd) ! i) \<and>
    (\<forall>rc w2 c2. cmd_dispatch (Some cmd1) u k = Inr (rc, w2) \<longrightarrow> client_of w2 k = Inr c2 \<longrightarrow>
      run_command w k cmd qb (length l + 2) =
        Inr (sock c2 \<noteq> -1, w2\<lparr>w_bufs := (w_bufs w2)(w_next w := None)\<rparr>, cmd1, qb')) \<and>
    (\<forall>e. cmd_dispatch (Some cmd1) u k = Inl e \<longrightarrow> run_command w k cmd qb (length l + 2) = Inl e)"
proof -
  obtain cmd1 b where P: "parse_line w cmd qb (length l + 2) = Inr (Some (w_next w, Some cmd1),
      w\<lparr>w_next := w_next w + 1, w_mem := [], w_bufs := (w_bufs w)(w_next w \<mapsto> b)\<rparr>)"
    "serving (w\<lparr>w_next := w_next w + 1, w_mem := [], w_bufs := (w_bufs w)(w_next w \<mapsto> b)\<rparr>) k c cmd1 (words (l @ CRLF))"
    "words_size (words (l @ CRLF)) < 2 ^ 30" "toks_wf (tokens cmd1)"
    "tokens_read (w_next w) (w_bufs w) b (toks (tokens cmd1)) (words (l @ CRLF))"
    "\<forall>i. length (words (l @ CRLF)) \<le> i \<longrightarrow> i < t_cap (tokens cmd) \<longrightarrow> t_buf (tokens cmd1) ! i = t_buf (tokens cmd) ! i"
    by (rule line_words [OF cn qb len])
  let ?u = "w\<lparr>w_next := w_next w + 1, w_mem := [], w_bufs := (w_bufs w)(w_next w \<mapsto> b)\<rparr>"
  have n: "length l + 2 = length (l @ CRLF)" and h: "sb_holds_raw qb ((l @ CRLF) @ r)"
    using qb by (simp_all add: CRLF_def)
  have "run_command w k cmd qb (length l + 2) =
      Inr (sock c2 \<noteq> -1, w2\<lparr>w_bufs := (w_bufs w2)(w_next w := None)\<rparr>, cmd1, rest_of qb r)"
    if "cmd_dispatch (Some cmd1) ?u k = Inr (rc, w2)" "client_of w2 k = Inr c2" for rc w2 c2
    using P(1) that end_line_eq [OF h that(2), folded n, of "w_next w"] by (simp add: run_command_def)
  moreover have "small_values ?u" using cn(1) by (simp add: conn_def small_values_def)
  ultimately show ?thesis
    using P rest_of_holds [OF h]
    by (intro exI [of _ cmd1] exI [of _ b] exI [of _ ?u] exI [of _ "rest_of qb r"]) (auto simp: run_command_def)
qed

lemma run_command_line:
  assumes cn: "conn w k c cmd" "sock c \<noteq> -1" and qb: "sb_holds_raw qb (l @ CRLF @ r)"
    and len: "length l < 2 ^ 28" and data: "data_command (words (l @ CRLF))"
  shows "\<exists>w' c' cmd' qb'. run_command w k cmd qb (length l + 2) = Inr (sock c' \<noteq> -1, w', cmd', qb') \<and>
    sb_holds_raw qb' r \<and> conn w' k c' cmd' \<and>
    served w k c (case spec_step (words (l @ CRLF)) (abs_of w c) of (x, a) \<Rightarrow> ([x], a)) w'"
proof -
  let ?s = "l @ CRLF"
  obtain cmd1 b u qb' where P: "u = w\<lparr>w_next := w_next w + 1, w_mem := [], w_bufs := (w_bufs w)(w_next w \<mapsto> b)\<rparr>"
      "serving u k c cmd1 (words ?s)" "small_values u" "words_size (words ?s) < 2 ^ 30" "toks_wf (tokens cmd1)"
      "sb_holds_raw qb' r"
      "\<And>rc w2 c2. cmd_dispatch (Some cmd1) u k = Inr (rc, w2) \<Longrightarrow> client_of w2 k = Inr c2 \<Longrightarrow>
        run_command w k cmd qb (length l + 2) =
          Inr (sock c2 \<noteq> -1, w2\<lparr>w_bufs := (w_bufs w2)(w_next w := None)\<rparr>, cmd1, qb')"
    using line_parsed [OF cn qb len] by blast
  obtain w2 where D: "cmd_dispatch (Some cmd1) u k = Inr (0, w2)"
      "command_done (\<not> get_hit u c (words ?s)) u k c (spec_step (words ?s) (abs_of u c)) w2"
    using dispatch_refines_spec [OF P(2,3) data P(4)] by blast
  then obtain c2 where c2: "client_of w2 k = Inr c2"
    by (auto simp: command_done_def)
  let ?w3 = "w2\<lparr>w_bufs := (w_bufs w2)(w_next w := None)\<rparr>"
  have "conn ?w3 k c2 cmd1"
    using D(2) P(5) cn(1) c2 by (simp add: conn_def command_done_def small_values_def)
  moreover have "served w k c (case spec_step (words ?s) (abs_of w c) of (x, a) \<Rightarrow> ([x], a)) ?w3"
    using D(2) c2 P(1) by (auto simp: command_done_def served_def abs_of_def split: prod.splits)
  ultimately show ?thesis using P(6) P(7) [OF D(1) c2] by blast
qed

section \<open>The lines of a connection\<close>

fun spec_run :: "string list \<Rightarrow> Abs \<Rightarrow> resp list \<times> Abs" where
  "spec_run [] a = ([], a)"
| "spec_run (l # ls) a =
     (case spec_step (words (l @ CRLF)) a of
        (r, a) \<Rightarrow> if a_open a then (case spec_run ls a of (rs, a) \<Rightarrow> (r # rs, a)) else ([r], a))"

lemma spec_run_append:
  "a_open a \<Longrightarrow> spec_run (ls @ ls') a =
     (case spec_run ls a of
        (rs, a) \<Rightarrow> if a_open a then (case spec_run ls' a of (rs', a) \<Rightarrow> (rs @ rs', a)) else (rs, a))"
  by (induction ls arbitrary: a) (auto split: prod.splits)

definition line_ok :: "string \<Rightarrow> bool" where
  "line_ok l \<longleftrightarrow> length l < 2 ^ 28 \<and> data_command (words (l @ CRLF))"

lemma run_commands_lines:
  assumes "conn w k c cmd" and "sock c \<noteq> -1" and "sb_holds_raw qb s" and "\<forall>l \<in> set (fst (lines_of s)). line_ok l"
  shows "\<exists>w' c' cmd' qb'. run_commands w k cmd qb = Inr (sock c' \<noteq> -1, w', cmd', qb') \<and>
    conn w' k c' cmd' \<and> served w k c (spec_run (fst (lines_of s)) (abs_of w c)) w' \<and>
    (sock c' \<noteq> -1 \<longrightarrow> sb_holds_raw qb' (snd (lines_of s)))"
  using assms
proof (induction s arbitrary: w c cmd qb rule: lines_of.induct)
  case (1 s)
  show ?case
  proof (cases "read_line s")
    case None
    then have "run_commands w k cmd qb = Inr (True, w, cmd, qb)"
      using find_crlf_line [OF "1.prems"(3)] by (subst run_commands.simps) simp
    then show ?thesis
      using "1.prems" served_refl [of w k c] lines_of_simps(1) [OF None [unfolded read_line_None]]
      by (auto simp: conn_def)
  next
    case (Some p)
    obtain l r where p: "read_line s = Some (l, r)" using Some by (cases p) auto
    note ls = lines_of_simps(2) [OF p]
    let ?sp = "spec_step (words (l @ CRLF)) (abs_of w c)"
    have s: "sb_holds_raw qb (l @ CRLF @ r)" using read_line_eq [OF p] "1.prems"(3) by simp
    have ok: "length l < 2 ^ 28" "data_command (words (l @ CRLF))"
      using "1.prems"(4) by (simp_all add: ls line_ok_def)
    from run_command_line [OF "1.prems"(1,2) s ok] obtain w1 c1 cmd1 qb1 where R:
      "run_command w k cmd qb (length l + 2) = Inr (sock c1 \<noteq> -1, w1, cmd1, qb1)"
      "sb_holds_raw qb1 r" "conn w1 k c1 cmd1" "served w k c ([fst ?sp], snd ?sp) w1"
      by (auto simp: split_beta)
    have a1: "abs_of w1 c1 = snd ?sp" and c1: "client_of w1 k = Inr c1"
      using R(3,4) by (auto simp: served_def conn_def)
    have run: "run_commands w k cmd qb =
        (if sock c1 \<noteq> -1 then run_commands w1 k cmd1 qb1 else Inr (False, w1, cmd1, qb1))"
      using find_crlf_line [OF "1.prems"(3)] R(1) by (subst run_commands.simps) (simp add: p)
    show ?thesis
    proof (cases "sock c1 = -1")
      case True
      then have "\<not> a_open (snd ?sp)" using a1 by (metis a_open_abs_of)
      then have "spec_run (fst (lines_of s)) (abs_of w c) = ([fst ?sp], snd ?sp)"
        by (simp add: ls split_beta)
      with run True R(3,4) show ?thesis by auto
    next
      case False
      then have op: "a_open (snd ?sp)" using a1 by (metis a_open_abs_of)
      have "\<forall>l \<in> set (fst (lines_of r)). line_ok l"
        using "1.prems"(4) by (simp add: ls)
      from "1.IH" [OF p refl R(3) False R(2) this] obtain w2 c2 cmd2 qb2 where R2:
        "run_commands w1 k cmd1 qb1 = Inr (sock c2 \<noteq> -1, w2, cmd2, qb2)" "conn w2 k c2 cmd2"
        "served w1 k c1 (spec_run (fst (lines_of r)) (snd ?sp)) w2"
        "sock c2 \<noteq> -1 \<longrightarrow> sb_holds_raw qb2 (snd (lines_of r))"
        unfolding a1 by blast
      have "served w k c ([fst ?sp] @ fst (spec_run (fst (lines_of r)) (snd ?sp)),
          snd (spec_run (fst (lines_of r)) (snd ?sp))) w2"
        using served_trans [OF R(4) c1 op] R2(3) by simp
      with run False R2 op show ?thesis by (auto simp: ls split_beta)
    qed
  qed
qed

lemma lines_of_rest_length: "length (snd (lines_of s)) \<le> length s"
proof (induction s rule: lines_of.induct)
  case (1 s)
  show ?case
  proof (cases "read_line s")
    case None
    then show ?thesis by (simp add: lines_of_simps(1) flip: read_line_None)
  next
    case (Some p)
    obtain l r where p: "read_line s = Some (l, r)" using Some by (cases p) auto
    have "length r \<le> length s" using read_line_eq [OF p] by simp
    with "1.IH" [OF p refl] show ?thesis by (simp add: lines_of_simps(2) [OF p])
  qed
qed

lemma worker_loop_serves:
  assumes "conn w k c cmd" and "sock c \<noteq> -1" and "sb_holds_raw qb p" and "\<not> has_crlf p"
    and "length (p @ concat chunks) < size_mod" and "\<forall>l \<in> set (fst (lines_of (p @ concat chunks))). line_ok l"
  shows "\<exists>w' c' cmd' qb'. worker_loop w k cmd qb (map RecvData chunks) =
      Inr (if sock c' = -1 then Finished else Waiting, w', cmd', qb') \<and> conn w' k c' cmd' \<and>
    served w k c (spec_run (fst (lines_of (p @ concat chunks))) (abs_of w c)) w'"
  using assms
proof (induction chunks arbitrary: w c cmd qb p)
  case Nil
  then show ?case
    using served_refl [of w k c] lines_of_simps(1) [of p] by (auto simp: conn_def)
next
  case (Cons x xs)
  obtain qb1 where A: "strbuf_append_noterm [] (Some qb) (Some x) (length x) = Inr (0, Some qb1, [])"
      "sb_holds_raw qb1 (p @ x)"
    using strbuf_append_noterm_ok [OF Cons.prems(3), of "length x" x] Cons.prems(5) by auto
  have m: "w_mem w = []" "w\<lparr>w_mem := []\<rparr> = w" using Cons.prems(1) by (auto simp: conn_def)
  have L: "lines_of (p @ concat (x # xs)) =
      (fst (lines_of (p @ x)) @ fst (lines_of (snd (lines_of (p @ x)) @ concat xs)),
       snd (lines_of (snd (lines_of (p @ x)) @ concat xs)))"
    using lines_of_append [of "p @ x" "concat xs"] by simp
  let ?sp = "spec_run (fst (lines_of (p @ x))) (abs_of w c)"
  obtain w1 c1 cmd1 qb2 where R: "run_commands w k cmd qb1 = Inr (sock c1 \<noteq> -1, w1, cmd1, qb2)"
      "conn w1 k c1 cmd1" "served w k c ?sp w1" "sock c1 \<noteq> -1 \<longrightarrow> sb_holds_raw qb2 (snd (lines_of (p @ x)))"
    using run_commands_lines [OF Cons.prems(1,2) A(2)] Cons.prems(6) unfolding L by auto
  have a1: "abs_of w1 c1 = snd ?sp" and c1: "client_of w1 k = Inr c1"
    using R(2,3) by (auto simp: served_def conn_def)
  have step: "worker_loop w k cmd qb (map RecvData (x # xs)) =
      (if sock c1 \<noteq> -1 then worker_loop w1 k cmd1 qb2 (map RecvData xs) else Inr (Finished, w1, cmd1, qb2))"
    using A(1) R(1) m by simp
  have app: "a_open (abs_of w c)" using Cons.prems(2) by simp
  show ?case
  proof (cases "sock c1 = -1")
    case True
    then have "\<not> a_open (snd ?sp)" using a1 by (metis a_open_abs_of)
    then have "spec_run (fst (lines_of (p @ concat (x # xs)))) (abs_of w c) = ?sp"
      by (simp only: L fst_conv) (simp add: spec_run_append [OF app] split_beta)
    then show ?thesis
      unfolding step using True R(2,3) by (intro exI [of _ w1] exI [of _ c1]) simp
  next
    case False
    then have op: "a_open (snd ?sp)" using a1 by (metis a_open_abs_of)
    let ?q = "snd (lines_of (p @ x))"
    have "length ?q \<le> length (p @ x)" by (rule lines_of_rest_length)
    then have "length (?q @ concat xs) < size_mod" using Cons.prems(5) by simp
    then obtain w2 c2 cmd2 qb3 where R2: "worker_loop w1 k cmd1 qb2 (map RecvData xs) =
        Inr (if sock c2 = -1 then Finished else Waiting, w2, cmd2, qb3)" "conn w2 k c2 cmd2"
        "served w1 k c1 (spec_run (fst (lines_of (?q @ concat xs))) (snd ?sp)) w2"
      using Cons.IH [OF R(2) False _ lines_of_rest [of "p @ x"], of qb2] R(4) False Cons.prems(6)
      unfolding L a1 by auto
    have "served w k c (fst ?sp @ fst (spec_run (fst (lines_of (?q @ concat xs))) (snd ?sp)),
        snd (spec_run (fst (lines_of (?q @ concat xs))) (snd ?sp))) w2"
      using served_trans [OF _ c1 op] R(3) R2(3) by (metis prod.collapse)
    moreover have "spec_run (fst (lines_of (p @ concat (x # xs)))) (abs_of w c) =
        (fst ?sp @ fst (spec_run (fst (lines_of (?q @ concat xs))) (snd ?sp)),
         snd (spec_run (fst (lines_of (?q @ concat xs))) (snd ?sp)))"
      using op by (simp only: L fst_conv) (simp add: spec_run_append [OF app] split_beta)
    ultimately show ?thesis
      unfolding step using False R2(1,2) by (intro exI [of _ w2] exI [of _ c2]) simp
  qed
qed

lemma worker_serves:
  assumes "world_wf w" and "calm w" and "small_values w" and "k < MAX_CONN" and "client_of w k = Inr c"
    and "sock c \<noteq> -1" and "length (concat chunks) < size_mod" and "\<forall>l \<in> set (fst (lines_of (concat chunks))). line_ok l"
  shows "\<exists>w' c'. worker_handle_client w k (map RecvData chunks) =
      Inr (if sock c' = -1 then Finished else Waiting, w') \<and> client_of w' k = Inr c' \<and> world_wf w' \<and>
    served w k c (spec_run (fst (lines_of (concat chunks))) (abs_of w c)) w'"
proof -
  obtain cmd m where i: "cmd_init [] = (Some cmd, m)"
    by (simp add: cmd_init_def)
  note i' = toks_wf_init [OF i]
  let ?qb = "\<lparr>sb_buf = fresh_block BUFSIZ, sb_len = 0, sb_cap = BUFSIZ\<rparr>"
  have "conn w k c cmd" using assms i' by (simp add: conn_def)
  moreover have "sb_holds_raw ?qb []"
    by (simp add: sb_holds_raw_def sb_wf_def BUFSIZ_def size_mod_def)
  ultimately obtain w' c' cmd' qb' where "worker_loop w k cmd ?qb (map RecvData chunks) =
      Inr (if sock c' = -1 then Finished else Waiting, w', cmd', qb')" "conn w' k c' cmd'"
      "served w k c (spec_run (fst (lines_of (concat chunks))) (abs_of w c)) w'"
    using worker_loop_serves [of w k c cmd ?qb "[]" chunks] assms by auto
  with assms(2) i i' show ?thesis
    by (intro exI [of _ w'] exI [of _ c']) (simp add: worker_handle_client_def worker_start_def Let_def conn_def)
qed

section \<open>Properties\<close>

text \<open>
C5. A connection is served as specified.  On a well-formed server with nothing failing, the
thread of a connection that receives the bytes of a stream, cut into any pieces, answers the
complete lines of the stream in order, each with the reply \<open>spec_step\<close> gives, until a QUIT; it
ends in the abstract state \<open>spec_run\<close> gives, finished if the connection was closed and waiting for
more otherwise; and it leaves the other clients and the files alone.
\<close>
theorem connection_served:
  assumes "world_wf w" and "calm w" and "small_values w" and "k < MAX_CONN" and "client_of w k = Inr c"
    and "sock c \<noteq> -1" and "length (concat chunks) < size_mod" and "\<forall>l \<in> set (fst (lines_of (concat chunks))). line_ok l"
  shows "\<exists>w' c'. worker_handle_client w k (map RecvData chunks) =
      Inr (if sock c' = -1 then Finished else Waiting, w') \<and> client_of w' k = Inr c' \<and> world_wf w' \<and>
    served w k c (spec_run (fst (lines_of (concat chunks))) (abs_of w c)) w'"
  using worker_serves [OF assms] .

definition sample_stream :: string where
  "sample_stream = ''GET k'' @ CRLF @ ''QUIT'' @ CRLF @ ''GET''"

lemma sample_lines: "fst (lines_of sample_stream) = [''GET k'', ''QUIT'']"
proof -
  have "read_line sample_stream = Some (''GET k'', ''QUIT'' @ CRLF @ ''GET'')"
    "read_line (''QUIT'' @ CRLF @ ''GET'') = Some (''QUIT'', ''GET'')" "\<not> has_crlf ''GET''"
    by (simp_all add: sample_stream_def CRLF_def char_consts)
  then show ?thesis by (simp add: lines_of_simps)
qed

lemma sample_words: "words (''GET k'' @ CRLF) = [''GET'', ''k'']" "words (''QUIT'' @ CRLF) = [''QUIT'']"
  by (simp_all add: words_def CRLF_def is_delim_def char_consts cut_def)

lemmas sample_words_simps = sample_words [simplified]

lemma sample_line_ok: "\<forall>l \<in> set (fst (lines_of sample_stream)). line_ok l"
  by (simp add: sample_lines line_ok_def sample_words_simps data_command_def command_of_def)

lemma sample_run:
  "spec_run (fst (lines_of sample_stream)) (abs_of sample_world zero_client) =
     ([RBulk ''7'', RSimple ''OK''], (abs_of sample_world zero_client)\<lparr>a_open := False\<rparr>)"
  by (simp add: sample_lines sample_words_simps spec_step_def Let_def command_of_def abs_of_def zero_client_def db_map_sample)

lemma sample_small_values: "small_values sample_world"
  using sample_small by (simp add: small_values_def)

theorem connection_served_witness:
  "\<exists>w'. worker_handle_client sample_world 3 [RecvData (take 6 sample_stream), RecvData (drop 6 sample_stream)] =
     Inr (Finished, w') \<and>
   sends (trace w') = [(0, bulk_msg (Some ''7'')), (0, ok_msg)]"
proof -
  have c: "client_of sample_world 3 = Inr zero_client"
    by (simp add: client_of_sample MAX_CONN_def)
  have cs: "concat [take 6 sample_stream, drop 6 sample_stream] = sample_stream"
    by simp
  have "length sample_stream < size_mod"
    by (simp add: sample_stream_def CRLF_def size_mod_def)
  then obtain w' c' where w': "worker_handle_client sample_world 3 [RecvData (take 6 sample_stream), RecvData (drop 6 sample_stream)] =
      Inr (if sock c' = -1 then Finished else Waiting, w')" "client_of w' 3 = Inr c'"
      "served sample_world 3 zero_client (spec_run (fst (lines_of sample_stream)) (abs_of sample_world zero_client)) w'"
    using connection_served [OF sample_world_wf(1,2) sample_small_values _ c,
        of "[take 6 sample_stream, drop 6 sample_stream]"] sample_line_ok
    unfolding cs by (auto simp: MAX_CONN_def zero_client_def)
  moreover have "trace sample_world = []" by (simp add: sample_world_def)
  moreover have "\<not> a_open (abs_of w' c')"
    using w'(2,3) unfolding sample_run by (auto simp: served_def)
  then have "sock c' = -1" by simp
  ultimately show ?thesis
    unfolding sample_run by (auto simp: served_def zero_client_def ok_msg_def)
qed

text \<open>
C22. How the network cuts the stream does not matter: two runs of the thread that receive the
same bytes in different pieces send the same messages, end the same way and leave the same
databases, the same selected database and the same openness of the connection.
\<close>
theorem fragmentation_irrelevant:
  assumes "world_wf w" and "calm w" and "small_values w" and "k < MAX_CONN" and "client_of w k = Inr c"
    and "sock c \<noteq> -1" and "length (concat xs) < size_mod" and "\<forall>l \<in> set (fst (lines_of (concat xs))). line_ok l"
    and "concat xs = concat ys"
  shows "\<exists>th w1 w2 c1 c2. worker_handle_client w k (map RecvData xs) = Inr (th, w1) \<and>
    worker_handle_client w k (map RecvData ys) = Inr (th, w2) \<and>
    (\<exists>es1 es2. trace w1 = trace w @ es1 \<and> trace w2 = trace w @ es2 \<and> sends es1 = sends es2) \<and>
    client_of w1 k = Inr c1 \<and> client_of w2 k = Inr c2 \<and> abs_of w1 c1 = abs_of w2 c2"
proof -
  obtain w1 c1 where 1: "worker_handle_client w k (map RecvData xs) =
      Inr (if sock c1 = -1 then Finished else Waiting, w1)" "client_of w1 k = Inr c1"
      "served w k c (spec_run (fst (lines_of (concat xs))) (abs_of w c)) w1"
    using worker_serves [OF assms(1-8)] by blast
  obtain w2 c2 where 2: "worker_handle_client w k (map RecvData ys) =
      Inr (if sock c2 = -1 then Finished else Waiting, w2)" "client_of w2 k = Inr c2"
      "served w k c (spec_run (fst (lines_of (concat xs))) (abs_of w c)) w2"
    using worker_serves [OF assms(1-6), of ys] assms(7-9) by auto
  have "abs_of w1 c1 = abs_of w2 c2"
    using 1(2,3) 2(2,3) by (auto simp: served_def)
  moreover from this have "sock c1 = -1 \<longleftrightarrow> sock c2 = -1"
    by (metis a_open_abs_of)
  ultimately show ?thesis
    using 1 2 by (fastforce simp: served_def)
qed

theorem fragmentation_irrelevant_witness:
  "\<exists>th w1 w2. worker_handle_client sample_world 3 [RecvData sample_stream] = Inr (th, w1) \<and>
    worker_handle_client sample_world 3 (map (\<lambda>c. RecvData [c]) sample_stream) = Inr (th, w2) \<and>
    sends (trace w1) = sends (trace w2)"
proof -
  have c: "client_of sample_world 3 = Inr zero_client"
    by (simp add: client_of_sample MAX_CONN_def)
  have l: "length (concat [sample_stream]) < size_mod"
    by (simp add: sample_stream_def CRLF_def size_mod_def)
  have "concat [sample_stream] = concat (map (\<lambda>c. [c]) sample_stream)" by simp
  from fragmentation_irrelevant [OF sample_world_wf(1,2) sample_small_values _ c _ l _ this] sample_line_ok
  show ?thesis by (auto simp: MAX_CONN_def zero_client_def comp_def)
qed

text \<open>
\<open>find_crlf\<close> finds the end of the first line: on a buffer that holds the bytes \<open>s\<close> it returns
0 if there is no CR LF in \<open>s\<close>, and otherwise the position behind the first one, reading only
bytes the buffer holds.
\<close>
lemma find_crlf_first:
  assumes "sb_holds_raw qb s"
  shows "\<exists>n. find_crlf (sb_buf qb) (sb_len qb) = Inr n \<and> (n = 0 \<longleftrightarrow> \<not> has_crlf s) \<and>
    (n \<noteq> 0 \<longrightarrow> 2 \<le> n \<and> n \<le> length s \<and> take 2 (drop (n - 2) s) = CRLF \<and> \<not> has_crlf (take (n - 1) s))"
proof (cases "read_line s")
  case None
  then show ?thesis using find_crlf_line [OF assms] by (simp flip: read_line_None)
next
  case (Some p)
  obtain l r where p: "read_line s = Some (l, r)" using Some by (cases p) auto
  have "has_crlf s" using p read_line_None [of s] by auto
  then show ?thesis
    using find_crlf_line [OF assms] read_line_eq [OF p] p by (simp add: CRLF_def)
qed

end
