(* ===== verification/Effects.thy ===== *)
theory Effects
  imports Commands
begin

text \<open>
  What a command may do to the world, as a relation between the world before and after it.  The
  locale \<open>effect\<close> is the interface: a relation that composes and that the system calls and the
  allocator respect.  Inside it the replies and the combinators of the handlers are shown to
  respect the relation once for all, so that a handler is shown to by following its steps.  The
  relation interpreted here is that a command leaves the sockets, the threads and the number of the
  connections alone, which all commands but \<open>QUIT\<close> do.
\<close>

section \<open>The interface\<close>

definition handled_ok :: "(World \<Rightarrow> World \<Rightarrow> bool) \<Rightarrow> World \<Rightarrow> handled \<Rightarrow> bool" where
  "handled_ok R w h \<longleftrightarrow> (\<forall>rc rp w'. h = Inr (rc, rp, w') \<longrightarrow> R w w')"

named_theorems handled \<open>handlers built from parts that respect a relation respect it\<close>

lemma handled_okD: "handled_ok R w h \<Longrightarrow> h = Inr (rc, rp, w') \<Longrightarrow> R w w'"
  by (auto simp: handled_ok_def)

lemma handled_Inr [handled]: "R w u \<Longrightarrow> handled_ok R w (Inr (rc, rp, u))"
  by (simp add: handled_ok_def)

lemma handled_Inl [handled]: "handled_ok R w (Inl u)"
  by (simp add: handled_ok_def)

lemma handled_bind [handled]:
  "(\<And>x. m = Inr x \<Longrightarrow> handled_ok R w (f x)) \<Longrightarrow> handled_ok R w (res_bind m f)"
  by (auto simp: handled_ok_def res_bind_eq_Inr)

lemma handled_return_0 [handled]: "handled_ok R w h \<Longrightarrow> handled_ok R w (return_0 h)"
  by (auto simp: handled_ok_def return_0_def res_bind_eq_Inr)

locale effect =
  fixes R :: "World \<Rightarrow> World \<Rightarrow> bool"
  assumes R_refl: "R w w"
    and R_trans: "R w u \<Longrightarrow> R u v \<Longrightarrow> R w v"
    and R_mem: "R w (w\<lparr>w_mem := m\<rparr>)"
    and R_send: "sys_send w fd msg = (n, w') \<Longrightarrow> R w w'"
    and R_close: "sys_close w fd = (n, w') \<Longrightarrow> R w w'"
begin

lemma R_reply_send:
  assumes "reply_send w k rp = Inr (rc, w')"
  shows "R w w'"
proof (cases rp)
  case (Some r)
  show ?thesis
  proof (cases "r_msg r")
    case (Some msg)
    with assms \<open>rp = Some r\<close> obtain c where c: "client_of w k = Inr c"
      by (auto simp: reply_send_def res_bind_eq_Inr)
    obtain n u where "sys_send w (sock c) msg = (n, u)" by fastforce
    with assms c Some \<open>rp = Some r\<close> show ?thesis
      by (auto simp: reply_send_def R_send split: if_splits)
  qed (use assms Some R_refl in \<open>auto simp: reply_send_def res_bind_eq_Inr\<close>)
qed (use assms R_refl in \<open>auto simp: reply_send_def res_bind_eq_Inr\<close>)

lemma R_format_msg: "format_msg w s = Inr (mp, w') \<Longrightarrow> R w w'"
  by (cases "malloc (w_mem w)") (auto simp: format_msg_def R_mem split: if_splits bool.splits)

lemma R_reply_text: "reply_text u r k s e = Inr (rc, rp, w') \<Longrightarrow> R u w'"
  by (auto simp: reply_text_def Let_def res_bind_eq_Inr split: option.splits
      dest!: R_format_msg R_reply_send intro: R_trans)

lemma with_client_R [handled]:
  "(\<And>c. client_of w k = Inr c \<Longrightarrow> handled_ok R w (f c)) \<Longrightarrow> handled_ok R w (with_client w k rp f)"
  by (auto simp: with_client_def R_refl intro!: handled split: option.split)

lemma replies_R [handled]:
  assumes "R w u"
  shows "handled_ok R w (reply_nil u rp cmdp k)" "handled_ok R w (reply_bulk_str u rp cmdp k v)"
    "handled_ok R w (reply_integer u rp k n)" "handled_ok R w (reply_ok u rp k)" "handled_ok R w (reply_err u rp k m)"
  using R_reply_text R_trans [OF assms] assms
  by (auto simp: handled_ok_def reply_nil_def reply_bulk_str_def reply_integer_def reply_ok_def
      reply_simple_str_def reply_err_def res_bind_eq_Inr split: option.splits if_splits)

lemmas replied = replies_R [OF R_refl, THEN handled_okD]

lemma R_mem_after: "R w u \<Longrightarrow> R w (u\<lparr>w_mem := m\<rparr>)"
  using R_trans R_mem by blast

text \<open>A dispatcher whose handlers all respect the relation respects it.\<close>

lemma dispatched:
  assumes "cmd_dispatch cmdp w k = Inr (rc, w')"
    and "\<And>cmd u rp. cmdp = Some cmd \<Longrightarrow> entry cmd \<noteq> CMD_QUIT \<Longrightarrow>
      handled_ok R u (case entry cmd of CMD_GET \<Rightarrow> cmd_get u cmd k rp | CMD_SET \<Rightarrow> cmd_set u cmd k rp
        | CMD_DEL \<Rightarrow> cmd_del u cmd k rp | CMD_SELECT \<Rightarrow> cmd_select u cmd k rp | CMD_SAVE \<Rightarrow> cmd_save cmd u k rp
        | CMD_LOAD \<Rightarrow> cmd_load cmd u k rp | CMD_INFO \<Rightarrow> cmd_info u cmd k rp | CMD_INCR \<Rightarrow> cmd_incr u cmd k rp
        | _ \<Rightarrow> reply_err u rp k CMD_ERR_MSG_UNKNOWN)"
  shows "R w w' \<or> (\<exists>cmd m rp rc rp'. cmdp = Some cmd \<and> entry cmd = CMD_QUIT \<and>
    cmd_quit (w\<lparr>w_mem := m\<rparr>) cmd k rp = Inr (rc, rp', w'))"
proof -
  have "\<exists>rp m. reply_new w = (rp, w\<lparr>w_mem := m\<rparr>)"
    by (cases "malloc (w_mem w)"; cases "fst (malloc (w_mem w))") (auto simp: reply_new_def)
  then obtain rp m where n: "reply_new w = (rp, w\<lparr>w_mem := m\<rparr>)" by blast
  consider "w' = w" | cmd rc1 rp1 where "cmdp = Some cmd"
      "(case entry cmd of CMD_GET \<Rightarrow> cmd_get (w\<lparr>w_mem := m\<rparr>) cmd k rp | CMD_SET \<Rightarrow> cmd_set (w\<lparr>w_mem := m\<rparr>) cmd k rp
        | CMD_DEL \<Rightarrow> cmd_del (w\<lparr>w_mem := m\<rparr>) cmd k rp | CMD_QUIT \<Rightarrow> cmd_quit (w\<lparr>w_mem := m\<rparr>) cmd k rp
        | CMD_SELECT \<Rightarrow> cmd_select (w\<lparr>w_mem := m\<rparr>) cmd k rp | CMD_SAVE \<Rightarrow> cmd_save cmd (w\<lparr>w_mem := m\<rparr>) k rp
        | CMD_LOAD \<Rightarrow> cmd_load cmd (w\<lparr>w_mem := m\<rparr>) k rp | CMD_INFO \<Rightarrow> cmd_info (w\<lparr>w_mem := m\<rparr>) cmd k rp
        | CMD_INCR \<Rightarrow> cmd_incr (w\<lparr>w_mem := m\<rparr>) cmd k rp
        | CMD_UNKNOWN \<Rightarrow> reply_err (w\<lparr>w_mem := m\<rparr>) rp k CMD_ERR_MSG_UNKNOWN) = Inr (rc1, rp1, w')"
    using assms(1) n by (auto simp: cmd_dispatch_def res_bind_eq_Inr split: option.splits if_splits)
  then show ?thesis
  proof cases
    case 1
    then show ?thesis by (simp add: R_refl)
  next
    case (2 cmd rc1 rp1)
    show ?thesis
    proof (cases "entry cmd = CMD_QUIT")
      case True
      with 2 show ?thesis by auto
    next
      case False
      from assms(2) [OF 2(1) False, of "w\<lparr>w_mem := m\<rparr>" rp] 2(2) False
      have "R (w\<lparr>w_mem := m\<rparr>) w'" by (auto split: CmdCode.splits dest: handled_okD)
      then show ?thesis using R_trans R_mem by blast
    qed
  qed
qed

end

lemma emit_mem [simp]: "(emit es w)\<lparr>w_mem := m\<rparr> = emit es (w\<lparr>w_mem := m\<rparr>)"
  by (simp add: emit_def)

section \<open>The connections are kept\<close>

definition same_conns :: "World \<Rightarrow> World \<Rightarrow> bool" where
  "same_conns w w' \<longleftrightarrow> conns w' = conns w"

lemma conns_server: "server w' = server w \<Longrightarrow> conns w' = conns w"
  by (simp add: conns_def)

lemma sys_call_conns:
  "sys_send w fd msg = (n, w') \<Longrightarrow> conns w' = conns w" "sys_close w fd = (n, w') \<Longrightarrow> conns w' = conns w"
  by (auto simp: sys_send_def sys_close_def intro!: conns_server split: list.splits option.splits bool.splits)

interpretation sc: effect same_conns
  by unfold_locales (auto simp: same_conns_def dest: sys_call_conns)

lemma same_conns_steps [handled]:
  "same_conns w w" "same_conns w (w\<lparr>w_mem := m\<rparr>)" "same_conns w (emit es w)" "same_conns w (emit es (w\<lparr>w_mem := m\<rparr>))"
  "same_conns w (emit es (put_table d t w))" "same_conns w (emit es (put_table d t (w\<lparr>w_mem := m\<rparr>)))"
  "client_of w k = Inr c \<Longrightarrow> same_conns w (put_client k (c\<lparr>db := n\<rparr>) w)"
  by (simp_all add: same_conns_def conns_put_client)

lemma rdb_save_conns: "rdb_save w p = Inr (rc, w') \<Longrightarrow> same_conns w w'"
  by (auto simp: rdb_save_def res_bind_eq_Inr Let_def same_conns_def split: option.splits if_splits)

lemma rdb_load_conns: "rdb_load (emit es w) p = Inr (rc, w') \<Longrightarrow> same_conns w (emit fs w')"
  using rdb_load_keeps [of "emit es w"] by (simp add: same_conns_def load_keeps_def)

lemma handlers_same_conns:
  "handled_ok same_conns w (cmd_get w cmd k rp)" "handled_ok same_conns w (cmd_set w cmd k rp)"
  "handled_ok same_conns w (cmd_del w cmd k rp)" "handled_ok same_conns w (cmd_select w cmd k rp)"
  "handled_ok same_conns w (cmd_save cmd w k rp)" "handled_ok same_conns w (cmd_load cmd w k rp)"
  "handled_ok same_conns w (cmd_info w cmd k rp)" "handled_ok same_conns w (cmd_incr w cmd k rp)"
  unfolding cmd_get_def cmd_set_def cmd_del_def cmd_select_def cmd_save_def cmd_load_def cmd_info_def
    cmd_incr_def Let_def
  by (intro handled; auto split: option.split prod.split bool.split intro!: handled dest!: rdb_save_conns
        intro: rdb_load_conns dest!: sc.replied)+

text \<open>\<open>QUIT\<close> takes the connection off the count and marks its slot, or changes nothing of them.\<close>

definition left :: "World \<Rightarrow> nat \<Rightarrow> World \<Rightarrow> bool" where
  "left w k w' \<longleftrightarrow> (\<exists>socks ths n. k < length socks \<and> conns w = Some (socks, ths, n) \<and>
     conns w' = Some (socks[k := -1], ths, n - 1))"

lemma conns_left:
  assumes "client_of w k = Inr c" and "conns u = conns w"
  shows "left w k (emit es (add_clients (-1) (put_client k (c\<lparr>sock := -1\<rparr>) u)))"
  using assms
  by (auto simp: left_def conns_def client_of_def add_clients_def put_client_def map_update
      split: option.splits if_splits)

lemma quit_conns:
  assumes "cmd_quit w cmd k rp = Inr (rc, rp', w')"
  shows "same_conns w w' \<or> left w k w'"
proof -
  consider "w' = w" | c rc1 where "client_of w k = Inr c" "reply_err w rp k (wrong_args ''QUIT'') = Inr (rc1, rp', w')"
    | c rc1 w1 w2 where "client_of w k = Inr c" "reply_ok w rp k = Inr (rc1, rp', w1)"
        "w2 = snd (sys_close w1 (sock c))" "w' = w2 \<or> w' = emit [WrLock ServerLock, Unlock ServerLock]
          (add_clients (-1) (put_client k (c\<lparr>sock := -1\<rparr>) w2))"
    using assms
    by (auto simp: cmd_quit_def with_client_def return_0_def res_bind_eq_Inr Let_def split_beta
        split: option.splits if_splits)
  then show ?thesis
  proof cases
    case (2 c rc1)
    then show ?thesis using sc.replied(5) by blast
  next
    case (3 c rc1 w1 w2)
    then have "conns w2 = conns w"
      using sc.replied(4) [of w rp k rc1 rp' w1] sys_call_conns(2) [OF prod.collapse [symmetric]]
      by (simp add: same_conns_def)
    with 3 conns_left [OF 3(1)] show ?thesis by (auto simp: same_conns_def)
  qed (simp add: same_conns_def)
qed

lemma dispatch_conns:
  assumes "cmd_dispatch cmdp w k = Inr (rc, w')"
  shows "same_conns w w' \<or> left w k w'"
proof -
  have "same_conns w w' \<or> (\<exists>cmd m rp rc rp'. cmdp = Some cmd \<and> entry cmd = CMD_QUIT \<and>
    cmd_quit (w\<lparr>w_mem := m\<rparr>) cmd k rp = Inr (rc, rp', w'))"
    using assms by (rule sc.dispatched) (auto split: CmdCode.split intro: handlers_same_conns handled)
  then show ?thesis
    using quit_conns by (fastforce simp: same_conns_def left_def)
qed

section \<open>The command buffers are kept\<close>

definition same_bufs :: "World \<Rightarrow> World \<Rightarrow> bool" where
  "same_bufs w w' \<longleftrightarrow> w_bufs w' = w_bufs w \<and> w_next w' = w_next w"

interpretation sb: effect same_bufs
  by unfold_locales
    (auto simp: same_bufs_def sys_send_def sys_close_def split: list.splits option.splits bool.splits)

lemma same_bufs_steps [handled]:
  "same_bufs w w" "same_bufs w (w\<lparr>w_mem := m\<rparr>)" "same_bufs w (emit es w)" "same_bufs w (emit es (w\<lparr>w_mem := m\<rparr>))"
  "same_bufs w (emit es (put_table d t w))" "same_bufs w (emit es (put_table d t (w\<lparr>w_mem := m\<rparr>)))"
  "same_bufs w (put_client k c w)"
  by (simp_all add: same_bufs_def)

lemma rdb_save_bufs: "rdb_save w p = Inr (rc, w') \<Longrightarrow> same_bufs w w'"
  by (auto simp: rdb_save_def res_bind_eq_Inr Let_def same_bufs_def split: option.splits if_splits)

lemma rdb_load_bufs: "rdb_load (emit es w) p = Inr (rc, w') \<Longrightarrow> same_bufs w (emit fs w')"
  using rdb_load_keeps [of "emit es w"] by (simp add: same_bufs_def load_keeps_def)

lemma handlers_same_bufs:
  "handled_ok same_bufs w (cmd_get w cmd k rp)" "handled_ok same_bufs w (cmd_set w cmd k rp)"
  "handled_ok same_bufs w (cmd_del w cmd k rp)" "handled_ok same_bufs w (cmd_select w cmd k rp)"
  "handled_ok same_bufs w (cmd_save cmd w k rp)" "handled_ok same_bufs w (cmd_load cmd w k rp)"
  "handled_ok same_bufs w (cmd_info w cmd k rp)" "handled_ok same_bufs w (cmd_incr w cmd k rp)"
  unfolding cmd_get_def cmd_set_def cmd_del_def cmd_select_def cmd_save_def cmd_load_def cmd_info_def
    cmd_incr_def Let_def
  by (intro handled; auto split: option.split prod.split bool.split intro!: handled dest!: rdb_save_bufs
        intro: rdb_load_bufs dest!: sb.replied)+

lemma quit_same_bufs: "handled_ok same_bufs w (cmd_quit w cmd k rp)"
  unfolding cmd_quit_def Let_def
  by (intro handled) (auto split: prod.split intro!: handled dest!: sb.replied sb.R_close simp: same_bufs_def)

lemma dispatch_bufs:
  assumes "cmd_dispatch cmdp w k = Inr (rc, w')"
  shows "w_bufs w' = w_bufs w \<and> w_next w' = w_next w"
proof -
  have "same_bufs w w' \<or> (\<exists>cmd m rp rc rp'. cmdp = Some cmd \<and> entry cmd = CMD_QUIT \<and>
    cmd_quit (w\<lparr>w_mem := m\<rparr>) cmd k rp = Inr (rc, rp', w'))"
    using assms by (rule sb.dispatched) (auto split: CmdCode.split intro: handlers_same_bufs handled)
  then show ?thesis
    using handled_okD [OF quit_same_bufs] by (fastforce simp: same_bufs_def)
qed

end
