(* ===== verification/StaleTokens.thy ===== *)
theory StaleTokens
  imports Worker Effects
begin

text \<open>
  What a connection can do with the token slots that an earlier command left behind.  The slots of the
  token array are not cleared between commands, and the buffer they point into is freed after each
  command, so that a handler that reads a slot past the number of tokens, as those of \<open>SAVE\<close> and
  \<open>LOAD\<close> do, reads freed memory.  The result follows the bytes of the connection through the worker,
  the parser and the dispatcher.
\<close>

text \<open>After a command with a second word, the second slot points into a freed buffer.\<close>

definition stale :: "World \<Rightarrow> Cmd \<Rightarrow> bool" where
  "stale w cmd \<longleftrightarrow> (\<exists>bid off. tok_at (tokens cmd) 1 = Inr (TPtr bid off) \<and> w_bufs w bid = None \<and> bid < w_next w)"

lemma spec_step_open: "1 < length ws \<Longrightarrow> a_open a \<Longrightarrow> a_open (snd (spec_step ws a))"
  by (auto simp: spec_step_def Let_def put_key_def split: CmdCode.split option.split)

lemma slot_caps: "toks_wf t \<Longrightarrow> 1 < t_cap t \<and> length (t_buf t) = t_cap t"
  by (simp add: toks_wf_def TOKENS_INIT_CAP_def)

lemma tokens_read_ptr: "tokens_read bid st b ps ws \<Longrightarrow> i < length ws \<Longrightarrow> \<exists>off. ps ! i = TPtr bid off"
  by (auto simp: tokens_read_def list_all2_conv_all_nth)

lemma two_words_stale:
  assumes cn: "conn w k c cmd" "sock c \<noteq> -1" and qb: "sb_holds_raw qb (l @ CRLF @ r)"
    and ok: "line_ok l" "1 < length (words (l @ CRLF))"
  shows "\<exists>w' c' cmd' qb'. run_command w k cmd qb (length l + 2) = Inr (True, w', cmd', qb') \<and>
    sb_holds_raw qb' r \<and> conn w' k c' cmd' \<and> sock c' \<noteq> -1 \<and> stale w' cmd'"
proof -
  let ?s = "l @ CRLF"
  have len: "length l < 2 ^ 28" and data: "data_command (words ?s)" using ok(1) by (simp_all add: line_ok_def)
  obtain cmd1 b u qb' where P: "u = w\<lparr>w_next := w_next w + 1, w_mem := [], w_bufs := (w_bufs w)(w_next w \<mapsto> b)\<rparr>"
      "toks_wf (tokens cmd1)" "tokens_read (w_next w) (w_bufs w) b (toks (tokens cmd1)) (words ?s)"
      "serving u k c cmd1 (words ?s)" "small_values u" "words_size (words ?s) < 2 ^ 30"
      "\<And>rc w2 c2. cmd_dispatch (Some cmd1) u k = Inr (rc, w2) \<Longrightarrow> client_of w2 k = Inr c2 \<Longrightarrow>
        run_command w k cmd qb (length l + 2) =
          Inr (sock c2 \<noteq> -1, w2\<lparr>w_bufs := (w_bufs w2)(w_next w := None)\<rparr>, cmd1, qb')"
    using line_parsed [OF cn qb len] by blast
  obtain w2 where D: "cmd_dispatch (Some cmd1) u k = Inr (0, w2)"
      "command_done (\<not> get_hit u c (words ?s)) u k c (spec_step (words ?s) (abs_of u c)) w2"
    using dispatch_refines_spec [OF P(4,5) data P(6)] by blast
  then obtain c2 where c2: "client_of w2 k = Inr c2" by (auto simp: command_done_def)
  from run_command_line [OF cn qb len data] P(7) [OF D(1) c2]
  have R: "run_command w k cmd qb (length l + 2) = Inr (sock c2 \<noteq> -1, w2\<lparr>w_bufs := (w_bufs w2)(w_next w := None)\<rparr>, cmd1, qb')"
      "sb_holds_raw qb' r" "\<exists>c'. conn (w2\<lparr>w_bufs := (w_bufs w2)(w_next w := None)\<rparr>) k c' cmd1 \<and>
        served w k c (case spec_step (words ?s) (abs_of w c) of (x, a) \<Rightarrow> ([x], a)) (w2\<lparr>w_bufs := (w_bufs w2)(w_next w := None)\<rparr>)"
    by auto
  let ?w3 = "w2\<lparr>w_bufs := (w_bufs w2)(w_next w := None)\<rparr>"
  have cn3: "conn ?w3 k c2 cmd1" using R(3) c2 by (auto simp: conn_def)
  have "abs_of ?w3 c2 = snd (spec_step (words ?s) (abs_of w c))"
    using R(3) c2 by (auto simp: served_def split: prod.splits)
  then have open2: "sock c2 \<noteq> -1"
    using spec_step_open [OF ok(2), of "abs_of w c"] cn(2) a_open_abs_of by metis
  have "length (toks (tokens cmd1)) = length (words ?s)" using tokens_read_length [OF P(3)] .
  then have "toks (tokens cmd1) ! 1 = t_buf (tokens cmd1) ! 1"
    using ok(2) by (simp add: toks_def)
  then obtain off where "tok_at (tokens cmd1) 1 = Inr (TPtr (w_next w) off)"
    using tokens_read_ptr [OF P(3) ok(2)] slot_caps [OF P(2)] by (auto simp: tok_at_def)
  moreover have "w_next ?w3 = w_next w + 1" using dispatch_bufs [OF D(1)] P(1) by simp
  ultimately have "stale ?w3 cmd1" by (auto simp: stale_def)
  then show ?thesis using R(1,2) cn3 open2 by auto
qed

lemma one_word_dangling:
  assumes cn: "conn w k c cmd" "sock c \<noteq> -1" "stale w cmd" and qb: "sb_holds_raw qb (l @ CRLF @ r)"
    and len: "length l < 2 ^ 28" and ws: "words (l @ CRLF) = [name]" "name \<in> {''SAVE'', ''LOAD''}"
  shows "run_command w k cmd qb (length l + 2) = Inl Dangling"
proof -
  obtain cmd1 b u where P: "u = w\<lparr>w_next := w_next w + 1, w_mem := [], w_bufs := (w_bufs w)(w_next w \<mapsto> b)\<rparr>"
      "serving u k c cmd1 [name]" "toks_wf (tokens cmd1)"
      "\<forall>i. 1 \<le> i \<longrightarrow> i < t_cap (tokens cmd) \<longrightarrow> t_buf (tokens cmd1) ! i = t_buf (tokens cmd) ! i"
      "\<And>e. cmd_dispatch (Some cmd1) u k = Inl e \<Longrightarrow> run_command w k cmd qb (length l + 2) = Inl e"
    using line_parsed [OF cn(1,2) qb len] unfolding ws(1) by (force simp del: One_nat_def)
  from cn(3) obtain bid off where st: "tok_at (tokens cmd) 1 = Inr (TPtr bid off)" "w_bufs w bid = None" "bid < w_next w"
    by (auto simp: stale_def)
  have "toks_wf (tokens cmd)" using cn(1) by (simp add: conn_def)
  then have "tok_at (tokens cmd1) 1 = Inr (TPtr bid off)"
    using st(1) P(4) slot_caps P(3) by (auto simp: tok_at_def split: if_splits)
  then have "path_arg u cmd1 = Inl Dangling"
    using st(2,3) P(1) by (intro path_arg_dangling) auto
  then have "cmd_dispatch (Some cmd1) u k = Inl Dangling"
    using ws(2) by (auto simp: dispatch_serving [OF P(2)] command_of_def cmd_save_def cmd_load_def)
  then show ?thesis by (rule P(5))
qed

section \<open>The property\<close>

text \<open>
C27. A client can crash the server with two lines.  A connection whose first line is any command with
at least two words, other than INFO, SAVE and LOAD, and whose second line is a plain SAVE or LOAD
makes the thread read the path from the freed buffer of the first line.
\<close>
theorem two_lines_crash:
  assumes "world_wf w" and "calm w" and "small_values w" and "k < MAX_CONN" and "client_of w k = Inr c" and "sock c \<noteq> -1"
    and "line_ok l" and "\<not> has_crlf (l @ [CR])" and "1 < length (words (l @ CRLF))" and "name \<in> {''SAVE'', ''LOAD''}"
  shows "worker_handle_client w k [RecvData (l @ CRLF @ name @ CRLF)] = Inl Dangling"
proof -
  let ?s = "l @ CRLF @ name @ CRLF"
  obtain cmd m where i: "cmd_init [] = (Some cmd, m)" by (simp add: cmd_init_def)
  note i' = toks_wf_init [OF i]
  let ?qb = "\<lparr>sb_buf = fresh_block BUFSIZ, sb_len = 0, sb_cap = BUFSIZ\<rparr>"
  have cn: "conn w k c cmd" using assms i' by (simp add: conn_def)
  have "sb_holds_raw ?qb []"
    by (simp add: sb_holds_raw_def sb_wf_def BUFSIZ_def size_mod_def)
  moreover have "length ?s < size_mod"
    using assms(7,10) by (auto simp: line_ok_def size_mod_def CRLF_def)
  ultimately obtain qb1 where A: "strbuf_append_noterm [] (Some ?qb) (Some ?s) (length ?s) = Inr (0, Some qb1, [])"
      "sb_holds_raw qb1 ?s"
    using strbuf_append_noterm_ok [of ?qb "[]" "length ?s" ?s] by auto
  obtain w1 c1 cmd1 qb2 where R: "run_command w k cmd qb1 (length l + 2) = Inr (True, w1, cmd1, qb2)"
      "sb_holds_raw qb2 (name @ CRLF)" "conn w1 k c1 cmd1" "sock c1 \<noteq> -1" "stale w1 cmd1"
    using two_words_stale [OF cn assms(6) A(2) assms(7,9)] by blast
  have n: "length name < 2 ^ 28" "words (name @ CRLF) = [name]" "read_line (name @ CRLF) = Some (name, [])"
    using assms(10) by (auto simp: words_def CRLF_def is_delim_def char_consts cut_def)
  have l: "read_line ?s = Some (l, name @ CRLF)" using assms(8) by (rule read_line_crlf)
  have "run_command w1 k cmd1 qb2 (length name + 2) = Inl Dangling"
    using one_word_dangling [OF R(3,4,5) _ n(1,2) assms(10), of qb2 "[]"] R(2) by simp
  then have "run_commands w1 k cmd1 qb2 = Inl Dangling"
    using find_crlf_line [OF R(2)] n(3) by (subst run_commands.simps) simp
  then have "run_commands w k cmd qb1 = Inl Dangling"
    using find_crlf_line [OF A(2)] l R(1) by (subst run_commands.simps) simp
  then show ?thesis
    using A(1) assms(2) i i' by (simp add: worker_handle_client_def worker_start_def Let_def)
qed

theorem two_lines_crash_witness:
  "worker_handle_client sample_world 3 [RecvData (''GET k'' @ CRLF @ ''SAVE'' @ CRLF)] = Inl Dangling"
proof -
  have "client_of sample_world 3 = Inr zero_client" by (simp add: client_of_sample MAX_CONN_def)
  from two_lines_crash [OF sample_world_wf(1,2) sample_small_values _ this, of "''GET k''" "''SAVE''"]
  show ?thesis
    by (simp add: MAX_CONN_def zero_client_def line_ok_def sample_words_simps data_command_def command_of_def char_consts)
qed

end
