(* ===== verification/Threads.thy ===== *)
theory Threads
  imports LockDiscipline
begin

text \<open>
  Threads that run at the same time.  A thread is the list of the events it still has to cause,
  with the locks it holds; a step lets one thread cause its next event, and taking a lock has to
  wait as \<open>pthread_rwlock_rdlock\<close> and \<open>pthread_rwlock_wrlock\<close> say: for reading while another thread
  holds the lock for writing, for writing while another thread holds it at all.  Threads that take
  their locks in order never deadlock, and threads that obey the whole discipline never touch a
  bucket at the same time with one of them writing.
\<close>

type_synonym threads = "(event list \<times> held) list"

fun hold :: "event \<Rightarrow> held \<Rightarrow> held" where
  "hold (RdLock l) h = (l, False) # h"
| "hold (WrLock l) h = (l, True) # h"
| "hold (Unlock l) h = filter (\<lambda>(l', m). l' \<noteq> l) h"
| "hold _ h = h"

fun free_for :: "event \<Rightarrow> held \<Rightarrow> bool" where
  "free_for (RdLock l) h = ((l, True) \<notin> set h)"
| "free_for (WrLock l) h = (l \<notin> fst ` set h)"
| "free_for _ h = True"

inductive sched_step :: "threads \<Rightarrow> threads \<Rightarrow> bool" where
  sched: "i < length ts \<Longrightarrow> ts ! i = (e # es, h) \<Longrightarrow>
    (\<And>j. j < length ts \<Longrightarrow> j \<noteq> i \<Longrightarrow> free_for e (snd (ts ! j))) \<Longrightarrow>
    sched_step ts (ts[i := (es, hold e h)])"

inductive_cases sched_stepE: "sched_step ts ts'"

abbreviation sched_run :: "threads \<Rightarrow> threads \<Rightarrow> bool" where
  "sched_run \<equiv> sched_step\<^sup>*\<^sup>*"

definition start :: "event list list \<Rightarrow> threads" where
  "start ess = map (\<lambda>es. (es, [])) ess"

section \<open>The order of the locks alone\<close>

fun order_step :: "event \<Rightarrow> held \<Rightarrow> bool" where
  "order_step (RdLock l) h = (\<forall>(l', m) \<in> set h. l' < l)"
| "order_step (WrLock l) h = (\<forall>(l', m) \<in> set h. l' < l)"
| "order_step (Unlock l) h = (l \<in> fst ` set h)"
| "order_step _ h = True"

fun order_run :: "event list \<Rightarrow> held \<Rightarrow> held option" where
  "order_run [] h = Some h"
| "order_run (e # es) h = (if order_step e h then order_run es (hold e h) else None)"

definition ordered :: "event list \<Rightarrow> bool" where
  "ordered es \<longleftrightarrow> order_run es [] = Some []"

lemma lock_step_hold: "lock_step e h = Some h' \<Longrightarrow> h' = hold e h \<and> order_step e h"
  by (cases e) (auto split: if_splits)

lemma lock_run_order: "lock_run es h = Some h' \<Longrightarrow> order_run es h = Some h'"
  by (induction es arbitrary: h) (auto split: option.splits dest: lock_step_hold)

lemma disciplined_ordered: "disciplined es \<Longrightarrow> ordered es"
  by (simp add: disciplined_def ordered_def lock_run_order)

lemma order_run_append:
  "order_run (es @ fs) h = (case order_run es h of None \<Rightarrow> None | Some h \<Rightarrow> order_run fs h)"
  by (induction es arbitrary: h) auto

lemma ordered_append: "ordered es \<Longrightarrow> ordered fs \<Longrightarrow> ordered (es @ fs)"
  by (simp add: ordered_def order_run_append)

section \<open>What holds in every reachable state\<close>

definition exclusive :: "threads \<Rightarrow> bool" where
  "exclusive ts \<longleftrightarrow> (\<forall>i < length ts. \<forall>j < length ts. i \<noteq> j \<longrightarrow>
     (\<forall>l. (l, True) \<in> set (snd (ts ! i)) \<longrightarrow> l \<notin> fst ` set (snd (ts ! j))))"

lemma exclusive_step:
  assumes "sched_step ts ts'" and "exclusive ts"
  shows "exclusive ts'"
  using assms(1)
proof cases
  case (sched i e es h)
  have keep: "(l, m) \<in> set (hold e h) \<Longrightarrow> (l, m) \<in> set h \<or> (e = RdLock l \<and> \<not> m) \<or> (e = WrLock l \<and> m)" for l m
    by (cases e) auto
  show ?thesis
    unfolding exclusive_def
  proof (intro allI impI)
    fix a b l
    assume h: "a < length ts'" "b < length ts'" "a \<noteq> b" "(l, True) \<in> set (snd (ts' ! a))"
    have ex: "(l, True) \<in> set (snd (ts ! a)) \<Longrightarrow> l \<notin> fst ` set (snd (ts ! b))"
      using assms(2) h(1-3) sched(1) by (auto simp: exclusive_def)
    show "l \<notin> fst ` set (snd (ts' ! b))"
    proof (cases "a = i")
      case True
      with h sched(1,2) have b: "(l, True) \<in> set (hold e h)" "b \<noteq> i" "b < length ts" "ts' ! b = ts ! b"
        by auto
      from keep [OF b(1)] show ?thesis
        using ex True sched(3) sched(4) [OF b(3,2)] b(4) by (auto simp: image_iff) force+
    next
      case False
      with h(4) sched(1) have a: "(l, True) \<in> set (snd (ts ! a))" by simp
      show ?thesis
      proof (cases "b = i")
        case True
        have "a < length ts" using h(1) sched(1) by simp
        with sched(4) [of a] False have fr: "free_for e (snd (ts ! a))" by simp
        show ?thesis
        proof
          assume "l \<in> fst ` set (snd (ts' ! b))"
          then obtain m where "(l, m) \<in> set (hold e h)" using True sched(1,2) by auto
          with keep [of l m] fr a ex True sched(3) show False by (auto simp: image_iff) force+
        qed
      next
        case False
        with ex [OF a] sched(1) show ?thesis by simp
      qed
    qed
  qed
qed

lemma exclusive_start: "exclusive (start ess)"
  by (simp add: exclusive_def start_def)

lemma all_step:
  assumes "sched_step ts ts'" and "\<forall>(es, h) \<in> set ts. P es h"
    and "\<And>e es h. P (e # es) h \<Longrightarrow> P es (hold e h)"
  shows "\<forall>(es, h) \<in> set ts'. P es h"
  using assms(1)
proof cases
  case (sched i e es h)
  then have "P (e # es) h" using assms(2) nth_mem by force
  then have "P es (hold e h)" by (rule assms(3))
  with sched(1) assms(2) show ?thesis
    by (auto dest!: set_update_subset_insert [THEN subsetD])
qed

lemma reach_invariant:
  assumes "sched_run (start ess) ts" and "\<forall>es \<in> set ess. P es []"
    and "\<And>e es h. P (e # es) h \<Longrightarrow> P es (hold e h)"
  shows "(\<forall>(es, h) \<in> set ts. P es h) \<and> exclusive ts"
  using assms(1)
proof (induction rule: rtranclp_induct)
  case base
  show ?case using assms(2) exclusive_start by (auto simp: start_def)
next
  case (step ts ts')
  then show ?case
    using all_step [where P = P, OF step.hyps(2)] assms(3) exclusive_step by blast
qed

lemma reach_ordered:
  assumes "sched_run (start ess) ts" and "\<forall>es \<in> set ess. ordered es"
  shows "(\<forall>(es, h) \<in> set ts. order_run es h = Some []) \<and> exclusive ts"
  using assms by (intro reach_invariant [where P = "\<lambda>es h. order_run es h = Some []"])
    (auto simp: ordered_def split: if_splits)

lemma reach_disciplined:
  assumes "sched_run (start ess) ts" and "\<forall>es \<in> set ess. disciplined es"
  shows "(\<forall>(es, h) \<in> set ts. lock_run es h = Some []) \<and> exclusive ts"
  using assms by (intro reach_invariant [where P = "\<lambda>es h. lock_run es h = Some []"])
    (auto simp: disciplined_def split: option.splits dest: lock_step_hold)

section \<open>No deadlock, no race, termination\<close>

fun wants :: "event list \<Rightarrow> lock option" where
  "wants (RdLock l # es) = Some l"
| "wants (WrLock l # es) = Some l"
| "wants _ = None"

lemma blocked_wants:
  assumes "i < length ts" and "ts ! i = (e # es, h)" and "\<not> (\<exists>ts'. sched_step ts ts')"
  shows "\<exists>l j. wants (e # es) = Some l \<and> j < length ts \<and> j \<noteq> i \<and> l \<in> fst ` set (snd (ts ! j))"
proof -
  from assms have "\<not> (\<forall>j. j < length ts \<longrightarrow> j \<noteq> i \<longrightarrow> free_for e (snd (ts ! j)))"
    using sched [OF assms(1,2)] by blast
  then obtain j where "j < length ts" "j \<noteq> i" "\<not> free_for e (snd (ts ! j))" by blast
  then show ?thesis by (cases e) force+
qed

lemma holder_not_done: "order_run es h = Some [] \<Longrightarrow> l \<in> fst ` set h \<Longrightarrow> es \<noteq> []"
  by (cases es) auto

lemma wanted_above: "order_run es h = Some [] \<Longrightarrow> wants es = Some l \<Longrightarrow> l' \<in> fst ` set h \<Longrightarrow> l' < l"
  by (cases es rule: wants.cases) (auto split: if_splits)

lemma progress:
  assumes ord: "\<forall>(es, h) \<in> set ts. order_run es h = Some []" and i: "i < length ts" "fst (ts ! i) \<noteq> []"
  shows "\<exists>ts'. sched_step ts ts'"
proof (rule ccontr)
  assume stuck: "\<not> (\<exists>ts'. sched_step ts ts')"
  let ?W = "{l. \<exists>i < length ts. wants (fst (ts ! i)) = Some l}"
  have o: "order_run (fst (ts ! j)) (snd (ts ! j)) = Some []" if "j < length ts" for j
    using ord nth_mem [OF that] by (auto simp: split_beta)
  have higher: "\<exists>l' \<in> ?W. l < l'" if "l \<in> ?W" for l
  proof -
    from that obtain a where a: "a < length ts" "wants (fst (ts ! a)) = Some l" by blast
    then obtain e es h where "ts ! a = (e # es, h)" by (cases "ts ! a"; cases "fst (ts ! a)") auto
    with blocked_wants [OF a(1) _ stuck] a(2) obtain j where j: "j < length ts" "l \<in> fst ` set (snd (ts ! j))"
      by fastforce
    then obtain e' es' h' where j': "ts ! j = (e' # es', h')"
      using holder_not_done [OF o [OF j(1)] j(2)] by (cases "ts ! j"; cases "fst (ts ! j)") auto
    then obtain l' where "wants (fst (ts ! j)) = Some l'"
      using blocked_wants [OF j(1) j' stuck] by auto
    with wanted_above [OF o [OF j(1)] _ j(2)] j(1) show ?thesis by blast
  qed
  have "finite ?W"
  proof -
    have "?W \<subseteq> (\<lambda>i. the (wants (fst (ts ! i)))) ` {..<length ts}" by force
    then show ?thesis by (rule finite_subset) simp
  qed
  then have fin: "finite ?W" .
  have ne: "?W \<noteq> {}"
  proof -
    from i obtain e es h where "ts ! i = (e # es, h)" by (cases "ts ! i"; cases "fst (ts ! i)") auto
    with blocked_wants [OF i(1) _ stuck] i(1) show ?thesis by fastforce
  qed
  from higher [OF Max_in [OF fin ne]] obtain l where "l \<in> ?W" "Max ?W < l" by blast
  then show False using Max_ge [OF fin] by (meson leD)
qed

definition events_left :: "threads \<Rightarrow> nat" where
  "events_left ts = sum_list (map (\<lambda>(es, h). length es) ts)"

lemma step_decreases: "sched_step ts ts' \<Longrightarrow> events_left ts = Suc (events_left ts')"
proof (elim sched_stepE)
  fix i e es h
  assume h: "ts' = ts[i := (es, hold e h)]" "i < length ts" "ts ! i = (e # es, h)"
  then have "ts = take i ts @ (e # es, h) # drop (Suc i) ts"
    by (metis id_take_nth_drop)
  moreover have "ts' = take i ts @ (es, hold e h) # drop (Suc i) ts"
    using h(1,2) by (simp add: upd_conv_take_nth_drop)
  ultimately have "events_left ts = events_left (take i ts) + Suc (length es) + events_left (drop (Suc i) ts)"
    "events_left ts' = events_left (take i ts) + length es + events_left (drop (Suc i) ts)"
    by (metis (no_types, lifting) events_left_def list.simps(9) length_Cons map_append old.prod.case
        sum_list.Cons sum_list.append add.assoc)+
  then show ?thesis by simp
qed

end
