(* ===== verification/Safety.thy ===== *)
theory Safety
  imports CommandSpec Threads Effects
begin

text \<open>
  What no command can break, whatever its tokens are and whichever allocations, sends and closes
  fail: if the dispatcher returns, the server is well-formed as before, and the locks were taken in
  order and all released.  With the results on threads this gives that the commands of any number
  of connections never deadlock on each other, and that those that obey the whole discipline never
  race on a bucket.
\<close>

section \<open>Effects of one call\<close>

definition safe :: "World \<Rightarrow> World \<Rightarrow> bool" where
  "safe w w' \<longleftrightarrow> (world_wf w \<longrightarrow> world_wf w') \<and> (\<exists>es. trace w' = trace w @ es \<and> ordered es)"

lemma ordered_simple [simp]: "ordered []" "ordered [Send fd m]" "ordered [Close fd]"
  by (simp_all add: ordered_def)

lemma safe_refl [simp, handled]: "safe w w"
  by (auto simp: safe_def intro: exI [of _ "[]"])

lemma safe_trans: "safe w u \<Longrightarrow> safe u v \<Longrightarrow> safe w v"
  unfolding safe_def using ordered_append by (metis append.assoc)

lemma safe_emit: "ordered es \<Longrightarrow> safe w (emit es w)"
  by (auto simp: safe_def)

lemma safe_server:
  "server w' = server w \<Longrightarrow> trace w' = trace w @ es \<Longrightarrow> ordered es \<Longrightarrow> safe w w'"
  by (auto simp: safe_def world_wf_def)

lemma safe_put_table:
  "world_wf w \<longrightarrow> ht_wf t \<Longrightarrow> ordered es \<Longrightarrow> safe w (emit es (put_table d t (w\<lparr>w_mem := m\<rparr>)))"
  by (auto simp: safe_def intro!: wf_intros)

lemma sys_send_safe: "sys_send w fd m = (n, w') \<Longrightarrow> safe w w'"
  by (auto simp: sys_send_def split: list.splits option.splits
      intro: safe_server [where es = "[Send fd m']" for m'] safe_server [where es = "[]"])

lemma sys_close_safe: "sys_close w fd = (n, w') \<Longrightarrow> safe w w'"
  by (auto simp: sys_close_def split: list.splits bool.splits
      intro: safe_server [where es = "[Close fd]"] safe_server [where es = "[]"])

lemma safe_mem: "safe w u \<Longrightarrow> safe w (u\<lparr>w_mem := m\<rparr>)"
  by (auto simp: safe_def)

interpretation sf: effect safe
  by unfold_locales (auto intro: safe_mem dest: safe_trans sys_send_safe sys_close_safe)

section \<open>The handlers\<close>

lemma tok_str_cstring: "tok_str w cmd i = Inr s \<Longrightarrow> cstring s"
proof -
  assume "tok_str w cmd i = Inr s"
  then obtain p where "read_tok (w_bufs w) p = Inr s" by (auto simp: tok_str_def res_bind_eq_Inr)
  then show "cstring s"
    by (cases p) (auto simp: block_cstr_at_def block_cstr_cstring split: option.splits)
qed

lemma table_of_in: "table_of w d = Inr t \<Longrightarrow> world_wf w \<Longrightarrow> ht_wf t"
  by (auto simp: table_of_def world_wf_def server_wf_def split: option.splits if_splits)

lemma cstring_take [simp]: "cstring s \<Longrightarrow> cstring (take n s)"
  by (auto simp: cstring_def dest: in_set_takeD)

lemma hash_set_wf:
  assumes "hash_set m (Some t) (Some k) (Some v) = Inr (rc, tp, m')" and "world_wf w"
    and "table_of w d = Inr t" and "cstring k" and "cstring v"
  shows "ht_wf (the tp)"
  using hash_set_cases [of m t k v] assms table_of_in [OF assms(3,2)]
  by (auto intro!: wf_intros simp: kv_ok_def)

lemma hash_del_wf:
  assumes "hash_del (Some t) (Some k) = Inr (old, tp)" and "world_wf w" and "table_of w d = Inr t"
  shows "ht_wf (the tp)"
  using assms table_of_in [OF assms(3,2)] hash_del_remove [of t k] by (auto intro!: wf_intros)

lemma ordered_bucket [simp]:
  "ordered [WrLock l, ReadBucket d i, Unlock l]" "ordered [WrLock l, WriteBucket d i, Unlock l]"
  "ordered [WrLock l, ReadBucket d i, WriteBucket d i, Unlock l]"
  "ordered [RdLock l, ReadBucket d i, Unlock l]" "ordered [RdLock l, ReadBucket d i, Unlock l, ReadBucket d i]"
  "ordered [WrLock l, Unlock l]"
  by (simp_all add: ordered_def)

lemma safe_store:
  assumes "hash_set m (Some t) (Some k) (Some v) = Inr (rc, tp, m')" and "table_of w d = Inr t"
    and "cstring k" and "cstring v" and "ordered es"
  shows "safe w (emit es (put_table d (the tp) (w\<lparr>w_mem := m'\<rparr>)))"
  using hash_set_wf [OF assms(1) _ assms(2-4)] assms(5) by (intro safe_put_table) auto

lemma cmd_get_handled: "handled_ok safe w (cmd_get w cmd k rp)"
  unfolding cmd_get_def Let_def by (intro handled) (auto intro!: handled safe_emit)

lemma cmd_incr_handled: "handled_ok safe w (cmd_incr w cmd k rp)"
  unfolding cmd_incr_def Let_def
  by (intro handled)
    (auto simp: tok_str_cstring split: option.split intro!: handled safe_emit safe_store)

lemma value_cstring:
  "(case p of None \<Rightarrow> Inl NullDeref | Some str \<Rightarrow> block_cstr (sb_buf str)) = Inr v \<Longrightarrow> cstring v"
  by (auto simp: block_cstr_cstring split: option.splits)

lemma cmd_set_handled: "handled_ok safe w (cmd_set w cmd k rp)"
  unfolding cmd_set_def Let_def
  by (intro handled)
    (auto simp: tok_str_cstring value_cstring split: option.split intro!: handled safe_emit safe_store)

lemma safe_delete:
  assumes "hash_del (Some t) (Some k) = Inr (old, tp)" and "table_of w d = Inr t" and "ordered es"
  shows "safe w (emit es (put_table d (the tp) w))"
  using hash_del_wf [OF assms(1) _ assms(2)] assms(3) by (auto simp: safe_def intro!: wf_intros)

lemma cmd_del_handled: "handled_ok safe w (cmd_del w cmd k rp)"
  unfolding cmd_del_def Let_def
  by (intro handled) (auto split: option.split intro!: handled safe_delete)

lemma order_run_reads: "order_run (map (ReadBucket d) is) h = Some h"
  by (induction "is") auto

lemma safe_reads: "safe w (emit (map (ReadBucket d) is) (w\<lparr>w_mem := m\<rparr>))"
  by (rule safe_server [where es = "map (ReadBucket d) is"]) (simp_all add: ordered_def order_run_reads)

lemma cmd_info_handled: "handled_ok safe w (cmd_info w cmd k rp)"
  unfolding cmd_info_def Let_def
  by (intro handled) (auto split: prod.split bool.split intro!: handled safe_reads)

lemma safe_client:
  assumes "safe w u" and "client_of w k = Inr c" and "ordered es"
  shows "safe w (emit es (add_clients n (put_client k (c\<lparr>sock := s\<rparr>) u)))"
  using assms client_of_in [OF assms(2)]
  by (auto simp: safe_def client_wf_def ordered_append intro!: wf_intros)

lemma cmd_quit_handled: "handled_ok safe w (cmd_quit w cmd k rp)"
  unfolding cmd_quit_def Let_def
  by (intro handled)
    (auto split: prod.split intro!: handled safe_client dest!: sf.replied sys_close_safe intro: safe_trans)

lemma safe_select: "n < NUM_DBS \<Longrightarrow> safe w (put_client k (c\<lparr>db := n\<rparr>) w)"
  by (auto simp: safe_def client_wf_def intro!: wf_intros exI [of _ "[]"])

lemma cmd_select_handled: "handled_ok safe w (cmd_select w cmd k rp)"
  unfolding cmd_select_def Let_def
  by (intro handled)
    (auto split: option.split simp: MAX_DB_def NUM_DBS_def intro!: handled safe_select dest!: sf.replied)

lemma ordered_all_buckets:
  assumes "\<forall>e \<in> set es. \<exists>d i. e = ReadBucket d i \<or> e = WriteBucket d i"
  shows "ordered (map RdLock bucket_locks @ es @ map Unlock bucket_locks)"
    "ordered (map WrLock bucket_locks @ es @ map Unlock bucket_locks)"
proof -
  have "order_run es h = Some h" for h
    using assms by (induction es) auto
  moreover have "ordered (map RdLock bucket_locks @ [] @ map Unlock bucket_locks)"
      "ordered (map WrLock bucket_locks @ [] @ map Unlock bucket_locks)"
    using disciplined_all_buckets [of "[]" False] disciplined_all_buckets [of "[]" True]
    by (simp_all add: disciplined_ordered)
  ultimately show "ordered (map RdLock bucket_locks @ es @ map Unlock bucket_locks)"
    "ordered (map WrLock bucket_locks @ es @ map Unlock bucket_locks)"
    by (simp_all add: ordered_def order_run_append split: option.splits)
qed

lemma rdb_save_safe:
  assumes "rdb_save w pathp = Inr (rc, w')"
  shows "safe w w'"
proof -
  have r: "e \<in> set (table_reads d t) \<Longrightarrow> \<exists>d i. e = ReadBucket d i" for e d t
    by (auto simp: table_reads_def split: if_splits)
  show ?thesis
    using assms
    by (auto simp: rdb_save_def res_bind_eq_Inr Let_def safe_def split: option.splits if_splits
        intro!: ordered_all_buckets(1) dest!: r)
qed

lemma cmd_save_handled: "handled_ok safe w (cmd_save cmd w k rp)"
  unfolding cmd_save_def
  by (intro handled) (auto intro!: handled dest!: rdb_save_safe)

lemma rdb_load_safe:
  assumes "rdb_load (emit (map WrLock bucket_locks) w) pathp = Inr (rc, w')"
  shows "safe w (emit (map Unlock bucket_locks) w')"
proof -
  obtain es where es: "trace w' = trace w @ map WrLock bucket_locks @ es"
      "\<forall>e \<in> set es. \<exists>d i. e = ReadBucket d i \<or> e = WriteBucket d i"
    using rdb_load_keeps [OF assms] by (fastforce simp: load_keeps_def)
  moreover have "world_wf w \<longrightarrow> world_wf w'"
    using rdb_load_keeps [OF assms] by (auto simp: load_keeps_def)
  ultimately show ?thesis
    using ordered_all_buckets(2) [OF es(2)] by (auto simp: safe_def)
qed

lemma cmd_load_handled: "handled_ok safe w (cmd_load cmd w k rp)"
  unfolding cmd_load_def
  by (intro handled) (auto intro!: handled rdb_load_safe)

lemmas handlers_handled = cmd_get_handled cmd_set_handled cmd_del_handled cmd_select_handled
  cmd_save_handled cmd_load_handled cmd_info_handled cmd_incr_handled

lemma cmd_dispatch_safe:
  assumes "cmd_dispatch cmdp w k = Inr (rc, w')"
  shows "safe w w'"
proof -
  have "safe w w' \<or> (\<exists>cmd m rp rc rp'. cmdp = Some cmd \<and> entry cmd = CMD_QUIT \<and>
    cmd_quit (w\<lparr>w_mem := m\<rparr>) cmd k rp = Inr (rc, rp', w'))"
    using assms by (rule sf.dispatched) (auto split: CmdCode.split intro: handlers_handled handled)
  then show ?thesis
    using handled_okD [OF cmd_quit_handled] safe_trans [OF safe_mem [OF safe_refl]] by blast
qed

section \<open>Connections that run at the same time\<close>

text \<open>
  The events of a connection: those of the commands it sends one after the other, each of them
  dispatched in whatever state the other connections have left.
\<close>

inductive session :: "event list \<Rightarrow> bool" where
  session_Nil: "session []"
| session_cmd: "cmd_dispatch cmdp w k = Inr (rc, w') \<Longrightarrow> trace w' = trace w @ es \<Longrightarrow> session fs \<Longrightarrow>
    session (es @ fs)"

lemma session_ordered: "session es \<Longrightarrow> ordered es"
proof (induction rule: session.induct)
  case (session_cmd cmdp w k rc w' es fs)
  from cmd_dispatch_safe [OF session_cmd(1)] session_cmd(2) have "ordered es" by (auto simp: safe_def)
  then show ?case using session_cmd.IH by (rule ordered_append)
qed simp

text \<open>The same for the served commands that obey the whole discipline.\<close>

inductive quiet_session :: "event list \<Rightarrow> bool" where
  quiet_Nil: "quiet_session []"
| quiet_cmd: "serving w k c cmd ws \<Longrightarrow> small_values w \<Longrightarrow> words_size ws < 2 ^ 30 \<Longrightarrow>
    command_of ws \<noteq> CMD_INFO \<Longrightarrow> \<not> get_hit w c ws \<Longrightarrow>
    cmd_dispatch (Some cmd) w k = Inr (rc, w') \<Longrightarrow> trace w' = trace w @ es \<Longrightarrow> quiet_session fs \<Longrightarrow>
    quiet_session (es @ fs)"

lemma quiet_disciplined: "quiet_session es \<Longrightarrow> disciplined es"
proof (induction rule: quiet_session.induct)
  case (quiet_cmd w k c cmd ws rc w' es fs)
  from dispatch_disciplined [OF quiet_cmd(1-6)] quiet_cmd(7) have "disciplined es" by auto
  then show ?case using quiet_cmd.IH by (rule disciplined_append)
qed simp

definition all_done :: "threads \<Rightarrow> bool" where
  "all_done ts \<longleftrightarrow> (\<forall>(es, h) \<in> set ts. es = [] \<and> h = [])"

lemma step_or_done:
  assumes "\<forall>(es, h) \<in> set ts. order_run es h = Some []" and "\<not> all_done ts"
  shows "\<exists>ts'. sched_step ts ts'"
proof -
  from assms(2) obtain es h where eh: "(es, h) \<in> set ts" "es \<noteq> [] \<or> h \<noteq> []" by (auto simp: all_done_def)
  with assms(1) have "es \<noteq> []" by auto
  with eh(1) obtain i where "i < length ts" "fst (ts ! i) \<noteq> []" by (metis fst_conv in_set_conv_nth)
  with progress assms(1) show ?thesis by blast
qed

lemma order_step_threads:
  "sched_step ts ts' \<Longrightarrow> \<forall>(es, h) \<in> set ts. order_run es h = Some [] \<Longrightarrow>
   \<forall>(es, h) \<in> set ts'. order_run es h = Some []"
  by (erule all_step) (auto split: if_splits)

lemma can_finish:
  "\<forall>(es, h) \<in> set ts. order_run es h = Some [] \<Longrightarrow> \<exists>ts'. sched_run ts ts' \<and> all_done ts'"
proof (induction "events_left ts" arbitrary: ts)
  case 0
  then have "\<not> (\<exists>ts'. sched_step ts ts')" using step_decreases by fastforce
  with step_or_done [OF 0(2)] show ?case by blast
next
  case (Suc n)
  show ?case
  proof (cases "all_done ts")
    case False
    then obtain u where u: "sched_step ts u" using step_or_done [OF Suc.prems] by blast
    with Suc.hyps(2) have "n = events_left u" using step_decreases by fastforce
    from Suc.hyps(1) [OF this order_step_threads [OF u Suc.prems]] u show ?thesis
      by (meson converse_rtranclp_into_rtranclp)
  qed blast
qed

lemma run_length: "(sched_step ^^ n) ts ts' \<Longrightarrow> n + events_left ts' = events_left ts"
  by (induction n arbitrary: ts') (fastforce dest!: step_decreases)+

lemma events_left_start: "events_left (start ess) = sum_list (map length ess)"
  by (simp add: events_left_def start_def comp_def)

lemma no_conflict:
  assumes "\<forall>(es, h) \<in> set ts. lock_run es h = Some []" and "exclusive ts"
    and ij: "i < length ts" "j < length ts" "i \<noteq> j"
    and "fst (ts ! i) = WriteBucket d b # es" and "fst (ts ! j) = e # es'"
  shows "e \<noteq> WriteBucket d b \<and> e \<noteq> ReadBucket d b"
proof -
  have l: "lock_run (fst (ts ! x)) (snd (ts ! x)) = Some []" if "x < length ts" for x
    using assms(1) nth_mem [OF that] by (auto simp: split_beta)
  from l [OF ij(1)] assms(6) have "(BucketLock d b, True) \<in> set (snd (ts ! i))"
    by (auto split: option.splits if_splits)
  with assms(2) ij have "BucketLock d b \<notin> fst ` set (snd (ts ! j))" by (auto simp: exclusive_def)
  with l [OF ij(2)] assms(7) show ?thesis by (force split: option.splits if_splits)
qed

section \<open>The properties\<close>

text \<open>A connection that deletes the key of the sample server.\<close>

lemma sample_session:
  defines "es \<equiv> [WrLock (BucketLock 0 (hash_fn ''k'')), WriteBucket 0 (hash_fn ''k''),
      Unlock (BucketLock 0 (hash_fn ''k'')), Send 0 (int_msg 1)]"
  shows "session es" and "quiet_session es"
proof -
  have s: "serving (sample_in [''DEL'', ''k'']) 3 zero_client (sample_cmd [''DEL'', ''k''] [0, 4]) [''DEL'', ''k'']"
    by (rule sample_serving) (simp_all add: NUL_def)
  have e: "command_of [''DEL'', ''k''] = CMD_DEL" by (simp add: command_of_def)
  obtain w' where w': "cmd_dispatch (Some (sample_cmd [''DEL'', ''k''] [0, 4])) (sample_in [''DEL'', ''k'']) 3 = Inr (0, w')"
    "trace w' = trace (sample_in [''DEL'', ''k'']) @ es"
    using dispatch_del [OF s e] by (auto simp: db_map_sample zero_client_def es_def)
  from session_cmd [OF w' session_Nil] show "session es" by simp
  from quiet_cmd [OF s sample_small _ _ _ w' quiet_Nil] e show "quiet_session es"
    by (simp add: words_size_def get_hit_def)
qed

text \<open>
C14. Whatever command a worker dispatches, for whatever slot, and whichever allocations, sends and
closes fail meanwhile: if \<open>cmd_dispatch\<close> returns, a well-formed server (512 client slots with a
database below 16 each, 16 tables whose entries sit in the bucket of their hash, with distinct keys)
is well-formed again, the locks were taken in the order of database and bucket, and all of them
were released.
\<close>
theorem dispatch_safe:
  assumes "cmd_dispatch cmdp w k = Inr (rc, w')" and "world_wf w"
  shows "world_wf w' \<and> (\<exists>es. trace w' = trace w @ es \<and> ordered es)"
  using cmd_dispatch_safe [OF assms(1)] assms(2) by (simp add: safe_def)

theorem dispatch_safe_witness:
  "\<exists>w'. cmd_dispatch (Some (sample_cmd [''SAVE'', ''f''] [0, 5])) (sample_in [''SAVE'', ''f'']) 3 = Inr (0, w') \<and>
    world_wf w' \<and> trace w' \<noteq> [] \<and> ordered (trace w')"
proof -
  have s: "serving (sample_in [''SAVE'', ''f'']) 3 zero_client (sample_cmd [''SAVE'', ''f''] [0, 5]) [''SAVE'', ''f'']"
    by (rule sample_serving) (simp_all add: NUL_def)
  have p: "path_arg (sample_in [''SAVE'', ''f'']) (sample_cmd [''SAVE'', ''f''] [0, 5]) = Inr (Some ''f'')"
    using servingD(9) [OF s, of 1] by (intro path_arg_word) simp
  have "\<exists>w'. cmd_dispatch (Some (sample_cmd [''SAVE'', ''f''] [0, 5])) (sample_in [''SAVE'', ''f'']) 3 = Inr (0, w') \<and> trace w' \<noteq> []"
    using dispatch_save [OF s _ p] by (auto simp: command_of_def Let_def)
  then show ?thesis
    using dispatch_safe servingD(1) [OF s] by fastforce
qed

text \<open>
The connections never deadlock.  Take any number of connections, each with any sequence of
commands, and let their lock operations interleave in any way the reader-writer locks allow: from
every state that can be reached, all of them can run to their end with every lock released, and no
run has more steps than there are events.
\<close>
lemma connections_finish:
  assumes "\<forall>es \<in> set ess. session es" and "sched_run (start ess) ts"
  shows "(\<exists>ts'. sched_run ts ts' \<and> all_done ts') \<and>
    (\<forall>n ts'. (sched_step ^^ n) (start ess) ts' \<longrightarrow> n \<le> sum_list (map length ess))"
proof -
  have "\<forall>(es, h) \<in> set ts. order_run es h = Some []"
    using reach_ordered [OF assms(2)] assms(1) session_ordered by blast
  from can_finish [OF this] run_length show ?thesis
    by (metis events_left_start le_add1)
qed

text \<open>
C16. The connections never race on a bucket, as long as they send no INFO and no GET of a key that
is set: in no reachable state is a thread about to write a bucket while another is about to write or
read the same bucket.
\<close>
theorem connections_race_free:
  assumes "\<forall>es \<in> set ess. quiet_session es" and "sched_run (start ess) ts"
    and "i < length ts" and "j < length ts" and "i \<noteq> j"
    and "ts ! i = (WriteBucket d b # es, h)" and "ts ! j = (e # es', h')"
  shows "e \<noteq> WriteBucket d b \<and> e \<noteq> ReadBucket d b"
proof -
  have "(\<forall>(es, h) \<in> set ts. lock_run es h = Some []) \<and> exclusive ts"
    using reach_disciplined [OF assms(2)] assms(1) quiet_disciplined by blast
  with no_conflict assms(3-7) show ?thesis by (metis fst_conv)
qed

theorem connections_race_free_witness:
  "\<exists>es ts. quiet_session es \<and> sched_run (start [es, es]) ts \<and>
    (\<exists>d b es1 h1 e es2 h2. ts = [(WriteBucket d b # es1, h1), (e # es2, h2)] \<and>
       e \<noteq> WriteBucket d b \<and> e \<noteq> ReadBucket d b)"
proof -
  let ?l = "BucketLock 0 (hash_fn ''k'')"
  let ?es = "[WrLock ?l, WriteBucket 0 (hash_fn ''k''), Unlock ?l, Send 0 (int_msg 1)]"
  let ?ts = "[(tl ?es, [(?l, True)]), (?es, [])]"
  have es: "quiet_session ?es" by (rule sample_session)
  have "sched_step (start [?es, ?es]) ((start [?es, ?es])[0 := (tl ?es, hold (hd ?es) [])])"
    by (rule sched) (auto simp: start_def)
  then have r: "sched_run (start [?es, ?es]) ?ts" by (simp add: start_def r_into_rtranclp)
  have "WrLock ?l \<noteq> WriteBucket 0 (hash_fn ''k'') \<and> WrLock ?l \<noteq> ReadBucket 0 (hash_fn ''k'')"
    by (rule connections_race_free [OF _ r, of 0 1]) (simp_all add: es)
  with es r show ?thesis by (intro exI [of _ ?es] exI [of _ ?ts]) auto
qed

text \<open>
The race that is left.  One connection sends a GET of a key that is set and another a DEL of the
same key in the same database: there is an interleaving in which the first has released its lock and
is about to read the value for its reply while the second, under its write lock, is about to free it.
\<close>
lemma get_del_race:
  assumes "serving w k c cmd [''GET'', key]" and "db_map w (db c) key = Some v" and "length v < 2 ^ 30"
    and "serving w k' c' cmd' [''DEL'', key]" and "db c' = db c"
  shows "\<exists>w1 w2 es1 es2 r1 r2 h. cmd_dispatch (Some cmd) w k = Inr (0, w1) \<and> trace w1 = trace w @ es1 \<and>
    cmd_dispatch (Some cmd') w k' = Inr (0, w2) \<and> trace w2 = trace w @ es2 \<and>
    sched_run (start [es1, es2])
      [(ReadBucket (db c) (hash_fn key) # r1, []), (WriteBucket (db c) (hash_fn key) # r2, h)]"
proof -
  let ?l = "BucketLock (db c) (hash_fn key)" and ?r = "ReadBucket (db c) (hash_fn key)"
    and ?w = "WriteBucket (db c) (hash_fn key)"
  have e: "command_of [''GET'', key] = CMD_GET" "command_of [''DEL'', key] = CMD_DEL"
    by (simp_all add: command_of_def)
  let ?s1 = "Send (sock c) (bulk_msg (Some v))" and ?s2 = "Send (sock c') (int_msg 1)"
  have run: "sched_run [([RdLock ?l, ?r, Unlock ?l, ?r, ?s1], []), ([WrLock ?l, ?w, Unlock ?l, ?s2], [])]
      [([?r, ?s1], []), ([?w, Unlock ?l, ?s2], [(?l, True)])]"
    (is "sched_run ?a ?z")
  proof -
    let ?b = "(([?r, ?s1], []), [?w, Unlock ?l, ?s2], [(?l, True)])"
    have "sched_step ?a (?a[0 := ([?r, Unlock ?l, ?r, ?s1], hold (RdLock ?l) [])])"
      by (rule sched) (auto simp: less_Suc_eq)
    moreover let ?c = "[([?r, Unlock ?l, ?r, ?s1], [(?l, False)]), ([WrLock ?l, ?w, Unlock ?l, ?s2], [])]"
    have "sched_step ?c (?c[0 := ([Unlock ?l, ?r, ?s1], hold ?r [(?l, False)])])"
      by (rule sched) (auto simp: less_Suc_eq)
    moreover let ?d = "[([Unlock ?l, ?r, ?s1], [(?l, False)]), ([WrLock ?l, ?w, Unlock ?l, ?s2], [])]"
    have "sched_step ?d (?d[0 := ([?r, ?s1], hold (Unlock ?l) [(?l, False)])])"
      by (rule sched) (auto simp: less_Suc_eq)
    moreover let ?e = "[([?r, ?s1], []), ([WrLock ?l, ?w, Unlock ?l, ?s2], [])]"
    have "sched_step ?e (?e[1 := ([?w, Unlock ?l, ?s2], hold (WrLock ?l) [])])"
      by (rule sched) (auto simp: less_Suc_eq)
    ultimately have "sched_step ?a ?c" "sched_step ?c ?d" "sched_step ?d ?e" "sched_step ?e ?z"
      by simp_all
    then show ?thesis by (meson converse_rtranclp_into_rtranclp rtranclp.rtrancl_refl)
  qed
  have "cmd_dispatch (Some cmd) w k = Inr (0, emit [RdLock ?l, ?r, Unlock ?l, ?r, ?s1] w)"
    using dispatch_get [OF assms(1) e(1)] assms(2,3) by (simp add: short_value_def)
  moreover obtain t where "cmd_dispatch (Some cmd') w k' =
      Inr (0, emit [WrLock ?l, ?w, Unlock ?l, ?s2] (put_table (db c) (ht_remove t key) w))"
    using dispatch_del [OF assms(4) e(2)] assms(2,5) by auto
  ultimately show ?thesis
    using run by (auto simp: start_def)
qed

end
