(* ===== verification/ServerLife.thy ===== *)
theory ServerLife
  imports Worker Safety
begin

text \<open>
  The life of the server process, \<^verbatim>\<open>server.c\<close> around the worker threads: creation, start-up with the
  optional restore, the accept loop, the periodic snapshot, and the exit after \<open>SIGINT\<close>.  The main
  thread, the workers and the snapshot thread take turns in the step relation \<open>life_step\<close>: one step
  is one \<open>accept\<close>, what a worker does with one result of \<open>recv\<close>, one snapshot, the signal, or one of
  the two halves of \<open>gracefully_exit\<close>, which waits in between for the threads it joins.  The lemmas
  give the invariant of every reachable state, and with it that the accept loop never leaves the
  client array; the properties also show where slots are lost and shared.
\<close>

section \<open>Start-up\<close>

text \<open>The process has exited with a status, or goes on.\<close>

datatype 'a proc = Exit int | Go 'a

text \<open>\<open>fd\<close> and \<open>bind_rc\<close> are what \<open>socket\<close> and \<open>bind\<close> return; the result of \<open>setsockopt\<close> is not used.\<close>

definition server_create :: "World \<Rightarrow> int \<Rightarrow> int \<Rightarrow> nat \<Rightarrow> nat \<Rightarrow> int \<Rightarrow> World proc" where
  "server_create w fd bind_rc prt addr rst =
     (case malloc (w_mem w) of
        (False, m) \<Rightarrow> Exit (-1)
      | (True, m) \<Rightarrow>
          (let s = zero_server\<lparr>srv_port := prt, srv_addr := addr, restore := rst, srv_sock := fd\<rparr> in
           if srv_sock s = -1 then Exit (-1)
           else if bind_rc = -1 then Exit (-1)
           else Go (w\<lparr>w_mem := m, server := Some s\<rparr>)))"

definition server_setup :: "World \<Rightarrow> int \<Rightarrow> ub + World proc" where
  "server_setup w listen_rc =
     (case server w of
        None \<Rightarrow> Inl NullDeref
      | Some s \<Rightarrow>
          if listen_rc = -1 then Inr (Exit (-1))
          else
            res_bind (if restore s \<noteq> 0 then rdb_load w None else Inr (0, w)) (\<lambda>(rc, w).
            Inr (Go w)))"

section \<open>The threads\<close>

text \<open>The thread of the periodic snapshot, for \<open>n\<close> rounds; the result of \<open>rdb_save\<close> is ignored.\<close>

fun worker_save :: "nat \<Rightarrow> World \<Rightarrow> ub + World" where
  "worker_save 0 w = Inr w"
| "worker_save (Suc n) w = res_bind (rdb_save w None) (\<lambda>(rc, w). worker_save n w)"

text \<open>What \<open>accept\<close> returns: interrupted, another error, or a socket with its peer.\<close>

datatype accepted = AcceptIntr | AcceptErr | Accepted int string nat

definition put_thread :: "nat \<Rightarrow> nat \<Rightarrow> World \<Rightarrow> World" where
  "put_thread n tid w =
     w\<lparr>server := map_option (\<lambda>s. s\<lparr>clients_threads := (clients_threads s)[n := Some tid]\<rparr>) (server w)\<rparr>"

text \<open>
  The return value and the slot of the thread that was started, with the id \<open>tid\<close>.  The argument of
  the thread is allocated and written without a check.
\<close>

definition server_accept_client :: "World \<Rightarrow> accepted \<Rightarrow> nat \<Rightarrow> ub + (int \<times> nat option \<times> World)" where
  "server_accept_client w acc tid =
     (case acc of
        AcceptIntr \<Rightarrow> Inr (-1, None, w)
      | AcceptErr \<Rightarrow> Inr (0, None, w)
      | Accepted fd peer_ip peer_port \<Rightarrow>
          (case server w of
             None \<Rightarrow> Inl NullDeref
           | Some s \<Rightarrow>
               if clients_count s \<ge> int MAX_CONN then Inr (0, None, snd (sys_close w fd))
               else if clients_count s < 0 then Inl OutOfBounds
               else
                 (let n = nat (clients_count s) in
                  res_bind (client_of w n) (\<lambda>c.
                  let w = put_client n (c\<lparr>sock := fd, ip := peer_ip, port := peer_port\<rparr>) w in
                  case malloc (w_mem w) of
                    (False, m) \<Rightarrow> Inl NullDeref
                  | (True, m) \<Rightarrow>
                      (let w = put_thread n tid (w\<lparr>w_mem := m\<rparr>);
                           w = emit [WrLock ServerLock] w;
                           w = add_clients 1 w;
                           w = emit [Unlock ServerLock] w
                       in Inr (0, Some n, w))))))"

section \<open>The exit\<close>

text \<open>
  \<open>gracefully_exit\<close> in its three loops: shutting down the first \<open>n\<close> sockets, joining their threads,
  and closing them and the socket of the server.
\<close>

definition exit_shutdown :: "World \<Rightarrow> ub + (nat \<times> World)" where
  "exit_shutdown w =
     (case server w of
        None \<Rightarrow> Inl NullDeref
      | Some s \<Rightarrow>
          (let n = nat (clients_count s); w = emit [RdLock ServerLock, Unlock ServerLock] w in
           res_bind (map_res (client_of w) [0..<n]) (\<lambda>cs.
           Inr (n, emit (map (\<lambda>c. Shutdown (sock c)) cs) w))))"

text \<open>The threads to join; joining a slot that never had a thread is undefined.\<close>

definition exit_join :: "World \<Rightarrow> nat \<Rightarrow> ub + nat list" where
  "exit_join w n =
     (case server w of
        None \<Rightarrow> Inl NullDeref
      | Some s \<Rightarrow>
          map_res (\<lambda>i. if i < length (clients_threads s)
                      then (case clients_threads s ! i of None \<Rightarrow> Inl Uninit | Some t \<Rightarrow> Inr t)
                      else Inl OutOfBounds) [0..<n])"

definition close_client :: "World \<Rightarrow> nat \<Rightarrow> ub + World" where
  "close_client w i =
     res_bind (client_of w i) (\<lambda>c.
     case sys_close w (sock c) of (rc, w) \<Rightarrow> Inr (put_client i (c\<lparr>sock := -1\<rparr>) w))"

definition exit_close :: "World \<Rightarrow> nat \<Rightarrow> ub + World" where
  "exit_close w n =
     (case server w of
        None \<Rightarrow> Inl NullDeref
      | Some s \<Rightarrow>
          res_bind (fold_res close_client w [0..<n]) (\<lambda>w. Inr (snd (sys_close w (srv_sock s)))))"

section \<open>The process\<close>

record WorkerThread =
  wt_id :: nat
  wt_slot :: nat
  wt_cmd :: Cmd
  wt_buf :: StringBuffer

datatype phase = Serving | Draining nat | Exited

record Life =
  lf_world :: World
  lf_threads :: "WorkerThread list"
  lf_next :: nat
  lf_running :: bool
  lf_phase :: phase

definition new_thread :: "nat \<Rightarrow> nat \<Rightarrow> (Cmd \<times> StringBuffer) option \<Rightarrow> WorkerThread list" where
  "new_thread tid k st =
     (case st of None \<Rightarrow> []
      | Some (cmd, qb) \<Rightarrow> [\<lparr>wt_id = tid, wt_slot = k, wt_cmd = cmd, wt_buf = qb\<rparr>])"

definition after_recv :: "WorkerThread list \<Rightarrow> nat \<Rightarrow> thread \<Rightarrow> Cmd \<Rightarrow> StringBuffer \<Rightarrow> WorkerThread list" where
  "after_recv ts i th cmd qb =
     (if th = Finished then take i ts @ drop (Suc i) ts
      else ts[i := (ts ! i)\<lparr>wt_cmd := cmd, wt_buf := qb\<rparr>])"

inductive life_step :: "Life \<Rightarrow> Life \<Rightarrow> bool" where
  accept_none: "lf_phase L = Serving \<Longrightarrow> lf_running L \<Longrightarrow>
    server_accept_client (lf_world L) acc (lf_next L) = Inr (0, None, w) \<Longrightarrow>
    life_step L (L\<lparr>lf_world := w\<rparr>)"
| accept_start: "lf_phase L = Serving \<Longrightarrow> lf_running L \<Longrightarrow>
    server_accept_client (lf_world L) acc (lf_next L) = Inr (0, Some k, w) \<Longrightarrow> worker_start w = (st, w') \<Longrightarrow>
    life_step L (L\<lparr>lf_world := w', lf_threads := lf_threads L @ new_thread (lf_next L) k st,
      lf_next := Suc (lf_next L)\<rparr>)"
| work: "lf_phase L \<noteq> Exited \<Longrightarrow> i < length (lf_threads L) \<Longrightarrow> lf_threads L ! i = t \<Longrightarrow>
    worker_loop (lf_world L) (wt_slot t) (wt_cmd t) (wt_buf t) [r] = Inr (th, w, cmd, qb) \<Longrightarrow>
    life_step L (L\<lparr>lf_world := w, lf_threads := after_recv (lf_threads L) i th cmd qb\<rparr>)"
| save: "lf_phase L \<noteq> Exited \<Longrightarrow> worker_save 1 (lf_world L) = Inr w \<Longrightarrow> life_step L (L\<lparr>lf_world := w\<rparr>)"
| sigint: "life_step L (L\<lparr>lf_running := False\<rparr>)"
| exit_begin: "lf_phase L = Serving \<Longrightarrow> \<not> lf_running L \<Longrightarrow> exit_shutdown (lf_world L) = Inr (n, w) \<Longrightarrow>
    life_step L (L\<lparr>lf_world := w, lf_phase := Draining n\<rparr>)"
| exit_end: "lf_phase L = Draining n \<Longrightarrow> exit_join (lf_world L) n = Inr ts \<Longrightarrow>
    set ts \<inter> set (map wt_id (lf_threads L)) = {} \<Longrightarrow>
    exit_close (emit (map Join ts) (lf_world L)) n = Inr w \<Longrightarrow>
    life_step L (L\<lparr>lf_world := w, lf_phase := Exited\<rparr>)"

inductive_cases life_stepE: "life_step L L'"

definition started :: "World \<Rightarrow> Life" where
  "started w = \<lparr>lf_world = w, lf_threads = [], lf_next = 0, lf_running = True, lf_phase = Serving\<rparr>"

text \<open>What a process that owns the files \<open>fs\<close> goes through from its start.\<close>

definition boot :: "World \<Rightarrow> World \<Rightarrow> bool" where
  "boot w w' \<longleftrightarrow> (\<exists>fd prt addr rst u. server_create w fd 0 prt addr rst = Go u \<and> server_setup u 0 = Inr (Go w'))"

definition reachable :: "Life \<Rightarrow> bool" where
  "reachable L \<longleftrightarrow> (\<exists>w w'. boot w w' \<and> life_step\<^sup>*\<^sup>* (started w') L)"

section \<open>What a worker does to the connections\<close>

definition worked :: "World \<Rightarrow> nat \<Rightarrow> bool \<Rightarrow> World \<Rightarrow> bool" where
  "worked w k running w' \<longleftrightarrow> (world_wf w \<longrightarrow> world_wf w') \<and> (same_conns w w' \<or> (left w k w' \<and> \<not> running))"

lemma left_sock: "left w k w' \<Longrightarrow> client_of w' k = Inr c \<Longrightarrow> sock c = -1"
  by (auto simp: left_def conns_def client_of_def split: if_splits)
    (metis length_list_update length_map nth_list_update_eq nth_map)

lemma run_command_worked:
  assumes "run_command w k cmd qb n = Inr (running, w', cmd', qb')"
  shows "worked w k running w'"
proof (cases "malloc (w_mem w)")
  case (Pair ok m)
  show ?thesis
  proof (cases ok)
    case False
    with Pair assms show ?thesis by (auto simp: run_command_defs worked_def same_conns_def)
  next
    case True
    have "\<exists>cmdp u rc w1 c. cmd_dispatch cmdp u k = Inr (rc, w1) \<and> server u = server w \<and> server w' = server w1 \<and>
        client_of w1 k = Inr c \<and> (sock c = -1 \<longrightarrow> \<not> running)"
      using Pair assms True by (fastforce simp: run_command_defs Let_def res_bind_eq_Inr)
    then obtain cmdp u rc w1 c where d: "cmd_dispatch cmdp u k = Inr (rc, w1)" "server u = server w"
      "server w' = server w1" "client_of w1 k = Inr c" "sock c = -1 \<longrightarrow> \<not> running"
      by blast
    have "left w k w' = left u k w1" "same_conns w w' = same_conns u w1"
      "world_wf u = world_wf w" "world_wf w' = world_wf w1"
      using d(2,3) by (simp_all add: conns_def world_wf_def left_def same_conns_def)
    with cmd_dispatch_safe [OF d(1)] dispatch_conns [OF d(1)] d(5) left_sock [OF _ d(4)] show ?thesis
      by (auto simp: worked_def safe_def)
  qed
qed

lemma worked_trans: "worked w k True u \<Longrightarrow> worked u k r v \<Longrightarrow> worked w k r v"
  by (auto simp: worked_def same_conns_def left_def)

lemma worked_refl: "worked w k r w"
  by (simp add: worked_def same_conns_def)

lemma run_commands_worked: "run_commands w k cmd qb = Inr (running, w', cmd', qb') \<Longrightarrow> worked w k running w'"
proof (induction w k cmd qb arbitrary: running w' cmd' qb' rule: run_commands.induct)
  case (1 w k cmd qb)
  from "1.prems" obtain e where e: "find_crlf (sb_buf qb) (sb_len qb) = Inr e"
    by (subst (asm) run_commands.simps) (auto simp: res_bind_eq_Inr)
  show ?case
  proof (cases "e = 0")
    case True
    with "1.prems" e show ?thesis
      by (subst (asm) run_commands.simps) (auto simp: worked_refl)
  next
    case False
    from "1.prems" have eq: "res_bind (run_command w k cmd qb e) (\<lambda>(running, w, cmd, querybuf).
        if running then run_commands w k cmd querybuf else Inr (False, w, cmd, querybuf)) = Inr (running, w', cmd', qb')"
      by (subst (asm) run_commands.simps) (use e False in simp)
    then obtain r w1 cmd1 qb1 where r: "run_command w k cmd qb e = Inr (r, w1, cmd1, qb1)"
      by (auto simp: res_bind_eq_Inr)
    with eq have r': "if r then run_commands w1 k cmd1 qb1 = Inr (running, w', cmd', qb') else \<not> running \<and> w' = w1"
      by auto
    show ?thesis
    proof (cases r)
      case True
      with "1.IH" [OF e False r refl refl refl True] r r' run_command_worked [OF r] show ?thesis
        by (simp add: worked_trans)
    next
      case False
      with r' run_command_worked [OF r] show ?thesis by simp
    qed
  qed
qed

lemma worker_recv_worked:
  assumes "worker_loop w k cmd qb [r] = Inr (th, w', cmd', qb')"
  shows "worked w k (th \<noteq> Finished) w'"
proof (cases r)
  case (RecvData bytes)
  with assms obtain rc qbp m running where "run_commands (w\<lparr>w_mem := m\<rparr>) k cmd (the qbp) = Inr (running, w', cmd', qb')"
    "th = (if running then Waiting else Finished)"
    by (auto simp: res_bind_eq_Inr split: if_splits)
  with run_commands_worked show ?thesis by (fastforce simp: worked_def same_conns_def left_def)
qed (use assms in \<open>auto simp: worked_refl\<close>)

section \<open>What holds in every reachable state\<close>

definition life_inv :: "Life \<Rightarrow> bool" where
  "life_inv L \<longleftrightarrow> world_wf (lf_world L) \<and> (\<forall>t \<in> set (lf_threads L). wt_slot t < MAX_CONN) \<and>
     (\<exists>socks ths n. conns (lf_world L) = Some (socks, ths, n) \<and> int (length (lf_threads L)) \<le> n \<and>
        n \<le> int MAX_CONN \<and> length ths = MAX_CONN \<and> (\<forall>i < nat n. ths ! i \<noteq> None))"

lemma conns_put_thread:
  "conns (put_thread n tid w) = map_option (\<lambda>(socks, ths, c). (socks, ths[n := Some tid], c)) (conns w)"
  by (cases "server w") (simp_all add: conns_def put_thread_def)

lemma conns_add_clients:
  "conns (add_clients m w) = map_option (\<lambda>(socks, ths, c). (socks, ths, c + m)) (conns w)"
  by (cases "server w") (simp_all add: conns_def add_clients_def)

lemma conns_put_sock:
  "conns (put_client k c w) = map_option (\<lambda>(socks, ths, n). (socks[k := sock c], ths, n)) (conns w)"
  by (cases "server w") (simp_all add: conns_def put_client_def map_update)

lemma world_wf_put_thread [wf_intros]: "world_wf w \<Longrightarrow> world_wf (put_thread n tid w)"
  by (auto simp: world_wf_def server_wf_def put_thread_def)

lemma close_keeps:
  "world_wf w \<Longrightarrow> world_wf (snd (sys_close w fd))" "conns (snd (sys_close w fd)) = conns w"
  "server (snd (sys_close w fd)) = server w"
proof -
  show s: "server (snd (sys_close w fd)) = server w"
    by (auto simp: sys_close_def split: list.split bool.split)
  then show "world_wf w \<Longrightarrow> world_wf (snd (sys_close w fd))" "conns (snd (sys_close w fd)) = conns w"
    by (simp_all add: world_wf_def conns_def)
qed

text \<open>What accepting a connection does to the world, and when it does.\<close>

definition registered :: "World \<Rightarrow> nat \<Rightarrow> Client \<Rightarrow> nat \<Rightarrow> World" where
  "registered w n c tid = emit [WrLock ServerLock, Unlock ServerLock] (add_clients 1 (put_thread n tid
     ((put_client n c w)\<lparr>w_mem := snd (malloc (w_mem w))\<rparr>)))"

lemma put_thread_emit [simp]: "put_thread n tid (emit es w) = emit es (put_thread n tid w)"
  by (simp add: put_thread_def emit_def)

lemma accept_cases:
  assumes "server w = Some s" and "server_wf s" and "0 \<le> clients_count s"
  shows "server_accept_client w (Accepted fd a p) tid =
    (if int MAX_CONN \<le> clients_count s then Inr (0, None, snd (sys_close w fd))
     else if fst (malloc (w_mem w)) then Inr (0, Some (nat (clients_count s)), registered w (nat (clients_count s))
       ((clients_array s ! nat (clients_count s))\<lparr>sock := fd, ip := a, port := p\<rparr>) tid)
     else Inl NullDeref)"
proof (cases "int MAX_CONN \<le> clients_count s")
  case False
  with assms have c: "client_of w (nat (clients_count s)) = Inr (clients_array s ! nat (clients_count s))"
    by (simp add: client_of_def server_wf_def nat_less_iff)
  obtain ok m where "malloc (w_mem w) = (ok, m)" by force
  with assms(1,3) False c show ?thesis
    by (cases ok) (simp_all add: server_accept_client_def registered_def Let_def)
qed (use assms(1) in \<open>simp add: server_accept_client_def\<close>)

lemma accept_negative:
  "server w = Some s \<Longrightarrow> clients_count s < 0 \<Longrightarrow> server_accept_client w (Accepted fd a p) tid = Inl OutOfBounds"
  by (simp add: server_accept_client_def MAX_CONN_def)

lemma conns_registered:
  "conns (registered w n c tid) = map_option (\<lambda>(socks, ths, m). (socks[n := sock c], ths[n := Some tid], m + 1)) (conns w)"
  by (cases "conns w") (auto simp: registered_def conns_add_clients conns_put_thread conns_put_sock)

lemma world_wf_registered [wf_intros]: "world_wf w \<Longrightarrow> db c < NUM_DBS \<Longrightarrow> world_wf (registered w n c tid)"
  by (auto simp: registered_def client_wf_def intro!: wf_intros)

lemma accept_outcome:
  assumes "server_accept_client w acc tid = Inr (rc, st, w')" and "world_wf w"
  shows "case st of None \<Rightarrow> world_wf w' \<and> conns w' = conns w
    | Some k \<Rightarrow> \<exists>fd a p s. acc = Accepted fd a p \<and> server w = Some s \<and> clients_count s < int MAX_CONN \<and>
        clients_count s = int k \<and> k < MAX_CONN \<and> fst (malloc (w_mem w)) \<and>
        w' = registered w k ((clients_array s ! k)\<lparr>sock := fd, ip := a, port := p\<rparr>) tid \<and> world_wf w'"
proof (cases acc)
  case (Accepted fd a p)
  obtain s where s: "server w = Some s" "server_wf s" using assms(2) by (auto simp: world_wf_def)
  show ?thesis
  proof (cases "0 \<le> clients_count s")
    case True
    have "k < MAX_CONN \<Longrightarrow> db (clients_array s ! k) < NUM_DBS" for k
      using s(2) by (auto simp: server_wf_def client_wf_def)
    with True assms accept_cases [OF s True, of fd a p tid] Accepted s(1) show ?thesis
      by (auto simp: close_keeps nat_less_iff intro!: wf_intros split: if_splits)
  next
    case False
    then show ?thesis using assms accept_negative [OF s(1)] Accepted by simp
  qed
qed (use assms in \<open>auto simp: server_accept_client_def\<close>)

lemma life_inv_worked:
  assumes "life_inv L" and "worked (lf_world L) k (th \<noteq> Finished) w" and "i < length (lf_threads L)"
  shows "life_inv (L\<lparr>lf_world := w, lf_threads := after_recv (lf_threads L) i th cmd qb\<rparr>)"
proof -
  have sub: "set (map wt_slot (after_recv (lf_threads L) i th cmd qb)) \<subseteq> set (map wt_slot (lf_threads L))"
    using assms(3) by (auto simp: after_recv_def dest!: in_set_takeD in_set_dropD set_update_subset_insert [THEN subsetD])
  have len: "length (after_recv (lf_threads L) i th cmd qb) = length (lf_threads L) - (if th = Finished then 1 else 0)"
    using assms(3) by (simp add: after_recv_def)
  show ?thesis
    using assms(1,2) sub len assms(3)
    by (auto simp: life_inv_def worked_def same_conns_def left_def)
qed

lemma worker_start_keeps:
  "worker_start w = (st, w') \<Longrightarrow> \<exists>m. w' = w\<lparr>w_mem := m\<rparr>"
  by (cases "malloc (w_mem w)"; cases "fst (malloc (w_mem w))"; cases "cmd_init (snd (malloc (w_mem w)))")
    (auto simp: worker_start_def Let_def split: option.splits)

lemma life_inv_start:
  assumes "life_inv L" and "server_accept_client (lf_world L) acc (lf_next L) = Inr (0, Some k, w)"
    and "worker_start w = (st, w')"
  shows "life_inv (L\<lparr>lf_world := w', lf_threads := lf_threads L @ new_thread (lf_next L) k st, lf_next := Suc (lf_next L)\<rparr>)"
proof -
  from assms(1) obtain socks ths n where i: "world_wf (lf_world L)" "conns (lf_world L) = Some (socks, ths, n)"
      "int (length (lf_threads L)) \<le> n" "length ths = MAX_CONN" "\<forall>i < nat n. ths ! i \<noteq> None"
    by (auto simp: life_inv_def)
  from accept_outcome [OF assms(2) i(1)] obtain fd a p s where a: "server (lf_world L) = Some s" "clients_count s < int MAX_CONN"
      "clients_count s = int k" "k < MAX_CONN" "world_wf w"
      "w = registered (lf_world L) k ((clients_array s ! k)\<lparr>sock := fd, ip := a, port := p\<rparr>) (lf_next L)"
    by auto
  have n: "n = int k" using i(2) a(1,3) by (auto simp: conns_def)
  have c: "conns w' = Some (socks[k := fd], ths[k := Some (lf_next L)], n + 1)" "world_wf w'"
    using worker_start_keeps [OF assms(3)] a(5,6) i(2) by (auto simp: conns_registered)
  have "length (new_thread (lf_next L) k st) \<le> 1" "\<forall>t \<in> set (new_thread (lf_next L) k st). wt_slot t = k"
    by (auto simp: new_thread_def split: option.splits)
  with i a(2-4) c n assms(1) show ?thesis
    by (auto simp: life_inv_def nth_list_update)
qed

lemma world_same_conns: "conns w' = conns (lf_world L) \<Longrightarrow> world_wf w' \<Longrightarrow> life_inv L \<Longrightarrow> life_inv (L\<lparr>lf_world := w'\<rparr>)"
  by (simp add: life_inv_def)

lemma exit_shutdown_keeps:
  "exit_shutdown w = Inr (n, w') \<Longrightarrow> world_wf w \<Longrightarrow> world_wf w' \<and> conns w' = conns w"
  by (auto simp: exit_shutdown_def Let_def res_bind_eq_Inr split: option.splits)

definition only_socks :: "World \<Rightarrow> World \<Rightarrow> bool" where
  "only_socks w w' \<longleftrightarrow> (world_wf w \<longrightarrow> world_wf w') \<and> map_option snd (conns w') = map_option snd (conns w)"

lemma close_client_keeps: "close_client w i = Inr w' \<Longrightarrow> only_socks w w'"
  by (auto simp: close_client_def res_bind_eq_Inr only_socks_def split_beta conns_put_sock close_keeps
      option.map_comp comp_def client_wf_def intro!: wf_intros dest: client_of_in)

lemma exit_close_keeps:
  assumes "exit_close w n = Inr w'"
  shows "only_socks w w'"
proof -
  have "fold_res close_client u is = Inr v \<Longrightarrow> only_socks u v" for u v "is"
    by (induction "is" arbitrary: u) (auto simp: res_bind_eq_Inr only_socks_def dest!: close_client_keeps)
  with assms show ?thesis
    by (fastforce simp: exit_close_def res_bind_eq_Inr only_socks_def close_keeps split: option.splits)
qed

lemma life_inv_socks:
  assumes "life_inv L" and "only_socks (lf_world L) w"
  shows "life_inv (L\<lparr>lf_world := w\<rparr>)"
proof -
  from assms obtain socks ths n where "conns (lf_world L) = Some (socks, ths, n)" "map_option snd (conns w) = Some (ths, n)"
    by (auto simp: life_inv_def only_socks_def)
  then obtain socks' where "conns w = Some (socks', ths, n)" by (cases "conns w") auto
  with assms \<open>conns (lf_world L) = Some (socks, ths, n)\<close> show ?thesis
    by (auto simp: life_inv_def only_socks_def)
qed

lemma life_inv_fields [simp]:
  "life_inv (L\<lparr>lf_phase := ph\<rparr>) = life_inv L" "life_inv (L\<lparr>lf_running := r\<rparr>) = life_inv L"
  by (simp_all add: life_inv_def)

lemma life_inv_step: "life_step L L' \<Longrightarrow> life_inv L \<Longrightarrow> life_inv L'"
proof (induction rule: life_step.induct)
  case (accept_none L acc w)
  then show ?case using accept_outcome [OF accept_none(3)] by (intro world_same_conns) (auto simp: life_inv_def)
next
  case (accept_start L acc k w st w')
  then show ?case by (intro life_inv_start)
next
  case (work L i t r th w cmd qb)
  then show ?case using worker_recv_worked by (intro life_inv_worked) auto
next
  case (save L w)
  then obtain rc where "rdb_save (lf_world L) None = Inr (rc, w)" by (auto simp: res_bind_eq_Inr)
  with rdb_save_conns rdb_save_safe save(3) show ?case
    by (intro world_same_conns) (fastforce simp: same_conns_def safe_def life_inv_def)+
next
  case (exit_begin L n w)
  then have "life_inv (L\<lparr>lf_world := w\<rparr>)"
    using exit_shutdown_keeps by (intro world_same_conns) (auto simp: life_inv_def)
  then show ?case by (simp add: life_inv_def)
next
  case (exit_end L n ts w)
  have "only_socks (lf_world L) w" using exit_close_keeps [OF exit_end(4)] by (simp add: only_socks_def)
  with exit_end(5) have "life_inv (L\<lparr>lf_world := w\<rparr>)" by (rule life_inv_socks)
  then show ?case by (simp add: life_inv_def)
qed simp

lemma zero_server_wf: "server_wf (zero_server\<lparr>srv_port := p, srv_addr := a, restore := r, srv_sock := fd\<rparr>)"
  using server_wf_zero by (simp add: server_wf_def)

lemma boot_inv:
  assumes "boot w w'"
  shows "life_inv (started w')"
proof -
  from assms obtain fd prt addr rst u where b: "server_create w fd 0 prt addr rst = Go u" "server_setup u 0 = Inr (Go w')"
    by (auto simp: boot_def)
  obtain m where u: "u = w\<lparr>w_mem := m, server := Some (zero_server\<lparr>srv_port := prt, srv_addr := addr, restore := rst, srv_sock := fd\<rparr>)\<rparr>"
    using b(1) by (cases "malloc (w_mem w)") (auto simp: server_create_def Let_def split: bool.splits if_splits)
  then have u': "world_wf u" "conns u = Some (replicate MAX_CONN 0, replicate MAX_CONN None, 0)"
    using zero_server_wf by (simp_all add: world_wf_def conns_def) (simp add: zero_server_def zero_client_def)
  have "world_wf w' \<and> conns w' = conns u"
    using b(2) u' rdb_load_keeps [of u None]
    by (auto simp: server_setup_def res_bind_eq_Inr load_keeps_def split: option.splits if_splits)
  with u' show ?thesis by (simp add: life_inv_def started_def)
qed

lemma reachable_inv: "reachable L \<Longrightarrow> life_inv L"
proof -
  assume "reachable L"
  then obtain w w' where "boot w w'" "life_step\<^sup>*\<^sup>* (started w') L" by (auto simp: reachable_def)
  from this(2) boot_inv [OF this(1)] show ?thesis
    by (induction rule: rtranclp_induct) (auto intro: life_inv_step)
qed

section \<open>The exit reaches its end\<close>

definition client_at :: "World \<Rightarrow> nat \<Rightarrow> Client" where
  "client_at w i = (case client_of w i of Inl e \<Rightarrow> zero_client | Inr c \<Rightarrow> c)"

lemma client_at: "world_wf w \<Longrightarrow> i < MAX_CONN \<Longrightarrow> client_of w i = Inr (client_at w i)"
  using client_of_wf [of w i] by (auto simp: client_at_def)

lemma client_at_eq: "client_of w i = Inr c \<Longrightarrow> client_at w i = c"
  by (simp add: client_at_def)

lemma close_client_calm:
  assumes "world_wf w" and "calm w" and "client_of w i = Inr c"
  shows "close_client w i = Inr (emit [Close (sock c)] (put_client i (c\<lparr>sock := -1\<rparr>) w))"
  using assms by (simp add: close_client_def sys_close_calm)

lemma client_of_put_any:
  "client_of w k = Inr c \<Longrightarrow> client_of (put_client j c' w) k = Inr (if j = k then c' else c)"
  by (auto simp: client_of_def put_client_def split: option.splits if_splits)

lemma close_clients_calm:
  assumes "world_wf w" and "calm w" and "n \<le> MAX_CONN"
  shows "\<exists>w'. fold_res close_client w [0..<n] = Inr w' \<and> world_wf w' \<and> calm w' \<and> (\<forall>i < MAX_CONN.
      client_of w' i = Inr (if i < n then (client_at w i)\<lparr>sock := -1\<rparr> else client_at w i)) \<and>
    trace w' = trace w @ map (\<lambda>i. Close (sock (client_at w i))) [0..<n]"
  using assms(3)
proof (induction n)
  case 0
  then show ?case using assms client_at by simp
next
  case (Suc n)
  then obtain w1 where w1: "fold_res close_client w [0..<n] = Inr w1" "world_wf w1" "calm w1"
      "\<forall>i < MAX_CONN. client_of w1 i = Inr (if i < n then (client_at w i)\<lparr>sock := -1\<rparr> else client_at w i)"
      "trace w1 = trace w @ map (\<lambda>i. Close (sock (client_at w i))) [0..<n]"
    by auto
  let ?c = "client_at w n"
  have c: "client_of w1 n = Inr ?c"
    using w1(4) Suc.prems by simp
  let ?w2 = "emit [Close (sock ?c)] (put_client n (?c\<lparr>sock := -1\<rparr>) w1)"
  have "fold_res close_client w [0..<Suc n] = Inr ?w2"
    using w1(1) close_client_calm [OF w1(2,3) c] by (simp add: fold_res_append)
  moreover have "world_wf ?w2" "calm ?w2"
    using w1(2,3) client_of_in [OF c w1(2)] by (auto simp: client_wf_def intro!: wf_intros)
  moreover have "client_of ?w2 i = Inr (if i < Suc n then (client_at w i)\<lparr>sock := -1\<rparr> else client_at w i)"
    if "i < MAX_CONN" for i
    using client_of_put_any [OF w1(4) [rule_format, OF that], of n "?c\<lparr>sock := -1\<rparr>"]
    by (cases "i = n") (simp_all add: less_Suc_eq)
  moreover have "trace ?w2 = trace w @ map (\<lambda>i. Close (sock (client_at w i))) [0..<Suc n]"
    using w1(5) by simp
  ultimately show ?case by blast
qed

lemma drain: "lf_phase L \<noteq> Exited \<Longrightarrow> life_step\<^sup>*\<^sup>* L (L\<lparr>lf_threads := []\<rparr>)"
proof (induction "lf_threads L" arbitrary: L)
  case Nil
  then have "L\<lparr>lf_threads := []\<rparr> = L" by simp
  then show ?case by simp
next
  case (Cons t ts)
  have "life_step L (L\<lparr>lf_world := lf_world L, lf_threads := after_recv (lf_threads L) 0 Finished (wt_cmd t) (wt_buf t)\<rparr>)"
    using Cons.prems Cons.hyps(2) [symmetric] by (intro work [where r = RecvEof and t = t]) simp_all
  then have "life_step L (L\<lparr>lf_threads := ts\<rparr>)"
    using Cons.hyps(2) [symmetric] by (simp add: after_recv_def)
  moreover have "life_step\<^sup>*\<^sup>* (L\<lparr>lf_threads := ts\<rparr>) (L\<lparr>lf_threads := ts, lf_threads := []\<rparr>)"
    using Cons.prems by (intro Cons.hyps(1)) simp_all
  ultimately show ?case by (simp add: converse_rtranclp_into_rtranclp)
qed

lemma map_res_total: "\<forall>x \<in> set xs. \<exists>y. f x = Inr y \<Longrightarrow> \<exists>ys. map_res f xs = Inr ys"
  by (induction xs) auto

lemma exit_join_total:
  assumes "life_inv L" and "server (lf_world L) = Some s"
  shows "\<exists>ts. exit_join (lf_world L) (nat (clients_count s)) = Inr ts"
proof -
  from assms have h: "length (clients_threads s) = MAX_CONN" "clients_count s \<le> int MAX_CONN"
    "\<forall>i < nat (clients_count s). clients_threads s ! i \<noteq> None"
    by (auto simp: life_inv_def conns_def)
  show ?thesis
    unfolding exit_join_def assms(2) option.case
    by (rule map_res_total) (use h in \<open>auto split: option.split\<close>)
qed

lemma exit_join_threads:
  assumes "exit_join w n = Inr ts" and "server w = Some s"
  shows "ts = map (\<lambda>i. the (clients_threads s ! i)) [0..<n]" "\<forall>i < n. clients_threads s ! i \<noteq> None"
proof -
  let ?f = "\<lambda>i. if i < length (clients_threads s)
      then (case clients_threads s ! i of None \<Rightarrow> Inl Uninit | Some t \<Rightarrow> Inr t) else Inl OutOfBounds"
  have "map_res ?f xs = Inr ys \<Longrightarrow> ys = map (\<lambda>i. the (clients_threads s ! i)) xs \<and> (\<forall>i \<in> set xs. clients_threads s ! i \<noteq> None)" for xs ys
    by (induction xs arbitrary: ys) (auto simp: res_bind_eq_Inr split: if_splits option.splits)
  from this [of "[0..<n]" ts] assms
  show "ts = map (\<lambda>i. the (clients_threads s ! i)) [0..<n]" "\<forall>i < n. clients_threads s ! i \<noteq> None"
    by (simp_all add: exit_join_def)
qed

lemma exit_shutdown_eq:
  assumes "world_wf w" and "server w = Some s" and "nat (clients_count s) \<le> MAX_CONN"
  shows "exit_shutdown w = Inr (nat (clients_count s), emit (RdLock ServerLock # Unlock ServerLock #
     map (\<lambda>i. Shutdown (sock (client_at w i))) [0..<nat (clients_count s)]) w)"
proof -
  have "map_res (client_of w) [0..<nat (clients_count s)] = Inr (map (client_at w) [0..<nat (clients_count s)])"
    using client_at [OF assms(1)] assms(3) by (intro map_res_eq_map) simp
  then show ?thesis
    using assms(2) by (simp add: exit_shutdown_def Let_def comp_def)
qed

end
