(* ===== verification/LogLib.thy ===== *)
theory LogLib
  imports CLib
begin

text \<open>
  The logging library of \<^verbatim>\<open>log.c\<close>: the global logger, its registration of callbacks, and what one call
  of \<open>log_log\<close> writes and calls, in order.  A stream or user datum is a number, the message is what
  \<open>vfprintf\<close> makes of the format and its arguments, and the two formatted times of an event, which
  come from the clock, are arguments.  The server calls it with one of six levels only; any other
  level indexes the table of their names out of bounds.
\<close>

definition MAX_CALLBACKS :: nat where "MAX_CALLBACKS = 32"

definition LOG_DEBUG :: int where "LOG_DEBUG = 1"
definition LOG_INFO :: int where "LOG_INFO = 2"

record log_Event =
  ev_msg :: string
  ev_file :: string
  ev_udata :: nat
  ev_line :: int
  ev_level :: int

datatype log_fn = FileCallback | UserFn nat

record Callback =
  cb_fn :: "log_fn option"
  cb_udata :: nat
  cb_level :: int

record Logger =
  l_udata :: nat
  l_lock :: "nat option"
  l_level :: int
  l_quiet :: bool
  l_callbacks :: "Callback list"

definition null_callback :: Callback where
  "null_callback = \<lparr>cb_fn = None, cb_udata = 0, cb_level = 0\<rparr>"

definition initial_logger :: Logger where
  "initial_logger = \<lparr>l_udata = 0, l_lock = None, l_level = 0, l_quiet = False,
     l_callbacks = replicate MAX_CALLBACKS null_callback\<rparr>"

text \<open>What a call does: a lock function called, a line written to a stream, a user callback called.\<close>

datatype log_out = LockCall nat bool nat | WriteLine nat string | UserCall nat log_Event

definition STDERR :: nat where "STDERR = 2"

definition level_strings :: "string list" where
  "level_strings = [''TRACE'', ''DEBUG'', ''INFO'', ''WARN'', ''ERROR'', ''FATAL'']"

definition ESC :: string where "ESC = [CHR 0x1B]"

definition level_colors :: "string list" where
  "level_colors = map (\<lambda>c. ESC @ ''['' @ c @ ''m'') [''94'', ''36'', ''32'', ''33'', ''31'', ''35'']"

definition log_level_string :: "int \<Rightarrow> ub + string" where
  "log_level_string level =
     (if 0 \<le> level \<and> level < int (length level_strings) then Inr (level_strings ! nat level) else Inl OutOfBounds)"

text \<open>\<open>%-5s\<close>.\<close>

definition pad5 :: "string \<Rightarrow> string" where
  "pad5 s = s @ replicate (5 - length s) SPACE"

definition stdout_callback :: "string \<Rightarrow> log_Event \<Rightarrow> ub + log_out" where
  "stdout_callback hms ev =
     res_bind (log_level_string (ev_level ev)) (\<lambda>lv.
     Inr (WriteLine (ev_udata ev)
       (hms @ '' '' @ level_colors ! nat (ev_level ev) @ pad5 lv @ ESC @ ''[0m '' @ ESC @ ''[90m'' @
        ev_file ev @ '':'' @ show_int (ev_line ev) @ '':'' @ ESC @ ''[0m '' @ ev_msg ev @ [LF])))"

definition file_callback :: "string \<Rightarrow> log_Event \<Rightarrow> ub + log_out" where
  "file_callback date ev =
     res_bind (log_level_string (ev_level ev)) (\<lambda>lv.
     Inr (WriteLine (ev_udata ev)
       (date @ '' '' @ pad5 lv @ '' '' @ ev_file ev @ '':'' @ show_int (ev_line ev) @ '': '' @ ev_msg ev @ [LF])))"

definition log_lock :: "Logger \<Rightarrow> bool \<Rightarrow> log_out list" where
  "log_lock L b = (case l_lock L of None \<Rightarrow> [] | Some f \<Rightarrow> [LockCall f b (l_udata L)])"

definition log_set_lock :: "Logger \<Rightarrow> nat option \<Rightarrow> nat \<Rightarrow> Logger" where
  "log_set_lock L f u = L\<lparr>l_lock := f, l_udata := u\<rparr>"

definition log_set_level :: "Logger \<Rightarrow> int \<Rightarrow> Logger" where
  "log_set_level L n = L\<lparr>l_level := n\<rparr>"

definition log_set_quiet :: "Logger \<Rightarrow> bool \<Rightarrow> Logger" where
  "log_set_quiet L q = L\<lparr>l_quiet := q\<rparr>"

text \<open>The search for the first free place among the callbacks.\<close>

fun add_free :: "Callback list \<Rightarrow> Callback \<Rightarrow> Callback list option" where
  "add_free [] cb = None"
| "add_free (c # cs) cb = (if cb_fn c = None then Some (cb # cs) else map_option (Cons c) (add_free cs cb))"

definition log_add_callback :: "Logger \<Rightarrow> log_fn option \<Rightarrow> nat \<Rightarrow> int \<Rightarrow> int \<times> Logger" where
  "log_add_callback L f u level =
     (case add_free (l_callbacks L) \<lparr>cb_fn = f, cb_udata = u, cb_level = level\<rparr> of
        None \<Rightarrow> (-1, L)
      | Some cs \<Rightarrow> (0, L\<lparr>l_callbacks := cs\<rparr>))"

definition log_add_fp :: "Logger \<Rightarrow> nat \<Rightarrow> int \<Rightarrow> int \<times> Logger" where
  "log_add_fp L fp level = log_add_callback L (Some FileCallback) fp level"

definition call_callback :: "string \<Rightarrow> log_fn \<Rightarrow> log_Event \<Rightarrow> ub + log_out" where
  "call_callback date f ev =
     (case f of FileCallback \<Rightarrow> file_callback date ev | UserFn n \<Rightarrow> Inr (UserCall n ev))"

fun log_callbacks :: "string \<Rightarrow> log_Event \<Rightarrow> Callback list \<Rightarrow> ub + log_out list" where
  "log_callbacks date ev [] = Inr []"
| "log_callbacks date ev (c # cs) =
     (case cb_fn c of
        None \<Rightarrow> Inr []
      | Some f \<Rightarrow>
          if ev_level ev \<ge> cb_level c then
            res_bind (call_callback date f (ev\<lparr>ev_udata := cb_udata c\<rparr>)) (\<lambda>out.
            res_bind (log_callbacks date ev cs) (\<lambda>outs. Inr (out # outs)))
          else log_callbacks date ev cs)"

definition log_log :: "Logger \<Rightarrow> string \<Rightarrow> string \<Rightarrow> int \<Rightarrow> string \<Rightarrow> int \<Rightarrow> string \<Rightarrow> ub + log_out list" where
  "log_log L hms date level file line msg =
     (let ev = \<lparr>ev_msg = msg, ev_file = file, ev_udata = 0, ev_line = line, ev_level = level\<rparr> in
      res_bind (if \<not> l_quiet L \<and> level \<ge> l_level L
                then res_bind (stdout_callback hms (ev\<lparr>ev_udata := STDERR\<rparr>)) (\<lambda>out. Inr [out])
                else Inr []) (\<lambda>outs1.
      res_bind (log_callbacks date ev (l_callbacks L)) (\<lambda>outs2.
      Inr (log_lock L True @ outs1 @ outs2 @ log_lock L False))))"

section \<open>The registered callbacks\<close>

text \<open>The registered callbacks fill the places from the first on.\<close>

definition registered_cbs :: "Logger \<Rightarrow> Callback list \<Rightarrow> bool" where
  "registered_cbs L cs \<longleftrightarrow> length cs \<le> MAX_CALLBACKS \<and> (\<forall>c \<in> set cs. cb_fn c \<noteq> None) \<and>
     l_callbacks L = cs @ replicate (MAX_CALLBACKS - length cs) null_callback"

lemma registered_initial: "registered_cbs initial_logger []"
  by (simp add: registered_cbs_def initial_logger_def)

lemma add_free_behind:
  "\<forall>c \<in> set cs. cb_fn c \<noteq> None \<Longrightarrow> add_free (cs @ ds) cb = map_option ((@) cs) (add_free ds cb)"
  by (induction cs) (cases "add_free ds cb"; auto)+

lemma add_registered:
  assumes "registered_cbs L cs"
  shows "log_add_callback L (Some f) u level =
    (if length cs < MAX_CALLBACKS
     then (0, L\<lparr>l_callbacks := cs @ \<lparr>cb_fn = Some f, cb_udata = u, cb_level = level\<rparr> #
       replicate (MAX_CALLBACKS - Suc (length cs)) null_callback\<rparr>)
     else (-1, L))"
proof (cases "length cs < MAX_CALLBACKS")
  case True
  then have "replicate (MAX_CALLBACKS - length cs) null_callback =
      null_callback # replicate (MAX_CALLBACKS - Suc (length cs)) null_callback"
    by (metis Suc_diff_Suc replicate_Suc)
  with assms True show ?thesis
    by (simp add: log_add_callback_def registered_cbs_def add_free_behind null_callback_def)
qed (use assms in \<open>auto simp: log_add_callback_def registered_cbs_def add_free_behind [where ds = "[]", simplified]\<close>)

lemma log_callbacks_registered:
  assumes "\<forall>c \<in> set cs. cb_fn c \<noteq> None" and "0 \<le> ev_level ev" and "ev_level ev < 6"
  shows "\<exists>outs. log_callbacks date ev (cs @ replicate n null_callback) = Inr outs \<and>
    map Inr outs = map (\<lambda>c. call_callback date (the (cb_fn c)) (ev\<lparr>ev_udata := cb_udata c\<rparr>))
      (filter (\<lambda>c. cb_level c \<le> ev_level ev) cs)"
  using assms(1)
proof (induction cs)
  case Nil
  then show ?case by (cases n) (simp_all add: null_callback_def)
next
  case (Cons c cs)
  then obtain f outs where f: "cb_fn c = Some f" "log_callbacks date ev (cs @ replicate n null_callback) = Inr outs"
      "map Inr outs = map (\<lambda>c. call_callback date (the (cb_fn c)) (ev\<lparr>ev_udata := cb_udata c\<rparr>))
        (filter (\<lambda>c. cb_level c \<le> ev_level ev) cs)"
    by auto
  obtain out where "call_callback date f (ev\<lparr>ev_udata := cb_udata c\<rparr>) = Inr out"
    using assms(2,3) by (cases f) (simp_all add: call_callback_def file_callback_def log_level_string_def level_strings_def)
  with f show ?case by simp
qed

section \<open>Properties\<close>

text \<open>
Registering callbacks.  Behind the callbacks already registered, a further one takes the next
free place and the call returns 0, up to 32 of them; the call after that returns -1 and changes
nothing.
\<close>
lemma callbacks_bounded:
  assumes "registered_cbs L cs"
  shows "(length cs < MAX_CALLBACKS \<longrightarrow> (\<exists>L'. log_add_callback L (Some f) u level = (0, L') \<and>
      registered_cbs L' (cs @ [\<lparr>cb_fn = Some f, cb_udata = u, cb_level = level\<rparr>]))) \<and>
    (length cs = MAX_CALLBACKS \<longrightarrow> log_add_callback L (Some f) u level = (-1, L))"
  using assms add_registered [OF assms, of f u level] by (auto simp: registered_cbs_def)

text \<open>
C40. What a log call does.  With one of the six levels it never fails: under the lock function, if one
is set, it writes one line to the standard error unless the logger is quiet or the level is below
that of the logger, and then calls exactly the registered callbacks whose level it reaches, in the
order of their registration and each with its own datum.
\<close>
theorem log_delivers:
  assumes "registered_cbs L cs" and "0 \<le> level" and "level < 6"
  shows "\<exists>line outs. log_log L hms date level file n msg =
      Inr (log_lock L True @ (if l_quiet L \<or> level < l_level L then [] else [WriteLine STDERR line]) @ outs @ log_lock L False) \<and>
    map Inr outs = map (\<lambda>c. call_callback date (the (cb_fn c))
        \<lparr>ev_msg = msg, ev_file = file, ev_udata = cb_udata c, ev_line = n, ev_level = level\<rparr>)
      (filter (\<lambda>c. cb_level c \<le> level) cs)"
proof -
  let ?ev = "\<lparr>ev_msg = msg, ev_file = file, ev_udata = 0, ev_line = n, ev_level = level\<rparr>"
  obtain outs where o: "log_callbacks date ?ev (l_callbacks L) = Inr outs"
    "map Inr outs = map (\<lambda>c. call_callback date (the (cb_fn c)) (?ev\<lparr>ev_udata := cb_udata c\<rparr>))
      (filter (\<lambda>c. cb_level c \<le> level) cs)"
    using log_callbacks_registered [of cs ?ev date] assms by (auto simp: registered_cbs_def)
  have "\<exists>line. stdout_callback hms (?ev\<lparr>ev_udata := STDERR\<rparr>) = Inr (WriteLine STDERR line)"
    using assms(2,3) by (simp add: stdout_callback_def log_level_string_def level_strings_def)
  with o show ?thesis by (auto simp: log_log_def Let_def not_le)
qed

theorem log_delivers_witness:
  "\<exists>line. log_log (log_set_level initial_logger LOG_INFO) ''h'' ''d'' LOG_INFO ''f.c'' 9 ''m'' = Inr [WriteLine STDERR line]"
proof -
  have "registered_cbs (log_set_level initial_logger LOG_INFO) []"
    using registered_initial by (simp add: registered_cbs_def log_set_level_def)
  from log_delivers [OF this, of LOG_INFO] show ?thesis
    by (auto simp: LOG_INFO_def log_set_level_def initial_logger_def log_lock_def)
qed

end
