(* ===== verification/CommandLine.thy ===== *)
theory CommandLine
  imports ServerLife LogLib
begin

text \<open>
  The program of \<^verbatim>\<open>minredis.c\<close>: its options, the log level they set, and the start of the server.
  \<open>inet_addr\<close>, which is the network library's, is an argument: it maps a string to an address, or to
  \<open>0xFFFFFFFF\<close> when the string is none.
\<close>

definition PORT_DEFAULT :: nat where "PORT_DEFAULT = 5050"
definition INADDR_ANY :: nat where "INADDR_ANY = 0"
definition INADDR_NONE :: nat where "INADDR_NONE = 2 ^ 32 - 1"

record Options =
  o_port :: nat
  o_addr :: nat
  o_restore :: int
  o_quiet :: int
  o_debug :: int

definition default_options :: Options where
  "default_options = \<lparr>o_port = PORT_DEFAULT, o_addr = INADDR_ANY, o_restore = 0, o_quiet = 0, o_debug = 0\<rparr>"

definition uint16 :: "int \<Rightarrow> nat" where
  "uint16 n = nat (n mod 2 ^ 16)"

text \<open>The loop over the arguments; \<open>None\<close> is the call of \<open>usage\<close>, which exits with 1.\<close>

fun parse_args :: "(string \<Rightarrow> nat) \<Rightarrow> string list \<Rightarrow> Options \<Rightarrow> Options option" where
  "parse_args inet_addr [] opts = Some opts"
| "parse_args inet_addr (a # args) opts =
     (if a = ''--port'' \<and> args \<noteq> [] then parse_args inet_addr (tl args) (opts\<lparr>o_port := uint16 (atoi (hd args))\<rparr>)
      else if a = ''--addr'' \<and> args \<noteq> [] then parse_args inet_addr (tl args) (opts\<lparr>o_addr := inet_addr (hd args)\<rparr>)
      else if a = ''--restore'' then parse_args inet_addr args (opts\<lparr>o_restore := 1\<rparr>)
      else if a = ''--quiet'' then parse_args inet_addr args (opts\<lparr>o_quiet := 1\<rparr>)
      else if a = ''--debug'' then parse_args inet_addr args (opts\<lparr>o_debug := 1\<rparr>)
      else None)"

definition log_options :: "Options \<Rightarrow> Logger \<Rightarrow> Logger" where
  "log_options opts L =
     log_set_quiet (log_set_level L (if o_debug opts \<noteq> 0 then LOG_DEBUG else LOG_INFO)) (o_quiet opts \<noteq> 0)"

text \<open>
  \<open>main\<close> up to the accept loop: \<open>fd\<close>, \<open>bind_rc\<close> and \<open>listen_rc\<close> are what \<open>socket\<close>, \<open>bind\<close> and
  \<open>listen\<close> return.
\<close>

definition main_start ::
    "(string \<Rightarrow> nat) \<Rightarrow> string list \<Rightarrow> Logger \<Rightarrow> World \<Rightarrow> int \<Rightarrow> int \<Rightarrow> int \<Rightarrow> ub + (Logger \<times> World) proc" where
  "main_start inet_addr args L w fd bind_rc listen_rc =
     (case parse_args inet_addr args default_options of
        None \<Rightarrow> Inr (Exit 1)
      | Some opts \<Rightarrow>
          if o_addr opts = INADDR_NONE then Inr (Exit 1)
          else
            (let L = log_options opts L in
             case server_create w fd bind_rc (o_port opts) (o_addr opts) (o_restore opts) of
               Exit rc \<Rightarrow> Inr (Exit rc)
             | Go w \<Rightarrow>
                 res_bind (server_setup w listen_rc) (\<lambda>p.
                 case p of Exit rc \<Rightarrow> Inr (Exit rc) | Go w \<Rightarrow> Inr (Go (L, w)))))"

section \<open>What the options mean\<close>

datatype setting = Port string | Addr string | Restore | Quiet | Debug

fun render :: "setting \<Rightarrow> string list" where
  "render (Port v) = [''--port'', v]"
| "render (Addr a) = [''--addr'', a]"
| "render Restore = [''--restore'']"
| "render Quiet = [''--quiet'']"
| "render Debug = [''--debug'']"

text \<open>The port that a value stands for: a decimal number modulo 65536, or 0 when the value does not begin as a number.\<close>

definition port_of :: "string \<Rightarrow> nat \<Rightarrow> bool" where
  "port_of v p \<longleftrightarrow> (\<forall>n. int n \<le> INT_MAX \<and> v = show_nat n \<longrightarrow> p = n mod 65536) \<and>
     (\<forall>c u. v = c # u \<and> \<not> is_space c \<and> \<not> is_digit c \<and> c \<noteq> CHR ''+'' \<and> c \<noteq> CHR ''-'' \<longrightarrow> p = 0)"

fun apply_setting :: "(string \<Rightarrow> nat) \<Rightarrow> setting \<Rightarrow> Options \<Rightarrow> Options" where
  "apply_setting ia (Port v) opts = opts\<lparr>o_port := uint16 (atoi v)\<rparr>"
| "apply_setting ia (Addr a) opts = opts\<lparr>o_addr := ia a\<rparr>"
| "apply_setting ia Restore opts = opts\<lparr>o_restore := 1\<rparr>"
| "apply_setting ia Quiet opts = opts\<lparr>o_quiet := 1\<rparr>"
| "apply_setting ia Debug opts = opts\<lparr>o_debug := 1\<rparr>"

lemma port_of_atoi: "port_of v (uint16 (atoi v))"
proof -
  have "uint16 (atoi (show_nat n)) = n mod 65536" if "int n \<le> INT_MAX" for n
    using atoi_show_int [of "int n"] that by (simp add: show_int_def uint16_def INT_MIN_def nat_mod_distrib)
  moreover have "uint16 (atoi (c # u)) = 0" if "\<not> is_space c" "\<not> is_digit c" "c \<noteq> CHR ''+''" "c \<noteq> CHR ''-''" for c u
    using that by (simp add: atoi_def strtol_def uint16_def LONG_MAX_def LONG_MIN_def int32_def)
  ultimately show ?thesis by (simp add: port_of_def)
qed

lemma parse_settings:
  "parse_args ia (concat (map render ss)) opts = Some (fold (apply_setting ia) ss opts)"
proof (induction ss arbitrary: opts)
  case (Cons s ss)
  then show ?case by (cases s) simp_all
qed simp

text \<open>What is parsed is a list of settings.\<close>

lemma parse_some: "parse_args ia args opts = Some opts' \<Longrightarrow> \<exists>ss. args = concat (map render ss)"
proof (induction ia args opts rule: parse_args.induct)
  case 1
  then show ?case by (intro exI [of _ "[]"]) simp
next
  case (2 ia a args opts)
  consider v vs where "a = ''--port''" "args = v # vs" | v vs where "a = ''--addr''" "args = v # vs"
    | "a = ''--restore''" | "a = ''--quiet''" | "a = ''--debug''"
    using 2(6) by (cases args) (auto split: if_splits)
  then obtain s rest o2 where s: "a # args = render s @ rest" "parse_args ia rest o2 = Some opts'"
      "\<exists>ss. rest = concat (map render ss)"
  proof cases
    case (1 v vs)
    with that [of "Port v" vs] 2(1,6) show ?thesis by simp
  next
    case (2 v vs)
    with that [of "Addr v" vs] "2.IH"(2) "2.prems" show ?thesis by simp
  next
    case 3
    with that [of Restore args] 2(3,6) show ?thesis by simp
  next
    case 4
    with that [of Quiet args] 2(4,6) show ?thesis by simp
  next
    case 5
    with that [of Debug args] 2(5,6) show ?thesis by simp
  qed
  then obtain ss where "rest = concat (map render ss)" by blast
  with s(1) show ?case by (intro exI [of _ "s # ss"]) simp
qed

section \<open>Properties\<close>

text \<open>
C34. The command line is read as it is meant.  An argument list is either a list of settings, or the
program exits with 1 before it creates a server (what \<open>usage\<close> prints is not modelled).  A list of settings, in any order and
with any value after \<open>--port\<close> and \<open>--addr\<close>, is applied from left to right: an address is what \<open>inet_addr\<close>
makes of its value, and when the last one is none the program also exits with 1 before it creates a
server; a port is its value modulo 65536, and 0 when the value does not begin as a number, which is not refused.
\<close>
theorem args_read:
  "parse_args ia (concat (map render ss)) default_options = Some (fold (apply_setting ia) ss default_options) \<and>
    (o_addr (fold (apply_setting ia) ss default_options) = INADDR_NONE \<longrightarrow>
       main_start ia (concat (map render ss)) L w fd bind_rc listen_rc = Inr (Exit 1)) \<and>
    port_of v (o_port (apply_setting ia (Port v) opts)) \<and>
    (args \<notin> range (\<lambda>ss. concat (map render ss)) \<longrightarrow> main_start ia args L w fd bind_rc listen_rc = Inr (Exit 1))"
  using parse_settings [of ia ss default_options] parse_some [of ia args default_options] port_of_atoi [of v]
  by (cases "parse_args ia args default_options") (auto simp: main_start_def)

theorem args_read_witness:
  "parse_args (\<lambda>_. INADDR_NONE) [''--port'', ''70000'', ''--debug''] default_options =
     Some \<lparr>o_port = 4464, o_addr = 0, o_restore = 0, o_quiet = 0, o_debug = 1\<rparr> \<and>
   (\<forall>L w. main_start (\<lambda>_. INADDR_NONE) [''--addr'', ''x''] L w 3 0 0 = Inr (Exit 1)) \<and>
   (\<forall>L w. main_start (\<lambda>_. INADDR_NONE) [''--restore'', ''--port''] L w 3 0 0 = Inr (Exit 1))"
proof -
  have "[''--restore'', ''--port''] \<noteq> concat (map render ss)" for ss
  proof
    assume a: "[''--restore'', ''--port''] = concat (map render ss)"
    then obtain s rs where s: "ss = s # rs" by (cases ss) auto
    with a obtain s' rs' where "rs = s' # rs'" by (cases s; cases rs) auto
    with a s show False by (cases s; cases s') auto
  qed
  then have n: "[''--restore'', ''--port''] \<notin> range (\<lambda>ss. concat (map render ss))" by blast
  have m: "show_nat 70000 = ''70000''" by (simp add: show_eval)
  note r = args_read [of "\<lambda>_. INADDR_NONE" _ _ _ 3 0 0]
  have "port_of ''70000'' (uint16 (atoi ''70000''))" using r [of "[]" _ _ "''70000''"] by simp
  then have p: "uint16 (atoi ''70000'') = 4464"
    unfolding port_of_def using m [symmetric] by (auto simp: INT_MAX_def dest: spec [of _ 70000])
  have "parse_args (\<lambda>_. INADDR_NONE) (concat (map render [Port ''70000'', Debug])) default_options =
      Some (fold (apply_setting (\<lambda>_. INADDR_NONE)) [Port ''70000'', Debug] default_options)"
    using r by blast
  moreover have "main_start (\<lambda>_. INADDR_NONE) (concat (map render [Addr ''x''])) L w 3 0 0 = Inr (Exit 1)" for L w
    using r [of "[Addr ''x'']" L w] by simp
  moreover have "main_start (\<lambda>_. INADDR_NONE) [''--restore'', ''--port''] L w 3 0 0 = Inr (Exit 1)" for L w
    using r n by blast
  ultimately show ?thesis using p by (simp add: default_options_def INADDR_ANY_def)
qed

end
