(* ===== verification/SaveFile.thy ===== *)
theory SaveFile
  imports Rdb
begin

text \<open>
  The file of a snapshot while it is written.  The rest of the development lets the bytes of a save reach its file at
  once; here \<open>rdb_save\<close> makes its calls of \<open>fwrite\<close> one after the other on a stream of its own, and the
  stream passes what it has buffered to the file in pieces of any size, each at the position that the
  stream has reached.  \<open>fopen\<close> with mode \<^verbatim>\<open>wb\<close> empties the file.  So one can say what is left when the
  process is killed in between, and what two saves of one path make of it.
\<close>

section \<open>The calls of \<open>fwrite\<close>\<close>

definition entry_writes :: "string \<times> string \<Rightarrow> string list" where
  "entry_writes = (\<lambda>(k, v). [[TYPE_STRING], write_len (length k), k, write_len (length v), v])"

definition table_writes :: "nat \<Rightarrow> HashTable \<Rightarrow> string list" where
  "table_writes curr_db ht =
     (if hash_count (Some ht) = 0 then []
      else [[OP_SELECTDB], [char_of curr_db]] @
           concat (map (\<lambda>b. concat (map (\<lambda>e. entry_writes (e_key e, e_value e)) b)) (buckets ht)))"

definition save_writes :: "HashTable list \<Rightarrow> string list" where
  "save_writes ts = [RDB_MAGIC, [RDB_VERSION]] @ concat (map (\<lambda>(d, t). table_writes d t) (enumerate 0 ts)) @ [[OP_EOF]]"

lemma concat_entry_writes: "concat (entry_writes kv) = entry_bytes kv"
  by (cases kv) (simp add: entry_writes_def entry_bytes_def)

lemma concat_concat_map: "concat (concat (map f xs)) = concat (map (\<lambda>x. concat (f x)) xs)"
  by (induction xs) auto

lemma concat_table_writes: "concat (table_writes d t) = table_bytes d t"
  by (simp add: table_writes_def table_bytes_def concat_concat_map concat_entry_writes)

lemma concat_save_writes: "concat (save_writes ts) = snapshot ts"
  by (simp add: save_writes_def snapshot_def concat_concat_map concat_table_writes case_prod_unfold)

section \<open>Streams on one file\<close>

text \<open>Bytes written at a position: what was there is overwritten, and a gap reads as zeros.\<close>

definition put_at :: "nat \<Rightarrow> string \<Rightarrow> string \<Rightarrow> string" where
  "put_at n s f = (if s = [] then f else take n f @ replicate (n - length f) NUL @ s @ drop (n + length s) f)"

text \<open>
  A save that will write the tables \<open>ts\<close>; one with the calls it still has to make, the buffer of its
  stream and the position; and one that has closed its stream.
\<close>

datatype saving = Ready "HashTable list" | Writing "string list" string nat | Closed

type_synonym file_conf = "string option \<times> saving list"

inductive file_step :: "file_conf \<Rightarrow> file_conf \<Rightarrow> bool" where
  opens: "i < length ss \<Longrightarrow> ss ! i = Ready ts \<Longrightarrow> file_step (f, ss) (Some [], ss[i := Writing (save_writes ts) [] 0])"
| writes: "i < length ss \<Longrightarrow> ss ! i = Writing (x # xs) b n \<Longrightarrow> file_step (f, ss) (f, ss[i := Writing xs (b @ x) n])"
| flushes: "i < length ss \<Longrightarrow> ss ! i = Writing xs b n \<Longrightarrow> k \<le> length b \<Longrightarrow>
    file_step (Some f, ss) (Some (put_at n (take k b) f), ss[i := Writing xs (drop k b) (n + k)])"
| closes: "i < length ss \<Longrightarrow> ss ! i = Writing [] [] n \<Longrightarrow> file_step (f, ss) (f, ss[i := Closed])"

abbreviation file_run :: "file_conf \<Rightarrow> file_conf \<Rightarrow> bool" where
  "file_run \<equiv> file_step\<^sup>*\<^sup>*"

section \<open>One save\<close>

text \<open>The file holds what the stream has passed on, the buffer and the calls to come are the rest.\<close>

definition save_inv :: "string option \<Rightarrow> HashTable list \<Rightarrow> file_conf \<Rightarrow> bool" where
  "save_inv f0 ts r \<longleftrightarrow> r = (f0, [Ready ts]) \<or> r = (Some (snapshot ts), [Closed]) \<or>
     (\<exists>xs b n. r = (Some (take n (snapshot ts)), [Writing xs b n]) \<and> n \<le> length (snapshot ts) \<and>
        b @ concat xs = drop n (snapshot ts))"

lemma put_at_Nil [simp]: "put_at 0 s [] = s"
  by (simp add: put_at_def)

lemma put_at_end:
  assumes "n \<le> length s" and "b @ c = drop n s" and "k \<le> length b"
  shows "put_at n (take k b) (take n s) = take (n + k) s" "n + k \<le> length s" "drop k b @ c = drop (n + k) s"
proof -
  have "length b + length c = length s - n" using arg_cong [OF assms(2), of length] by simp
  then show "n + k \<le> length s" using assms(1,3) by simp
  have b: "take k b = take k (drop n s)" "drop k b @ c = drop k (drop n s)"
    using assms(2,3) by (simp_all flip: assms(2))
  have "put_at n (take k b) (take n s) = take n s @ take k b" using assms(1) by (simp add: put_at_def)
  then show "put_at n (take k b) (take n s) = take (n + k) s" unfolding b by (simp only: take_add)
  show "drop k b @ c = drop (n + k) s" unfolding b(2) by (simp add: add.commute)
qed

lemma save_inv_step:
  assumes "file_step r r'" and "save_inv f0 ts r"
  shows "save_inv f0 ts r'"
  using assms
proof (induction rule: file_step.induct)
  case (opens i ss us f)
  then have "ss = [Ready ts]" "us = ts" "i = 0" by (auto simp: save_inv_def)
  then show ?case by (simp add: save_inv_def concat_save_writes)
next
  case (writes i ss x xs b n f)
  then show ?case by (auto simp: save_inv_def)
next
  case (flushes i ss xs b n k f)
  then have "ss = [Writing xs b n]" "f = take n (snapshot ts)" "n \<le> length (snapshot ts)" "b @ concat xs = drop n (snapshot ts)" "i = 0"
    by (auto simp: save_inv_def)
  with put_at_end [OF this(3,4) flushes(3)] show ?case unfolding save_inv_def by simp
next
  case (closes i ss n f)
  then show ?case by (auto simp: save_inv_def)
qed

lemma save_inv_run: "file_run (f0, [Ready ts]) r \<Longrightarrow> save_inv f0 ts r"
  by (induction rule: rtranclp_induct) (auto simp: save_inv_def [of f0 ts "(f0, [Ready ts])"] intro: save_inv_step)

text \<open>What the save \<open>i\<close> can do while the others wait: make all its calls, and pass on any number of bytes.\<close>

lemma writes_all:
  "i < length ss \<Longrightarrow> ss ! i = Writing xs b n \<Longrightarrow> file_run (f, ss) (f, ss[i := Writing [] (b @ concat xs) n])"
proof (induction xs arbitrary: ss b)
  case Nil
  then show ?case by (metis append_Nil2 concat.simps(1) list_update_id rtranclp.rtrancl_refl)
next
  case (Cons x xs)
  let ?ss = "ss[i := Writing xs (b @ x) n]"
  have "file_step (f, ss) (f, ?ss)" using Cons.prems by (rule writes)
  moreover have "file_run (f, ?ss) (f, ?ss[i := Writing [] ((b @ x) @ concat xs) n])"
    using Cons.prems by (intro Cons.IH) simp_all
  ultimately show ?case by (simp add: converse_rtranclp_into_rtranclp)
qed

lemma opens_all:
  assumes "i < length ss" and "ss ! i = Ready ts" and "k \<le> length (snapshot ts)"
  shows "file_run (f, ss) (Some (take k (snapshot ts)), ss[i := Writing [] (drop k (snapshot ts)) k])"
proof -
  let ?s1 = "ss[i := Writing (save_writes ts) [] 0]" and ?s2 = "ss[i := Writing [] (snapshot ts) 0]"
  have "file_run (f, ss) (Some [], ?s1)" using opens [OF assms(1,2)] by blast
  also have "file_run (Some [], ?s1) (Some [], ?s2)"
    using writes_all [of i ?s1 "save_writes ts" "[]" 0] assms(1) by (simp add: concat_save_writes)
  also have "file_run (Some [], ?s2) (Some (take k (snapshot ts)), ss[i := Writing [] (drop k (snapshot ts)) k])"
    using flushes [of i ?s2 "[]" "snapshot ts" 0 k "[]"] assms(1,3) by (auto simp: r_into_rtranclp)
  finally (rtranclp_trans) show ?thesis .
qed

lemma closes_all:
  assumes "i < length ss" and "ss ! i = Writing [] b n"
  shows "file_run (Some f, ss) (Some (put_at n b f), ss[i := Closed])"
proof -
  let ?s = "ss[i := Writing [] [] (n + length b)]"
  have "file_run (Some f, ss) (Some (put_at n b f), ?s)"
    using flushes [OF assms, of "length b" f] by auto
  also have "file_run (Some (put_at n b f), ?s) (Some (put_at n b f), ?s[i := Closed])"
    using closes [of i ?s "n + length b"] assms(1) by auto
  finally (rtranclp_trans) show ?thesis using assms(1) by simp
qed

lemma proper_take: "n < length s \<Longrightarrow> s = take n s \<longleftrightarrow> False"
  using take_all_iff [of n s] by (auto dest: sym)

text \<open>The file as the loader finds it.\<close>

definition load_file :: "World \<Rightarrow> string \<Rightarrow> string option \<Rightarrow> ub + (int \<times> World)" where
  "load_file w path f = rdb_load (w\<lparr>files := (files w)(path := f)\<rparr>) (Some path)"

lemma load_file_whole:
  assumes "world_wf w" and "w_mem w = []" and "length ts = NUM_DBS" and "\<forall>t \<in> set ts. ht_wf t \<and> saveable t"
  shows "\<exists>w'. load_file w path (Some (snapshot ts)) = Inr (0, w') \<and> (\<forall>d < NUM_DBS. db_map w' d = db_map w d ++ ht_lookup (ts ! d))"
proof -
  let ?v = "w\<lparr>files := (files w)(path := Some (snapshot ts))\<rparr>"
  have v: "world_wf ?v" "w_mem ?v = []" "db_map ?v = db_map w" using assms(1,2) by (simp_all add: db_map_def fun_eq_iff)
  have "rdb_load ?v (Some path) = Inr (0, restored ts ?v)" using v assms(3,4) by (intro rdb_load_snapshot) simp_all
  then show ?thesis using db_map_restored [OF v(1) assms(3)] assms(4) v(3) by (simp add: load_file_def)
qed

lemma save_finishes:
  assumes "save_inv f0 ts (f, ss)"
  shows "file_run (f, ss) (Some (snapshot ts), [Closed])"
proof -
  have last: "file_run (Some (take n (snapshot ts)), [Writing xs b n]) (Some (snapshot ts), [Closed])"
    if n: "n \<le> length (snapshot ts)" "b @ concat xs = drop n (snapshot ts)" for xs b n
  proof -
    have "file_run (Some (take n (snapshot ts)), [Writing xs b n]) (Some (take n (snapshot ts)), [Writing [] (drop n (snapshot ts)) n])"
      using writes_all [of 0 "[Writing xs b n]" xs b n] n(2) by simp
    also have "file_run (Some (take n (snapshot ts)), [Writing [] (drop n (snapshot ts)) n])
        (Some (put_at n (drop n (snapshot ts)) (take n (snapshot ts))), [Closed])"
      using closes_all [of 0 "[Writing [] (drop n (snapshot ts)) n]"] by simp
    finally (rtranclp_trans) show ?thesis
      using put_at_end(1) [of n "snapshot ts" "drop n (snapshot ts)" "[]" "length (snapshot ts) - n"] n(1) by simp
  qed
  have "file_step (f0, [Ready ts]) (Some (take 0 (snapshot ts)), [Writing (save_writes ts) [] 0])"
    using opens [of 0 "[Ready ts]" ts f0] by simp
  then have "file_run (f0, [Ready ts]) (Some (snapshot ts), [Closed])"
    using last [of 0 "[]" "save_writes ts"] by (simp add: concat_save_writes converse_rtranclp_into_rtranclp)
  with assms last show ?thesis by (auto simp: save_inv_def)
qed

text \<open>
C24. A save that is killed loses the old snapshot, but never leaves a torn one that loads.  Whenever the process stops during
a save, the file is untouched, because it has not been opened, or holds the first bytes of the new
snapshot; if these are not all, loading them does not succeed, and if they are, it restores the saved tables.  The save
can always go on to its end, where the file is the whole snapshot; but as soon as it has begun, the
file is empty and what it held before is gone.
\<close>
theorem killed_save:
  assumes "world_wf w" and "w_mem w = []" and "length ts = NUM_DBS" and "\<forall>t \<in> set ts. ht_wf t \<and> saveable t"
    and "file_run (f0, [Ready ts]) (f, ss)"
  shows "((f, ss) = (f0, [Ready ts]) \<or> (\<exists>n \<le> length (snapshot ts). f = Some (take n (snapshot ts)) \<and>
      (if n < length (snapshot ts) then incomplete (load_file w path f)
       else \<exists>w'. load_file w path f = Inr (0, w') \<and> (\<forall>d < NUM_DBS. db_map w' d = db_map w d ++ ht_lookup (ts ! d))))) \<and>
    file_run (f, ss) (Some (snapshot ts), [Closed]) \<and>
    (\<exists>ss'. file_step (f0, [Ready ts]) (Some [], ss') \<and> incomplete (load_file w path (Some [])))"
proof -
  have inv: "save_inv f0 ts (f, ss)" using save_inv_run [OF assms(5)] .
  have part: "incomplete (load_file w path (Some (take n (snapshot ts))))" if "n < length (snapshot ts)" for n
    using load_truncated [of "w\<lparr>files := (files w)(path := Some (take n (snapshot ts)))\<rparr>" ts n path] assms(1-4) that
    by (simp add: load_file_def)
  have "(f, ss) = (f0, [Ready ts]) \<or> (\<exists>n \<le> length (snapshot ts). f = Some (take n (snapshot ts)))"
    using inv by (auto simp: save_inv_def)
  then have "(f, ss) = (f0, [Ready ts]) \<or> (\<exists>n \<le> length (snapshot ts). f = Some (take n (snapshot ts)) \<and>
      (if n < length (snapshot ts) then incomplete (load_file w path f)
       else \<exists>w'. load_file w path f = Inr (0, w') \<and> (\<forall>d < NUM_DBS. db_map w' d = db_map w d ++ ht_lookup (ts ! d))))"
    using part load_file_whole [OF assms(1-4)] by auto
  moreover have "file_step (f0, [Ready ts]) (Some [], [Writing (save_writes ts) [] 0])"
    using opens [of 0 "[Ready ts]" ts f0] by simp
  moreover have "incomplete (load_file w path (Some []))" using part [of 0] by (simp add: snapshot_def)
  ultimately show ?thesis using save_finishes [OF inv] by blast
qed

theorem killed_save_witness:
  "\<exists>w'. load_file (boot_world zero_server) ''f'' (Some (snapshot (db_tables sample_world))) = Inr (0, w') \<and> db_map w' 0 ''k'' = Some ''7''"
proof -
  let ?ts = "db_tables sample_world" and ?w = "boot_world zero_server"
  have w: "world_wf ?w" "w_mem ?w = []" using boot_world_wf [OF server_wf_zero] by simp_all
  have t: "length ?ts = NUM_DBS" "\<forall>t \<in> set ?ts. ht_wf t \<and> saveable t"
    using db_tables_wf [OF sample_world_wf(1)] saveable_sample by auto
  have run: "file_run (None, [Ready ?ts]) (Some (snapshot ?ts), [Closed])"
    by (rule save_finishes) (simp add: save_inv_def)
  obtain w' where "load_file ?w ''f'' (Some (snapshot ?ts)) = Inr (0, w')" "db_map w' 0 = db_map ?w 0 ++ ht_lookup (?ts ! 0)"
    using killed_save [OF w t run, of "''f''"] by (auto simp: NUM_DBS_def proper_take split: if_splits)
  moreover have "ht_lookup (?ts ! 0) = [''k'' \<mapsto> ''7'']"
    using db_tables_wf(4) [OF sample_world_wf(1), of 0] by (simp add: NUM_DBS_def db_map_sample)
  ultimately show ?thesis by (intro exI [of _ w']) simp
qed

section \<open>Two saves of one path\<close>

text \<open>Tables that hold one pair.\<close>

definition one_pair :: "string \<Rightarrow> string \<Rightarrow> HashTable list" where
  "one_pair k v = (replicate NUM_DBS empty_table)[0 := ht_put empty_table k v]"

lemma concat_single: "i < n \<Longrightarrow> concat ((replicate n [])[i := xs]) = xs"
  by (simp add: upd_conv_take_nth_drop)

lemma ht_entries_one: "ht_entries (ht_put empty_table k v) = [(k, v)]"
  by (simp add: ht_entries_def ht_put_def empty_table_def bucket_put_def map_update concat_single)

lemma one_pair_Cons: "one_pair k v = ht_put empty_table k v # replicate (NUM_DBS - 1) empty_table"
  by (simp add: one_pair_def NUM_DBS_def numeral_eq_Suc)

lemma one_pair_ok:
  assumes "fits k" and "fits v"
  shows "length (one_pair k v) = NUM_DBS" "\<forall>t \<in> set (one_pair k v). ht_wf t \<and> saveable t"
    "ht_lookup (one_pair k v ! 0) k = Some v"
proof -
  have kv: "kv_ok k v" using assms by (simp add: kv_ok_def fits_def)
  have "length (buckets (ht_put empty_table k v)) = NUM_BUCKETS" by (simp add: ht_put_def empty_table_def)
  then have "saveable (ht_put empty_table k v)" using assms by (simp add: saveable_def ht_entries_one size_mod_def)
  then show "\<forall>t \<in> set (one_pair k v). ht_wf t \<and> saveable t"
    using kv saveable_empty ht_wf_empty by (auto simp: one_pair_Cons intro: ht_wf_put)
  show "length (one_pair k v) = NUM_DBS" by (simp add: one_pair_def)
  show "ht_lookup (one_pair k v ! 0) k = Some v" by (simp add: one_pair_Cons ht_lookup_put ht_wf_empty)
qed

lemma ht_entries_none: "ht_entries empty_table = []"
  by (simp add: ht_entries_def empty_table_def)

lemma empty_tables_bytes: "concat (map (\<lambda>(d, t). table_bytes d t) (enumerate n (replicate m empty_table))) = []"
  by (induction m arbitrary: n) (simp_all add: table_bytes_entries [OF saveable_empty] ht_entries_none)

lemma snapshot_one:
  assumes "fits k" and "fits v"
  shows "snapshot (one_pair k v) = RDB_MAGIC @ [RDB_VERSION, OP_SELECTDB, char_of (0::nat), TYPE_STRING] @ write_len (length k) @ k @
    write_len (length v) @ v @ [OP_EOF]"
proof -
  have "saveable (ht_put empty_table k v)" using one_pair_ok(2) [OF assms] by (simp add: one_pair_Cons)
  then have "table_bytes 0 (ht_put empty_table k v) = [OP_SELECTDB, char_of (0::nat)] @ entry_bytes (k, v)"
    by (simp add: table_bytes_entries ht_entries_one)
  then show ?thesis by (simp add: snapshot_def one_pair_Cons empty_tables_bytes entry_bytes_def)
qed

lemma put_at_over: "n \<le> length s \<Longrightarrow> length s = length u \<Longrightarrow> put_at n (drop n s) u = take n u @ drop n s"
  by (cases "drop n s = []") (simp_all add: put_at_def)

lemma splice: "length v = length u \<Longrightarrow> j \<le> length v \<Longrightarrow>
  take (length p + j) (p @ u @ e) @ drop (length p + j) (p @ v @ e) = p @ (take j u @ drop j v) @ e"
  by simp

text \<open>
The first save passes the first \<open>n\<close> bytes of its snapshot to the file, then the second one runs to its
end, and then the first one passes on the rest.
\<close>

lemma overlapping_saves:
  assumes "n \<le> length (snapshot ts)" and "length (snapshot ts) = length (snapshot us)"
  shows "file_run (f0, [Ready ts, Ready us]) (Some (take n (snapshot us) @ drop n (snapshot ts)), [Closed, Closed])"
proof -
  let ?s = "snapshot ts" and ?u = "snapshot us"
  have "file_run (f0, [Ready ts, Ready us]) (Some (take n ?s), [Writing [] (drop n ?s) n, Ready us])"
    using opens_all [of 0 "[Ready ts, Ready us]" ts n f0] assms(1) by simp
  also have "file_run (Some (take n ?s), [Writing [] (drop n ?s) n, Ready us]) (Some ?u, [Writing [] (drop n ?s) n, Writing [] [] (length ?u)])"
    using opens_all [of 1 "[Writing [] (drop n ?s) n, Ready us]" us "length ?u" "Some (take n ?s)"] by simp
  also have "file_run (Some ?u, [Writing [] (drop n ?s) n, Writing [] [] (length ?u)]) (Some ?u, [Writing [] (drop n ?s) n, Closed])"
    using closes_all [of 1 "[Writing [] (drop n ?s) n, Writing [] [] (length ?u)]" "[]" "length ?u" ?u] by (simp add: put_at_def)
  also have "file_run (Some ?u, [Writing [] (drop n ?s) n, Closed]) (Some (put_at n (drop n ?s) ?u), [Closed, Closed])"
    using closes_all [of 0 "[Writing [] (drop n ?s) n, Closed]" "drop n ?s" n ?u] by simp
  finally (rtranclp_trans) show ?thesis
    using put_at_over [of n ?s ?u] assms by simp
qed

text \<open>
C39. Two saves of one path can leave a value that nobody stored.  If two saves of the same path overlap, one while a key has
the value \<open>v1\<close>, the other while it has \<open>v2\<close> of the same length, then both can run to their end so that
the file, which loads with success, restores the key with the first \<open>j\<close> bytes of \<open>v2\<close> and the
rest of \<open>v1\<close>.
\<close>
theorem overlapping_saves_tear:
  assumes "world_wf w" and "w_mem w = []" and "fits k" and "fits v1" and "fits v2" and "length v1 = length v2" and "j \<le> length v1"
  shows "\<exists>f w'. file_run (f0, [Ready (one_pair k v1), Ready (one_pair k v2)]) (Some f, [Closed, Closed]) \<and>
    load_file w path (Some f) = Inr (0, w') \<and> db_map w' 0 k = Some (take j v2 @ drop j v1)"
proof -
  let ?u = "take j v2 @ drop j v1" and ?pre = "RDB_MAGIC @ [RDB_VERSION, OP_SELECTDB, char_of (0::nat), TYPE_STRING] @
    write_len (length k) @ k @ write_len (length v1)"
  have u: "fits ?u" "length ?u = length v1"
    using assms(4-7) by (auto simp: fits_def cstring_def dest: in_set_takeD in_set_dropD)
  have s: "snapshot (one_pair k v) = ?pre @ v @ [OP_EOF]" if "fits v" "length v = length v1" for v
    using snapshot_one [OF assms(3) that(1)] that(2) by simp
  let ?n = "length ?pre + j"
  have "take ?n (snapshot (one_pair k v2)) @ drop ?n (snapshot (one_pair k v1)) = snapshot (one_pair k ?u)"
    unfolding s [OF assms(4) refl] s [OF assms(5) assms(6) [symmetric]] s [OF u] by (rule splice [OF assms(6,7)])
  then have run: "file_run (f0, [Ready (one_pair k v1), Ready (one_pair k v2)]) (Some (snapshot (one_pair k ?u)), [Closed, Closed])"
    using overlapping_saves [of ?n "one_pair k v1" "one_pair k v2" f0] s [OF assms(4) refl] s [OF assms(5)] assms(6,7) by (simp del: append_assoc)
  note o = one_pair_ok [OF assms(3) u(1)]
  obtain w' where "load_file w path (Some (snapshot (one_pair k ?u))) = Inr (0, w')"
      "\<forall>d < NUM_DBS. db_map w' d = db_map w d ++ ht_lookup (one_pair k ?u ! d)"
    using load_file_whole [OF assms(1,2) o(1,2)] by blast
  moreover from this have "db_map w' 0 = db_map w 0 ++ ht_lookup (one_pair k ?u ! 0)" by (simp add: NUM_DBS_def)
  ultimately show ?thesis using run o(3) by (intro exI [of _ "snapshot (one_pair k ?u)"] exI [of _ w']) (simp add: map_add_Some_iff)
qed

theorem overlapping_saves_tear_witness:
  "\<exists>f w'. file_run (None, [Ready (one_pair ''k'' ''12''), Ready (one_pair ''k'' ''34'')]) (Some f, [Closed, Closed]) \<and>
    load_file (boot_world zero_server) ''f'' (Some f) = Inr (0, w') \<and> db_map w' 0 ''k'' = Some ''32''"
  using overlapping_saves_tear [of "boot_world zero_server" "''k''" "''12''" "''34''" 1 None "''f''"]
    boot_world_wf [OF server_wf_zero] by (simp add: fits_def NUL_def)

end
