(* ===== verification/Steps.thy ===== *)
theory Steps
  imports CommandSpec
begin

text \<open>
  The handlers of \<^verbatim>\<open>cmd.c\<close> cut where other threads can run in between.  A handler is a program
  whose nodes are the lock operations, the calls of the table and the accesses to anything that
  belongs to the connection itself; between two nodes any other connection may run.
  All handlers are cut this way; \<open>INFO\<close>, which reads the table without a lock, at every bucket.  The last lemma is that a program that runs without interruption does
  what the handler of the theory \<open>Commands\<close> does.
\<close>

section \<open>Programs\<close>

text \<open>
  \<open>Find\<close>, \<open>Store\<close>, \<open>Remove\<close> are \<open>hash_get\<close>, \<open>hash_set\<close>, \<open>hash_del\<close>; \<open>Deref\<close> is the use of the pointer
  that \<open>hash_get\<close> has returned and \<open>Free\<close> the release of the value that \<open>hash_del\<close> has returned; \<open>Restore\<close> is \<open>rdb_load\<close>, \<open>Scan\<close> reads a whole table, \<open>Chain\<close> walks one of its buckets and \<open>Dump\<close> writes the file of a snapshot; \<open>Own\<close> is what only this connection does:
  allocations, messages, its own slot, opening its file.  \<open>Broken\<close> is undefined behaviour.
\<close>

datatype prog =
  Return int "ServerReply option"
| Broken ub
| Take lock bool prog
| Release lock prog
| Find nat string "string option \<Rightarrow> prog"
| Deref nat string prog
| Free prog
| Store nat string string prog
| Remove nat string "string option \<Rightarrow> prog"
| Restore "string option" prog
| Scan nat "HashTable \<Rightarrow> prog"
| Chain nat nat "HashEntry list \<Rightarrow> prog"
| Dump string "HashTable list" prog
| Own "World \<Rightarrow> handled" "int \<Rightarrow> ServerReply option \<Rightarrow> prog"

type_synonym begun = "ub + (World \<times> prog)"

text \<open>The calls of the table as steps of the world.\<close>

definition find_key :: "World \<Rightarrow> nat \<Rightarrow> string \<Rightarrow> ub + (string option \<times> World)" where
  "find_key w d key =
     res_bind (table_of w d) (\<lambda>ht.
     res_bind (hash_get (Some ht) (Some key)) (\<lambda>valp.
     Inr (valp, emit [ReadBucket d (hash_fn key)] w)))"

definition store_key :: "World \<Rightarrow> nat \<Rightarrow> string \<Rightarrow> string \<Rightarrow> ub + World" where
  "store_key w d key v =
     res_bind (table_of w d) (\<lambda>ht.
     res_bind (hash_set (w_mem w) (Some ht) (Some key) (Some v)) (\<lambda>(rc, htp, m).
     Inr (emit [WriteBucket d (hash_fn key)] (put_table d (the htp) (w\<lparr>w_mem := m\<rparr>)))))"

definition remove_key :: "World \<Rightarrow> nat \<Rightarrow> string \<Rightarrow> ub + (string option \<times> World)" where
  "remove_key w d key =
     res_bind (table_of w d) (\<lambda>ht.
     res_bind (hash_del (Some ht) (Some key)) (\<lambda>(deleted, htp).
     Inr (deleted, emit [WriteBucket d (hash_fn key)] (put_table d (the htp) w))))"

definition scan_table :: "World \<Rightarrow> nat \<Rightarrow> ub + (HashTable \<times> World)" where
  "scan_table w d = res_bind (table_of w d) (\<lambda>ht. Inr (ht, emit (table_reads d ht) w))"

definition walk_bucket :: "World \<Rightarrow> nat \<Rightarrow> nat \<Rightarrow> ub + (HashEntry list \<times> World)" where
  "walk_bucket w d i =
     res_bind (table_of w d) (\<lambda>ht.
     Inr (if i < length (buckets ht) then buckets ht ! i else [], emit [ReadBucket d i] w))"

definition write_dump :: "World \<Rightarrow> string \<Rightarrow> HashTable list \<Rightarrow> World" where
  "write_dump w path ts = w\<lparr>files := (files w)(path := Some (snapshot ts))\<rparr>"

text \<open>A program that is not interrupted.\<close>

primrec run_prog :: "prog \<Rightarrow> World \<Rightarrow> handled" where
  "run_prog (Return rc rp) w = Inr (rc, rp, w)"
| "run_prog (Broken u) w = Inl u"
| "run_prog (Take l m p) w = run_prog p (emit [if m then WrLock l else RdLock l] w)"
| "run_prog (Release l p) w = run_prog p (emit [Unlock l] w)"
| "run_prog (Find d key f) w = res_bind (find_key w d key) (\<lambda>(v, w). run_prog (f v) w)"
| "run_prog (Deref d key p) w = run_prog p (emit [ReadBucket d (hash_fn key)] w)"
| "run_prog (Free p) w = run_prog p w"
| "run_prog (Store d key v p) w = res_bind (store_key w d key v) (\<lambda>w. run_prog p w)"
| "run_prog (Remove d key f) w = res_bind (remove_key w d key) (\<lambda>(v, w). run_prog (f v) w)"
| "run_prog (Restore path p) w = res_bind (rdb_load w path) (\<lambda>(rc, w). run_prog p w)"
| "run_prog (Scan d f) w = res_bind (scan_table w d) (\<lambda>(t, w). run_prog (f t) w)"
| "run_prog (Chain d i f) w = res_bind (walk_bucket w d i) (\<lambda>(b, w). run_prog (f b) w)"
| "run_prog (Dump path ts p) w = run_prog p (write_dump w path ts)"
| "run_prog (Own g f) w = res_bind (g w) (\<lambda>(rc, rp, w). run_prog (f rc rp) w)"

text \<open>The last thing most handlers do: a reply, then \<open>return 0\<close>.\<close>

definition answer :: "(World \<Rightarrow> handled) \<Rightarrow> prog" where
  "answer g = Own g (\<lambda>rc rp. Return 0 rp)"

section \<open>The handlers\<close>

definition with_client_steps ::
    "World \<Rightarrow> nat \<Rightarrow> ServerReply option \<Rightarrow> (Client \<Rightarrow> begun) \<Rightarrow> begun" where
  "with_client_steps w k rp f =
     (case server w of
        None \<Rightarrow> Inr (w, Return (-1) rp)
      | Some s \<Rightarrow>
          res_bind (client_of w k) (\<lambda>c. if sock c = -1 then Inr (w, Return (-1) rp) else f c))"

definition wrong_args_steps :: "World \<Rightarrow> string \<Rightarrow> nat \<Rightarrow> ServerReply option \<Rightarrow> begun" where
  "wrong_args_steps w name k rp = Inr (w, answer (\<lambda>w. reply_err w rp k (wrong_args name)))"

definition quit_steps :: "World \<Rightarrow> Cmd \<Rightarrow> nat \<Rightarrow> ServerReply option \<Rightarrow> begun" where
  "quit_steps w cmd k rp = with_client_steps w k rp (\<lambda>c.
     if t_count (tokens cmd) > 1 then wrong_args_steps w ''QUIT'' k rp
     else
       Inr (w,
         Own (\<lambda>w. reply_ok w rp k) (\<lambda>rc rp.
         Own (\<lambda>w. case sys_close w (sock c) of (rc, w) \<Rightarrow> Inr (rc, rp, w)) (\<lambda>rc rp.
         if rc = -1 then Return (-1) rp
         else
           Own (\<lambda>w. Inr (0, rp, put_client k (c\<lparr>sock := -1\<rparr>) w)) (\<lambda>rc rp.
           Take ServerLock True (
           Own (\<lambda>w. Inr (0, rp, add_clients (-1) w)) (\<lambda>rc rp.
           Release ServerLock (Return 0 rp))))))))"

definition incr_steps :: "World \<Rightarrow> Cmd \<Rightarrow> nat \<Rightarrow> ServerReply option \<Rightarrow> begun" where
  "incr_steps w cmd k rp = with_client_steps w k rp (\<lambda>c.
     if t_count (tokens cmd) \<noteq> 2 then wrong_args_steps w ''INCR'' k rp
     else
       res_bind (tok_str w cmd 1) (\<lambda>key.
       res_bind (table_of w (db c)) (\<lambda>_.
       let l = BucketLock (db c) (hash_fn key) in
       Inr (w,
         Take l True (
         Find (db c) key (\<lambda>valp.
         case valp of
           None \<Rightarrow> Release l (answer (\<lambda>w. reply_integer w rp k 0))
         | Some val \<Rightarrow>
             (let n = atoi val + 1; buf = take 31 (show_int n) in
              Store (db c) key buf (Release l (answer (\<lambda>w. reply_integer w rp k (int32 n)))))))))))"

definition set_steps :: "World \<Rightarrow> Cmd \<Rightarrow> nat \<Rightarrow> ServerReply option \<Rightarrow> begun" where
  "set_steps w cmd k rp = with_client_steps w k rp (\<lambda>c.
     if t_count (tokens cmd) < 3 then wrong_args_steps w ''SET'' k rp
     else
       res_bind (set_value w cmd) (\<lambda>(strp, m).
       let w = w\<lparr>w_mem := m\<rparr> in
       res_bind (tok_str w cmd 1) (\<lambda>key.
       res_bind (case strp of None \<Rightarrow> Inl NullDeref | Some str \<Rightarrow> block_cstr (sb_buf str)) (\<lambda>value.
       res_bind (table_of w (db c)) (\<lambda>_.
       let l = BucketLock (db c) (hash_fn key) in
       Inr (w, Take l True (Store (db c) key value (Release l (answer (\<lambda>w. reply_ok w rp k))))))))))"

definition get_steps :: "World \<Rightarrow> Cmd \<Rightarrow> nat \<Rightarrow> ServerReply option \<Rightarrow> begun" where
  "get_steps w cmd k rp = with_client_steps w k rp (\<lambda>c.
     if t_count (tokens cmd) \<noteq> 2 then wrong_args_steps w ''GET'' k rp
     else
       res_bind (tok_str w cmd 1) (\<lambda>key.
       res_bind (table_of w (db c)) (\<lambda>_.
       let l = BucketLock (db c) (hash_fn key) in
       Inr (w,
         Take l False (
         Find (db c) key (\<lambda>value.
         Release l (
         let reply = answer (\<lambda>w. reply_bulk_str w rp (Some cmd) k value) in
         if value = None then reply else Deref (db c) key reply)))))))"

definition del_steps :: "World \<Rightarrow> Cmd \<Rightarrow> nat \<Rightarrow> ServerReply option \<Rightarrow> begun" where
  "del_steps w cmd k rp = with_client_steps w k rp (\<lambda>c.
     if t_count (tokens cmd) \<noteq> 2 then wrong_args_steps w ''DEL'' k rp
     else
       res_bind (table_of w (db c)) (\<lambda>_.
       res_bind (tok_str w cmd 1) (\<lambda>key.
       let l = BucketLock (db c) (hash_fn key) in
       Inr (w,
         Take l True (
         Remove (db c) key (\<lambda>deleted.
         Release l (
         if deleted = None then answer (\<lambda>w. reply_integer w rp k 0)
         else Free (answer (\<lambda>w. reply_integer w rp k 1)))))))))"

definition select_steps :: "World \<Rightarrow> Cmd \<Rightarrow> nat \<Rightarrow> ServerReply option \<Rightarrow> begun" where
  "select_steps w cmd k rp = with_client_steps w k rp (\<lambda>c.
     if t_count (tokens cmd) \<noteq> 2 then wrong_args_steps w ''SELECT'' k rp
     else
       res_bind (tok_str w cmd 1) (\<lambda>arg.
       let sel = atoi arg in
       if sel < 0 \<or> sel > int MAX_DB then
         Inr (w, Own (\<lambda>w. reply_err w rp k (wrong_args ''SELECT'')) (\<lambda>rc rp.
           case rp of None \<Rightarrow> Broken NullDeref | Some r \<Rightarrow> Return 0 (Some (r\<lparr>r_error := 1\<rparr>))))
       else
         Inr (put_client k (c\<lparr>db := nat sel\<rparr>) w, answer (\<lambda>w. reply_ok w rp k))))"

text \<open>
  The save opens its file, which empties it, before it takes the locks; the bytes are in the file
  when it is closed.
\<close>

primrec take_all :: "lock list \<Rightarrow> bool \<Rightarrow> prog \<Rightarrow> prog" where
  "take_all [] m p = p"
| "take_all (l # ls) m p = Take l m (take_all ls m p)"

primrec release_all :: "lock list \<Rightarrow> prog \<Rightarrow> prog" where
  "release_all [] p = p"
| "release_all (l # ls) p = Release l (release_all ls p)"

primrec scan_all :: "nat list \<Rightarrow> HashTable list \<Rightarrow> (HashTable list \<Rightarrow> prog) \<Rightarrow> prog" where
  "scan_all [] ts f = f ts"
| "scan_all (d # ds) ts f = Scan d (\<lambda>t. scan_all ds (ts @ [t]) f)"

definition rdb_open :: "string \<Rightarrow> World \<Rightarrow> handled" where
  "rdb_open path w =
     (if server w = None \<or> \<not> writable w path then Inr (-1, None, w)
      else Inr (0, None, w\<lparr>files := (files w)(path := Some [])\<rparr>))"

definition rdb_save_steps :: "string option \<Rightarrow> prog \<Rightarrow> prog" where
  "rdb_save_steps pathp p =
     (let path = (case pathp of None \<Rightarrow> RDB_PATH | Some p \<Rightarrow> p) in
      Own (rdb_open path) (\<lambda>rc _.
      if rc = -1 then p
      else
        take_all bucket_locks False (
        scan_all [0..<NUM_DBS] [] (\<lambda>ts.
        release_all bucket_locks (
        Dump path ts p)))))"

definition save_steps :: "World \<Rightarrow> Cmd \<Rightarrow> nat \<Rightarrow> ServerReply option \<Rightarrow> begun" where
  "save_steps w cmd k rp =
     res_bind (path_arg w cmd) (\<lambda>path.
     Inr (w, rdb_save_steps path (answer (\<lambda>w. reply_ok w rp k))))"

definition load_steps :: "World \<Rightarrow> Cmd \<Rightarrow> nat \<Rightarrow> ServerReply option \<Rightarrow> begun" where
  "load_steps w cmd k rp =
     res_bind (path_arg w cmd) (\<lambda>path.
     if server w = None then Inl NullDeref
     else
       Inr (w,
         take_all bucket_locks True (
         Restore path (
         release_all bucket_locks (answer (\<lambda>w. reply_ok w rp k))))))"

text \<open>
  \<open>hash_count\<close> walks the buckets one after the other, with no lock; the size of the text is computed
  before the memory for it is allocated, and the text itself after that, cut off at this size.
\<close>

primrec count_all :: "nat \<Rightarrow> nat list \<Rightarrow> nat \<Rightarrow> (nat \<Rightarrow> prog) \<Rightarrow> prog" where
  "count_all d [] n f = f n"
| "count_all d (i # is) n f = Chain d i (\<lambda>b. count_all d is (foldl (\<lambda>count e. size_add count 1) n b) f)"

definition info_size :: "nat \<Rightarrow> nat \<Rightarrow> ServerReply option \<Rightarrow> World \<Rightarrow> handled" where
  "info_size sel keys rp w =
     (case malloc (w_mem w) of
        (False, m) \<Rightarrow> Inr (-1, rp, w\<lparr>w_mem := m\<rparr>)
      | (True, m) \<Rightarrow> Inr (int (length (info_text (the (server w)) sel keys)) + 1, rp, w\<lparr>w_mem := m\<rparr>))"

definition info_steps :: "World \<Rightarrow> Cmd \<Rightarrow> nat \<Rightarrow> ServerReply option \<Rightarrow> begun" where
  "info_steps w cmd k rp = with_client_steps w k rp (\<lambda>c.
     if t_count (tokens cmd) > 1 then wrong_args_steps w ''INFO'' k rp
     else
       res_bind (table_of w (db c)) (\<lambda>_.
       let sel = db c in
       Inr (w,
         count_all sel [0..<NUM_BUCKETS] 0 (\<lambda>keys.
         Own (info_size sel keys rp) (\<lambda>buf_size rp.
         if buf_size = -1 then Return (-1) rp
         else
           answer (\<lambda>w. reply_bulk_str w rp (Some cmd) k
             (Some (take (nat (buf_size - 1)) (info_text (the (server w)) sel keys)))))))))"

definition dispatch_steps :: "Cmd \<Rightarrow> World \<Rightarrow> nat \<Rightarrow> begun" where
  "dispatch_steps cmd w k =
     (case reply_new w of
        (r, w) \<Rightarrow>
          (case entry cmd of
             CMD_GET \<Rightarrow> get_steps w cmd k r
           | CMD_SET \<Rightarrow> set_steps w cmd k r
           | CMD_DEL \<Rightarrow> del_steps w cmd k r
           | CMD_QUIT \<Rightarrow> quit_steps w cmd k r
           | CMD_SELECT \<Rightarrow> select_steps w cmd k r
           | CMD_SAVE \<Rightarrow> save_steps w cmd k r
           | CMD_LOAD \<Rightarrow> load_steps w cmd k r
           | CMD_INFO \<Rightarrow> info_steps w cmd k r
           | CMD_INCR \<Rightarrow> incr_steps w cmd k r
           | CMD_UNKNOWN \<Rightarrow> Inr (w, Own (\<lambda>w. reply_err w r k CMD_ERR_MSG_UNKNOWN) Return)))"

section \<open>Uninterrupted, a program does what its handler does\<close>

definition run_begun :: "begun \<Rightarrow> handled" where
  "run_begun b = res_bind b (\<lambda>(w, p). run_prog p w)"

lemma run_begun_simps [simp]: "run_begun (Inr (w, p)) = run_prog p w" "run_begun (Inl u) = Inl u"
  by (simp_all add: run_begun_def)

lemma run_begun_bind [simp]: "run_begun (res_bind m f) = res_bind m (\<lambda>x. run_begun (f x))"
  by (simp add: run_begun_def res_bind_assoc)

lemma run_answer [simp]: "run_prog (answer g) w = return_0 (g w)"
  by (simp add: answer_def return_0_def)

lemma run_with_client:
  "run_begun (with_client_steps w k rp f) = with_client w k rp (\<lambda>c. run_begun (f c))"
  by (auto simp: with_client_steps_def with_client_def split: option.split intro!: res_bind_cong)

lemma with_client_cong: "(\<And>c. f c = g c) \<Longrightarrow> with_client w k rp f = with_client w k rp g"
  by (auto simp: with_client_def split: option.split intro!: res_bind_cong)

lemma res_bind_Inr_right [simp]: "res_bind m Inr = m"
  by (cases m) simp_all

lemma run_wrong_args [simp]:
  "run_begun (wrong_args_steps w name k rp) = return_0 (reply_err w rp k (wrong_args name))"
  by (simp add: wrong_args_steps_def)

lemmas steps_eq = run_with_client find_key_def store_key_def remove_key_def res_bind_assoc Let_def split_beta

text \<open>Each handler, by the same walk through its steps.\<close>

lemma run_get: "run_begun (get_steps w cmd k rp) = cmd_get w cmd k rp"
  by (auto simp: get_steps_def cmd_get_def steps_eq
      intro!: with_client_cong res_bind_cong)

lemma run_incr: "run_begun (incr_steps w cmd k rp) = cmd_incr w cmd k rp"
  by (auto simp: incr_steps_def cmd_incr_def steps_eq
      intro!: with_client_cong res_bind_cong split: option.split)

lemma run_del: "run_begun (del_steps w cmd k rp) = cmd_del w cmd k rp"
  by (auto simp: del_steps_def cmd_del_def steps_eq
      intro!: with_client_cong res_bind_cong split: option.split)

lemma run_set: "run_begun (set_steps w cmd k rp) = cmd_set w cmd k rp"
  by (auto simp: set_steps_def cmd_set_def steps_eq
      intro!: with_client_cong res_bind_cong)

lemma run_select: "run_begun (select_steps w cmd k rp) = cmd_select w cmd k rp"
  by (auto simp: select_steps_def cmd_select_def steps_eq
      intro!: with_client_cong res_bind_cong split: option.split)

lemma run_quit: "run_begun (quit_steps w cmd k rp) = cmd_quit w cmd k rp"
  by (auto simp: quit_steps_def cmd_quit_def steps_eq
      intro!: with_client_cong res_bind_cong)

lemma emit_files: "(emit es w)\<lparr>files := fs\<rparr> = emit es (w\<lparr>files := fs\<rparr>)"
  by (simp add: emit_def)

lemma run_take_all: "run_prog (take_all ls m p) w = run_prog p (emit (map (if m then WrLock else RdLock) ls) w)"
  by (induction ls arbitrary: w) auto

lemma run_release_all: "run_prog (release_all ls p) w = run_prog p (emit (map Unlock ls) w)"
  by (induction ls arbitrary: w) auto

lemma run_scan_all:
  "run_prog (scan_all ds ts f) w = res_bind (map_res (table_of w) ds)
     (\<lambda>us. run_prog (f (ts @ us)) (emit (concat (map (\<lambda>(d, t). table_reads d t) (zip ds us))) w))"
  by (induction ds arbitrary: ts w) (auto simp: scan_table_def res_bind_assoc intro!: res_bind_cong)

lemma run_save_steps:
  "run_prog (rdb_save_steps pathp p) w = res_bind (rdb_save w pathp) (\<lambda>(rc, w). run_prog p w)"
proof -
  have e: "enumerate 0 us = zip [0..<NUM_DBS] us" if "map_res f [0..<NUM_DBS] = Inr us" for f :: "nat \<Rightarrow> ub + HashTable" and us
  proof -
    have "length us = length ds" if "map_res f ds = Inr us" for ds us
      using that by (induction ds arbitrary: us) (auto simp: res_bind_eq_Inr)
    with that show ?thesis by (simp add: enumerate_eq_zip) 
  qed
  show ?thesis
    by (auto simp: rdb_save_steps_def rdb_save_def rdb_open_def write_dump_def run_take_all run_release_all run_scan_all
       res_bind_assoc Let_def snapshot_def e emit_files intro!: res_bind_cong split: option.split)
qed

lemma run_count_all:
  "table_of w d = Inr ht \<Longrightarrow> run_prog (count_all d is n f) w = run_prog (f (foldl
     (\<lambda>count b. foldl (\<lambda>count e. size_add count 1) count b) n (map (\<lambda>i. if i < length (buckets ht) then buckets ht ! i else []) is)))
     (emit (map (ReadBucket d) is) w)"
  by (induction "is" arbitrary: n w) (simp_all add: walk_bucket_def)

lemma padded_buckets:
  "foldl (\<lambda>count b. foldl g count b) n (map (\<lambda>i. if i < length bs then bs ! i else []) [0..<m]) =
   foldl (\<lambda>count b. foldl g count b) n (take m bs)"
  by (induction m) (auto simp: take_Suc_conv_app_nth)

lemma run_info: "run_begun (info_steps w cmd k rp) = cmd_info w cmd k rp"
  by (auto simp: info_steps_def cmd_info_def run_with_client run_count_all padded_buckets hash_count_def info_size_def Let_def
      intro!: with_client_cong res_bind_cong split: prod.split bool.split)

lemma run_load: "run_begun (load_steps w cmd k rp) = cmd_load cmd w k rp"
  by (auto simp: load_steps_def cmd_load_def run_take_all run_release_all intro!: res_bind_cong)

lemma run_save: "run_begun (save_steps w cmd k rp) = cmd_save cmd w k rp"
  by (auto simp: save_steps_def cmd_save_def run_save_steps intro!: res_bind_cong)

text \<open>
  \<open>cmd_dispatch\<close> does nothing for a command that is not ready, and otherwise what the program that
  \<open>dispatch_steps\<close> gives does when no other connection runs in between, with the same result, the same
  world and the same undefined behaviour.
\<close>

lemma dispatch_runs:
  "cmd_dispatch (Some cmd) w k =
     (if ready cmd = 0 then Inr (1, w)
      else res_bind (run_begun (dispatch_steps cmd w k)) (\<lambda>(rc, rp, w). Inr (0, w)))"
  by (auto simp: cmd_dispatch_def dispatch_steps_def run_get run_set run_del run_incr run_select
      run_quit run_save run_load run_info split: prod.split CmdCode.split)

end
