(* ===== verification/Concurrent.thy ===== *)
theory Concurrent
  imports Steps Threads
begin

text \<open>
  Connections that run at the same time on the shared server.  Each connection has its slot, the
  commands it still has to serve, the program of the one it is serving, the locks it holds and the
  pointer that its last \<open>hash_get\<close> returned.  A step lets one connection begin a command, end it, or
  cross one node of its program; a node that takes a lock waits for the other connections.  A
  pointer to a value dangles when another connection stores under its key, which frees the value, or
  when a \<open>DEL\<close> that has removed it frees it, or when a \<open>LOAD\<close> may have overwritten it, and using it then is undefined behaviour.

  The lemmas show that the programs of the handlers keep the locking discipline in every state, so that
  no reachable state is a deadlock, and give the shape of a step that the next theories use.
\<close>

section \<open>Steps of one connection\<close>

text \<open>
  What the last \<open>hash_get\<close> of a connection has returned: the value of an entry; a value that connection
  \<open>i\<close> has taken out of the table and not freed yet; or nothing that may be used.
\<close>

datatype ptr = Gone | Entry nat string | Removed nat

record Conn =
  c_slot :: nat
  c_todo :: "Cmd list"
  c_now :: "prog option"
  c_held :: held
  c_ptr :: ptr

type_synonym conf = "World \<times> Conn list"

text \<open>Crossing one node: the world, what is left of the program, the locks and the pointer after it.\<close>

fun advance :: "World \<Rightarrow> prog \<Rightarrow> held \<Rightarrow> ptr \<Rightarrow> ub + (World \<times> prog \<times> held \<times> ptr)" where
  "advance w (Take l m p) h q =
     (let e = (if m then WrLock l else RdLock l) in Inr (emit [e] w, p, hold e h, q))"
| "advance w (Release l p) h q = Inr (emit [Unlock l] w, p, hold (Unlock l) h, q)"
| "advance w (Find d key f) h q =
     res_bind (find_key w d key) (\<lambda>(v, w).
     Inr (w, f v, h, if v = None then Gone else Entry d key))"
| "advance w (Deref d key p) h q =
     (if q \<noteq> Gone then Inr (emit [ReadBucket d (hash_fn key)] w, p, h, q) else Inl Dangling)"
| "advance w (Free p) h q = Inr (w, p, h, q)"
| "advance w (Store d key v p) h q = res_bind (store_key w d key v) (\<lambda>w. Inr (w, p, h, q))"
| "advance w (Remove d key f) h q = res_bind (remove_key w d key) (\<lambda>(v, w). Inr (w, f v, h, q))"
| "advance w (Restore path p) h q = res_bind (rdb_load w path) (\<lambda>(rc, w). Inr (w, p, h, q))"
| "advance w (Scan d f) h q = res_bind (scan_table w d) (\<lambda>(t, w). Inr (w, f t, h, q))"
| "advance w (Chain d i f) h q = res_bind (walk_bucket w d i) (\<lambda>(b, w). Inr (w, f b, h, q))"
| "advance w (Dump path ts p) h q = Inr (write_dump w path ts, p, h, q)"
| "advance w (Own g f) h q = res_bind (g w) (\<lambda>(rc, rp, w). Inr (w, f rc rp, h, q))"
| "advance w p h q = Inr (w, p, h, q)"

fun halted :: "prog \<Rightarrow> bool" where
  "halted (Return rc rp) = True"
| "halted (Broken u) = True"
| "halted p = False"

text \<open>What a connection waits for, and what becomes of the pointer of another connection when
  connection \<open>i\<close> crosses a node.\<close>

fun may_go :: "prog \<Rightarrow> held \<Rightarrow> bool" where
  "may_go (Take l m p) h = free_for (if m then WrLock l else RdLock l) h"
| "may_go p h = True"

fun loses :: "nat \<Rightarrow> prog \<Rightarrow> ptr \<Rightarrow> ptr" where
  "loses i (Store d key v p) q = (if q = Entry d key then Gone else q)"
| "loses i (Remove d key f) q = (if q = Entry d key then Removed i else q)"
| "loses i (Restore path p) q = (case q of Entry d key \<Rightarrow> Gone | _ \<Rightarrow> q)"
| "loses i (Free p) q = (if q = Removed i then Gone else q)"
| "loses i p q = q"

definition dangle :: "(ptr \<Rightarrow> ptr) \<Rightarrow> Conn \<Rightarrow> Conn" where
  "dangle f c = c\<lparr>c_ptr := f (c_ptr c)\<rparr>"

definition begin_cmd :: "Cmd \<Rightarrow> World \<Rightarrow> nat \<Rightarrow> World \<times> prog" where
  "begin_cmd cmd w k =
     (if ready cmd = 0 then (w, Return 1 None)
      else case dispatch_steps cmd w k of Inl u \<Rightarrow> (w, Broken u) | Inr wp \<Rightarrow> wp)"

inductive conn_step :: "conf \<Rightarrow> conf \<Rightarrow> bool" where
  begins: "i < length cs \<Longrightarrow> cs ! i = c \<Longrightarrow> c_now c = None \<Longrightarrow> c_todo c = cmd # cmds \<Longrightarrow>
    begin_cmd cmd w (c_slot c) = (w', p) \<Longrightarrow>
    conn_step (w, cs) (w', cs[i := c\<lparr>c_now := Some p, c_todo := cmds\<rparr>])"
| ends: "i < length cs \<Longrightarrow> cs ! i = c \<Longrightarrow> c_now c = Some (Return rc rp) \<Longrightarrow>
    conn_step (w, cs) (w, cs[i := c\<lparr>c_now := None\<rparr>])"
| goes: "i < length cs \<Longrightarrow> cs ! i = c \<Longrightarrow> c_now c = Some p \<Longrightarrow> \<not> halted p \<Longrightarrow>
    (\<And>j. j < length cs \<Longrightarrow> j \<noteq> i \<Longrightarrow> may_go p (c_held (cs ! j))) \<Longrightarrow>
    advance w p (c_held c) (c_ptr c) = Inr (w', p', h', q') \<Longrightarrow>
    conn_step (w, cs) (w', (map (dangle (loses i p)) cs)[i := c\<lparr>c_now := Some p', c_held := h', c_ptr := q'\<rparr>])"
| breaks: "i < length cs \<Longrightarrow> cs ! i = c \<Longrightarrow> c_now c = Some p \<Longrightarrow> \<not> halted p \<Longrightarrow>
    advance w p (c_held c) (c_ptr c) = Inl u \<Longrightarrow>
    conn_step (w, cs) (w, cs[i := c\<lparr>c_now := Some (Broken u)\<rparr>])"

abbreviation conn_run :: "conf \<Rightarrow> conf \<Rightarrow> bool" where
  "conn_run \<equiv> conn_step\<^sup>*\<^sup>*"

text \<open>A connection between two commands, and one that has just been accepted into a slot.\<close>

definition idle :: "Conn \<Rightarrow> bool" where
  "idle c \<longleftrightarrow> c_now c = None \<and> c_held c = []"

definition conn_for :: "nat \<Rightarrow> Cmd list \<Rightarrow> Conn" where
  "conn_for k cmds = \<lparr>c_slot = k, c_todo = cmds, c_now = None, c_held = [], c_ptr = Gone\<rparr>"

inductive_cases conn_stepE: "conn_step (w, cs) r"

text \<open>All commands are served; some connection has run into undefined behaviour.\<close>

definition all_served :: "conf \<Rightarrow> bool" where
  "all_served r \<longleftrightarrow> (\<forall>c \<in> set (snd r). c_todo c = [] \<and> c_now c = None)"

definition crashed :: "conf \<Rightarrow> bool" where
  "crashed r \<longleftrightarrow> (\<exists>c \<in> set (snd r). \<exists>u. c_now c = Some (Broken u))"

lemma dangle_simps [simp]:
  "c_slot (dangle q c) = c_slot c" "c_todo (dangle q c) = c_todo c" "c_now (dangle q c) = c_now c"
  "c_held (dangle q c) = c_held c" "dangle (\<lambda>q. q) c = c"
  by (simp_all add: dangle_def)

lemma map_dangle_same [simp]: "map (dangle (\<lambda>q. q)) cs = cs"
  by (simp add: map_idI)

text \<open>The step of connection \<open>i\<close>, computed, and a run that lets the connections move in a given order.\<close>

definition conn_exec :: "nat \<Rightarrow> conf \<Rightarrow> conf option" where
  "conn_exec i r =
     (case r of (w, cs) \<Rightarrow>
        if length cs \<le> i then None
        else
          (let c = cs ! i in
           case c_now c of
             None \<Rightarrow>
               (case c_todo c of
                  [] \<Rightarrow> None
                | cmd # cmds \<Rightarrow>
                    (case begin_cmd cmd w (c_slot c) of
                       (w, p) \<Rightarrow> Some (w, cs[i := c\<lparr>c_now := Some p, c_todo := cmds\<rparr>])))
           | Some p \<Rightarrow>
               if halted p then
                 (case p of Return rc rp \<Rightarrow> Some (w, cs[i := c\<lparr>c_now := None\<rparr>]) | _ \<Rightarrow> None)
               else
                 (case advance w p (c_held c) (c_ptr c) of
                    Inl u \<Rightarrow> Some (w, cs[i := c\<lparr>c_now := Some (Broken u)\<rparr>])
                  | Inr (w, p', h', q') \<Rightarrow>
                      if list_all (\<lambda>j. j = i \<or> may_go p (c_held (cs ! j))) [0..<length cs]
                      then Some (w, (map (dangle (loses i p)) cs)
                                      [i := c\<lparr>c_now := Some p', c_held := h', c_ptr := q'\<rparr>])
                      else None)))"

fun exec_run :: "nat list \<Rightarrow> conf \<Rightarrow> conf option" where
  "exec_run [] r = Some r"
| "exec_run (i # is) r = (case conn_exec i r of None \<Rightarrow> None | Some r \<Rightarrow> exec_run is r)"

lemma conn_exec_step: "conn_exec i r = Some r' \<Longrightarrow> conn_step r r'"
  by (cases r)
    (auto simp: conn_exec_def Let_def list_all_iff split: if_splits option.splits list.splits prod.splits
      prog.splits sum.splits intro: begins ends breaks, rule goes [OF _ refl], auto)

lemma exec_run_run: "exec_run is r = Some r' \<Longrightarrow> conn_run r r'"
  by (induction "is" arbitrary: r)
    (auto split: option.splits dest!: conn_exec_step intro: converse_rtranclp_into_rtranclp)

section \<open>The locks of the programs\<close>

text \<open>
  A program that starts with the locks \<open>h\<close> keeps the discipline: locks are taken in order, the table
  is called under the lock of the bucket, a whole table is read under all the locks, and none is held
  at the end.
\<close>

definition all_locked :: "held \<Rightarrow> bool" where
  "all_locked h \<longleftrightarrow> set bucket_locks \<subseteq> fst ` set h"

primrec lock_ok :: "prog \<Rightarrow> held \<Rightarrow> bool" where
  "lock_ok (Return rc rp) h = (h = [])"
| "lock_ok (Broken u) h = True"
| "lock_ok (Take l m p) h = ((\<forall>(l', m') \<in> set h. l' < l) \<and> lock_ok p ((l, m) # h))"
| "lock_ok (Release l p) h = (l \<in> fst ` set h \<and> lock_ok p (hold (Unlock l) h))"
| "lock_ok (Find d key f) h = (BucketLock d (hash_fn key) \<in> fst ` set h \<and> (\<forall>v. lock_ok (f v) h))"
| "lock_ok (Deref d key p) h = lock_ok p h"
| "lock_ok (Free p) h = lock_ok p h"
| "lock_ok (Store d key v p) h = ((BucketLock d (hash_fn key), True) \<in> set h \<and> lock_ok p h)"
| "lock_ok (Remove d key f) h = ((BucketLock d (hash_fn key), True) \<in> set h \<and> (\<forall>v. lock_ok (f v) h))"
| "lock_ok (Restore path p) h = ((\<forall>l \<in> set bucket_locks. (l, True) \<in> set h) \<and> lock_ok p h)"
| "lock_ok (Scan d f) h = (all_locked h \<and> (\<forall>t. lock_ok (f t) h))"
| "lock_ok (Chain d i f) h = (\<forall>b. lock_ok (f b) h)"
| "lock_ok (Dump path ts p) h = lock_ok p h"
| "lock_ok (Own g f) h = (\<forall>rc rp. lock_ok (f rc rp) h)"

lemma lock_ok_answer [simp]: "lock_ok (answer g) h = (h = [])"
  by (simp add: answer_def)

lemma lock_ok_take_all:
  "sorted_wrt (<) ls \<Longrightarrow> \<forall>l \<in> set ls. \<forall>(l', m') \<in> set h. l' < l \<Longrightarrow>
   lock_ok p (rev (map (\<lambda>l. (l, m)) ls) @ h) \<Longrightarrow> lock_ok (take_all ls m p) h"
  by (induction ls arbitrary: h) auto

lemma lock_ok_release_all:
  "lock_ok p [] \<Longrightarrow> distinct ls \<Longrightarrow> distinct (map fst h) \<Longrightarrow> set ls = fst ` set h \<Longrightarrow> lock_ok (release_all ls p) h"
proof (induction ls arbitrary: h)
  case (Cons l ls)
  have "fst ` set (filter (\<lambda>(l', m). l' \<noteq> l) h) = fst ` set h - {l}" by force
  with Cons.prems have "set ls = fst ` set (filter (\<lambda>(l', m). l' \<noteq> l) h)" by auto
  moreover have "l \<in> fst ` set h" using Cons.prems by auto
  ultimately show ?case using Cons by (simp add: distinct_map_filter split_beta)
qed simp

lemma lock_ok_scan_all:
  "all_locked h \<Longrightarrow> (\<And>ts. lock_ok (f ts) h) \<Longrightarrow> lock_ok (scan_all ds ts f) h"
  by (induction ds arbitrary: ts) auto

lemma lock_ok_save: "lock_ok p [] \<Longrightarrow> lock_ok (rdb_save_steps pathp p) []"
proof -
  assume p: "lock_ok p []"
  have d: "distinct bucket_locks"
    using sorted_bucket_locks strict_sorted_iff by blast
  show ?thesis
    using p d unfolding rdb_save_steps_def Let_def
    by (auto simp: image_image comp_def rev_map [symmetric] sorted_bucket_locks all_locked_def
        intro!: lock_ok_take_all lock_ok_scan_all lock_ok_release_all)
qed

lemma lock_ok_load: "lock_ok p [] \<Longrightarrow> lock_ok (take_all bucket_locks True (Restore path (release_all bucket_locks p))) []"
proof -
  assume p: "lock_ok p []"
  have d: "distinct bucket_locks"
    using sorted_bucket_locks strict_sorted_iff by blast
  show ?thesis
    using p d by (auto simp: image_image comp_def rev_map [symmetric] sorted_bucket_locks
        intro!: lock_ok_take_all lock_ok_release_all)
qed

lemma lock_ok_count: "(\<And>n. lock_ok (f n) h) \<Longrightarrow> lock_ok (count_all d is n f) h"
  by (induction "is" arbitrary: n) auto

lemma begun_cases:
  assumes "with_client_steps w k rp f = Inr (w', p)"
  obtains "w' = w" "p = Return (-1) rp" | c where "client_of w k = Inr c" "f c = Inr (w', p)"
  using assms by (auto simp: with_client_steps_def res_bind_eq_Inr split: option.splits if_splits)

lemma handlers_lock_ok:
  "get_steps w cmd k rp = Inr (w', p) \<Longrightarrow> lock_ok p []"
  "set_steps w cmd k rp = Inr (w', p) \<Longrightarrow> lock_ok p []"
  "del_steps w cmd k rp = Inr (w', p) \<Longrightarrow> lock_ok p []"
  "incr_steps w cmd k rp = Inr (w', p) \<Longrightarrow> lock_ok p []"
  "select_steps w cmd k rp = Inr (w', p) \<Longrightarrow> lock_ok p []"
  "quit_steps w cmd k rp = Inr (w', p) \<Longrightarrow> lock_ok p []"
  "save_steps w cmd k rp = Inr (w', p) \<Longrightarrow> lock_ok p []"
  "load_steps w cmd k rp = Inr (w', p) \<Longrightarrow> lock_ok p []"
  "info_steps w cmd k rp = Inr (w', p) \<Longrightarrow> lock_ok p []"
  by (auto simp: get_steps_def set_steps_def del_steps_def incr_steps_def select_steps_def quit_steps_def
      save_steps_def load_steps_def info_steps_def wrong_args_steps_def res_bind_eq_Inr Let_def lock_ok_save lock_ok_load
      intro!: lock_ok_count elim!: begun_cases
      split: if_splits option.splits)

lemma dispatch_lock_ok: "dispatch_steps cmd w k = Inr (w', p) \<Longrightarrow> lock_ok p []"
  by (auto simp: dispatch_steps_def split: prod.splits CmdCode.splits intro: handlers_lock_ok)


section \<open>What holds in every reachable state\<close>

definition conn_locked :: "Conn \<Rightarrow> bool" where
  "conn_locked c \<longleftrightarrow> distinct (map fst (c_held c)) \<and>
     (case c_now c of None \<Rightarrow> c_held c = [] | Some p \<Rightarrow> lock_ok p (c_held c))"

definition held_by :: "Conn list \<Rightarrow> threads" where
  "held_by cs = map (\<lambda>c. ([], c_held c)) cs"

definition well_locked :: "Conn list \<Rightarrow> bool" where
  "well_locked cs \<longleftrightarrow> (\<forall>c \<in> set cs. conn_locked c) \<and> exclusive (held_by cs)"

lemma exclusive_cong: "map snd ts = map snd us \<Longrightarrow> exclusive ts = exclusive us"
proof -
  assume a: "map snd ts = map snd us"
  then have l: "length ts = length us" by (metis length_map)
  with a have "snd (ts ! i) = snd (us ! i)" if "i < length us" for i
    using that by (metis nth_map)
  with l show ?thesis by (simp add: exclusive_def)
qed

lemma exclusive_held_eq: "map c_held cs = map c_held ds \<Longrightarrow> exclusive (held_by cs) = exclusive (held_by ds)"
  by (rule exclusive_cong) (simp add: held_by_def comp_def)

lemma map_dangle [simp]: "map c_held (map (dangle q) cs) = map c_held cs"
  by simp

lemma exclusive_take:
  assumes "exclusive (held_by cs)" and "i < length cs" and "c_held (c') = hold e (c_held (cs ! i))"
    and "\<And>j. j < length cs \<Longrightarrow> j \<noteq> i \<Longrightarrow> free_for e (c_held (cs ! j))"
  shows "exclusive (held_by (cs[i := c']))"
proof -
  let ?ts = "(held_by cs)[i := ([e], c_held (cs ! i))]"
  have "exclusive ?ts"
    using assms(1,2) by (subst exclusive_cong [of _ "held_by cs"])
      (simp_all add: held_by_def map_update list_update_same_conv comp_def)
  moreover have "sched_step ?ts (?ts[i := ([], hold e (c_held (cs ! i)))])"
    using assms(2,4) by (intro sched) (simp_all add: held_by_def)
  ultimately have "exclusive (?ts[i := ([], hold e (c_held (cs ! i)))])"
    by (rule exclusive_step [rotated])
  then show ?thesis
    using assms(3) by (simp add: held_by_def map_update)
qed

lemma hold_distinct: "distinct (map fst h) \<Longrightarrow> distinct (map fst (hold (Unlock l) h))"
  by (simp add: distinct_map_filter)

lemma advance_held:
  assumes "advance w p h q = Inr (w', p', h', q')"
  obtains l m where "p = Take l m p'" "h' = (l, m) # h"
  | l where "p = Release l p'" "h' = hold (Unlock l) h"
  | "h' = h" "\<And>l m p'. p \<noteq> Take l m p'" "\<And>l p'. p \<noteq> Release l p'"
  using assms by (cases p) (auto simp: Let_def res_bind_eq_Inr split: if_splits)

lemma advance_lock_ok:
  "advance w p h q = Inr (w', p', h', q') \<Longrightarrow> lock_ok p h \<Longrightarrow> distinct (map fst h) \<Longrightarrow>
   lock_ok p' h' \<and> distinct (map fst h')"
  by (cases p) (fastforce simp: Let_def res_bind_eq_Inr distinct_map_filter split: if_splits)+

lemma begin_lock_ok: "begin_cmd cmd w k = (w', p) \<Longrightarrow> lock_ok p []"
  by (auto simp: begin_cmd_def dispatch_lock_ok split: if_splits sum.splits)

lemma conn_locked_dangle [simp]: "conn_locked (dangle q c) = conn_locked c"
  by (simp add: conn_locked_def split: option.split)

lemma well_lockedD: "well_locked cs \<Longrightarrow> i < length cs \<Longrightarrow> conn_locked (cs ! i)"
  by (simp add: well_locked_def)

lemma well_locked_update:
  "well_locked cs \<Longrightarrow> conn_locked c' \<Longrightarrow> exclusive (held_by (cs[i := c'])) \<Longrightarrow> well_locked (cs[i := c'])"
  by (auto simp: well_locked_def dest!: set_update_subset_insert [THEN subsetD])

lemma well_locked_same:
  assumes "well_locked cs" and "i < length cs" and "conn_locked c'" and "c_held c' = c_held (cs ! i)"
  shows "well_locked (cs[i := c'])"
proof -
  have "map c_held (cs[i := c']) = map c_held cs"
    using assms(2,4) by (simp add: map_update list_update_same_conv)
  from exclusive_held_eq [OF this] assms show ?thesis
    by (intro well_locked_update) (simp_all add: well_locked_def)
qed

lemma well_locked_map_dangle: "well_locked cs \<Longrightarrow> well_locked (map (dangle q) cs)"
  by (simp add: well_locked_def exclusive_held_eq [OF map_dangle])

lemma conn_step_locked:
  assumes "conn_step r r'" and "well_locked (snd r)"
  shows "well_locked (snd r')"
  using assms
proof (induction rule: conn_step.induct)
  case (begins i cs c cmd cmds w w' p)
  then have w: "well_locked cs" "conn_locked c" by (auto dest: well_lockedD)
  with begins(3) begin_lock_ok [OF begins(5)] have "conn_locked (c\<lparr>c_now := Some p, c_todo := cmds\<rparr>)"
    by (simp add: conn_locked_def)
  with w(1) begins(1,2) show ?case by (simp add: well_locked_same)
next
  case (ends i cs c rc rp w)
  then have w: "well_locked cs" "conn_locked c" by (auto dest: well_lockedD)
  with ends(3) have "conn_locked (c\<lparr>c_now := None\<rparr>)" by (simp add: conn_locked_def)
  with w(1) ends(1,2) show ?case by (simp add: well_locked_same)
next
  case (goes i cs c p w w' p' h' q')
  let ?c = "c\<lparr>c_now := Some p', c_held := h', c_ptr := q'\<rparr>"
  have w: "well_locked (map (dangle (loses i p)) cs)" "conn_locked c"
    using goes(1,2,7) by (auto intro: well_locked_map_dangle dest: well_lockedD)
  with goes(3) have c: "conn_locked ?c"
    using advance_lock_ok [OF goes(6)] by (simp add: conn_locked_def)
  have held: "c_held (map (dangle (loses i p)) cs ! j) = c_held (cs ! j)" if "j < length cs" for j
    using that by simp
  have "well_locked ((map (dangle (loses i p)) cs)[i := ?c])"
    using goes(6)
  proof (cases rule: advance_held)
    case (1 l m)
    have "exclusive (held_by ((map (dangle (loses i p)) cs)[i := ?c]))"
      by (rule exclusive_take [where e = "if m then WrLock l else RdLock l"])
        (use w(1) goes(1,2) goes(5) 1 in \<open>simp_all add: well_locked_def\<close>)
    with w(1) c show ?thesis by (rule well_locked_update)
  next
    case (2 l)
    have "exclusive (held_by ((map (dangle (loses i p)) cs)[i := ?c]))"
      by (rule exclusive_take [where e = "Unlock l"])
        (use w(1) goes(1,2) 2 in \<open>simp_all add: well_locked_def\<close>)
    with w(1) c show ?thesis by (rule well_locked_update)
  next
    case 3
    with w(1) c goes(1,2) show ?thesis by (intro well_locked_same) simp_all
  qed
  then show ?case by simp
next
  case (breaks i cs c p w u)
  then have w: "well_locked cs" "conn_locked c" by (auto dest: well_lockedD)
  then have "conn_locked (c\<lparr>c_now := Some (Broken u)\<rparr>)" by (simp add: conn_locked_def)
  with w(1) breaks(1,2) show ?case by (simp add: well_locked_same)
qed


lemma idle_locked: "\<forall>c \<in> set cs. idle c \<Longrightarrow> well_locked cs"
  by (auto simp: well_locked_def conn_locked_def idle_def exclusive_def held_by_def)

section \<open>No deadlock\<close>

lemma advance_take: "advance w (Take l m p) h q = Inr (emit [if m then WrLock l else RdLock l] w, p, (l, m) # h, q)"
  by simp

text \<open>A connection that can only be stopped by a lock it waits for.\<close>

lemma stuck_conn:
  assumes stuck: "\<And>r. \<not> conn_step (w, cs) r" and "\<not> crashed (w, cs)" and "i < length cs"
  shows "(c_now (cs ! i) = None \<and> c_todo (cs ! i) = []) \<or>
    (\<exists>l m p. c_now (cs ! i) = Some (Take l m p))"
proof (cases "c_now (cs ! i)")
  case None
  have "c_todo (cs ! i) = []"
  proof (cases "c_todo (cs ! i)")
    case (Cons cmd cmds)
    then show ?thesis
      using assms(1) begins [OF assms(3) refl None Cons] prod.collapse by metis
  qed
  with None show ?thesis by simp
next
  case (Some p)
  show ?thesis
  proof (cases "halted p")
    case True
    then show ?thesis
      using Some assms(2,3) ends [OF assms(3) refl] assms(1) nth_mem [OF assms(3)]
      by (cases p) (simp_all add: crashed_def, blast)
  next
    case False
    show ?thesis
    proof (cases "\<exists>l m p'. p = Take l m p'")
      case False
      then have m: "may_go p h" for h by (cases p) auto
      show ?thesis
      proof (cases "advance w p (c_held (cs ! i)) (c_ptr (cs ! i))")
        case (Inl u)
        from stuck breaks [OF assms(3) refl Some \<open>\<not> halted p\<close> Inl] show ?thesis by blast
      next
        case (Inr y)
        obtain w' p' h' q' where "y = (w', p', h', q')" by (cases y)
        with stuck goes [OF assms(3) refl Some \<open>\<not> halted p\<close> m] Inr show ?thesis by blast
      qed
    qed (use Some in auto)
  qed
qed

fun waiting :: "prog option \<Rightarrow> held \<Rightarrow> event list" where
  "waiting (Some (Take l m p)) h = (if m then WrLock l else RdLock l) # map Unlock (map fst ((l, m) # h))"
| "waiting p h = []"

lemma order_run_unlock: "distinct (map fst h) \<Longrightarrow> order_run (map Unlock (map fst h)) h = Some []"
proof (induction h)
  case (Cons x h)
  obtain l m where x: "x = (l, m)" by force
  with Cons.prems have "filter (\<lambda>(l', m). l' \<noteq> l) (x # h) = h"
    by (auto intro!: filter_True simp: image_iff)
  with Cons x show ?case by simp
qed simp

lemma order_run_waiting:
  assumes "conn_locked c" and "c_now c = Some (Take l m p)"
  shows "order_run (waiting (c_now c) (c_held c)) (c_held c) = Some []"
proof -
  have d: "\<forall>(l', m') \<in> set (c_held c). l' < l" "distinct (map fst ((l, m) # c_held c))"
    using assms by (auto simp: conn_locked_def)
  with order_run_unlock [OF d(2)] show ?thesis
    using assms(2) by simp
qed

lemma conn_progress:
  assumes "well_locked cs" and "\<not> crashed (w, cs)" and "\<not> all_served (w, cs)"
  shows "\<exists>r. conn_step (w, cs) r"
proof (rule ccontr)
  assume "\<nexists>r. conn_step (w, cs) r"
  then have stuck: "\<And>r. \<not> conn_step (w, cs) r" by blast
  let ?ts = "map (\<lambda>c. (waiting (c_now c) (c_held c), c_held c)) cs"
  have "order_run (waiting (c_now c) (c_held c)) (c_held c) = Some []" if c: "c \<in> set cs" for c
  proof -
    obtain i where i: "i < length cs" "c = cs ! i" using c by (metis in_set_conv_nth)
    have l: "conn_locked c" using assms(1) i by (simp add: well_lockedD)
    from stuck_conn [OF stuck assms(2) i(1)] show ?thesis
    proof (elim disjE exE)
      assume "c_now (cs ! i) = None \<and> c_todo (cs ! i) = []"
      with l i(2) show ?thesis by (simp add: conn_locked_def)
    qed (use l i(2) order_run_waiting in blast)
  qed
  then have ord: "\<forall>(es, h) \<in> set ?ts. order_run es h = Some []" by auto
  from assms(3) obtain i where i: "i < length cs" "c_todo (cs ! i) \<noteq> [] \<or> c_now (cs ! i) \<noteq> None"
    by (auto simp: all_served_def in_set_conv_nth)
  with stuck_conn [OF stuck assms(2) i(1)] have "fst (?ts ! i) \<noteq> []" by auto
  then obtain ts' where "sched_step ?ts ts'" using progress [OF ord, of i] i(1) by auto
  then show False
  proof cases
    case (sched i e es h)
    then have i: "i < length cs" "waiting (c_now (cs ! i)) (c_held (cs ! i)) = e # es" by auto
    then obtain l m p where p: "c_now (cs ! i) = Some (Take l m p)"
      using stuck_conn [OF stuck assms(2) i(1)] by auto
    with i(2) have e: "e = (if m then WrLock l else RdLock l)" by simp
    have free: "may_go (Take l m p) (c_held (cs ! j))" if "j < length cs" "j \<noteq> i" for j
      using sched(4) [of j] that by (simp add: e)
    have nh: "\<not> halted (Take l m p)" by simp
    from stuck goes [OF i(1) refl p nh free advance_take] show False by blast
  qed
qed

section \<open>Every run ends\<close>

text \<open>What can be left of a program after one of its nodes, and of what a connection is doing.\<close>

fun next_prog :: "prog \<Rightarrow> prog \<Rightarrow> bool" where
  "next_prog p' (Return rc rp) = False"
| "next_prog p' (Broken u) = False"
| "next_prog p' (Take l m p) = (p' = p \<or> (\<exists>u. p' = Broken u))"
| "next_prog p' (Release l p) = (p' = p \<or> (\<exists>u. p' = Broken u))"
| "next_prog p' (Find d key f) = (p' \<in> range f \<or> (\<exists>u. p' = Broken u))"
| "next_prog p' (Deref d key p) = (p' = p \<or> (\<exists>u. p' = Broken u))"
| "next_prog p' (Free p) = (p' = p \<or> (\<exists>u. p' = Broken u))"
| "next_prog p' (Store d key v p) = (p' = p \<or> (\<exists>u. p' = Broken u))"
| "next_prog p' (Remove d key f) = (p' \<in> range f \<or> (\<exists>u. p' = Broken u))"
| "next_prog p' (Restore path p) = (p' = p \<or> (\<exists>u. p' = Broken u))"
| "next_prog p' (Scan d f) = (p' \<in> range f \<or> (\<exists>u. p' = Broken u))"
| "next_prog p' (Chain d i f) = (p' \<in> range f \<or> (\<exists>u. p' = Broken u))"
| "next_prog p' (Dump path ts p) = (p' = p \<or> (\<exists>u. p' = Broken u))"
| "next_prog p' (Own g f) = ((\<exists>rc rp. p' = f rc rp) \<or> (\<exists>u. p' = Broken u))"

inductive later :: "prog option \<Rightarrow> prog option \<Rightarrow> bool" where
  later_None: "later None (Some p)"
| later_Some: "next_prog p' p \<Longrightarrow> later (Some p') (Some p)"

inductive_cases laterE: "later x None" "later x (Some p)"

lemma later_acc: "Wellfounded.accp later x"
proof -
  have n: "Wellfounded.accp later None" by (rule accp.accI) (auto elim: laterE)
  have b: "Wellfounded.accp later (Some (Broken u))" for u by (rule accp.accI) (auto elim: laterE intro: n)
  have "Wellfounded.accp later (Some p)" for p
  proof (induction p)
    case (Own g f)
    show ?case
    proof (rule accp.accI)
      fix y assume "later y (Some (Own g f))"
      moreover have "Wellfounded.accp later (Some (f rc rp))" for rc rp
        using Own [of "f rc" "f rc rp"] by blast
      ultimately show "Wellfounded.accp later y" using n b by (auto elim!: laterE)
    qed
  qed (rule accp.accI; auto elim!: laterE intro: n b)+
  with n show ?thesis by (cases x) auto
qed

definition rank :: "Conn list \<Rightarrow> (nat \<times> prog option) list" where
  "rank cs = map (\<lambda>c. (length (c_todo c), c_now c)) cs"

abbreviation rank_rel :: "((nat \<times> prog option) list \<times> (nat \<times> prog option) list) set" where
  "rank_rel \<equiv> listrel1 (less_than <*lex*> {(x, y). later x y})"

lemma wf_rank_rel: "wf rank_rel"
proof -
  have "wf {(x, y). later x y}" using accp_wfpI [of later] later_acc by (simp add: wfp_def)
  then show ?thesis by (simp add: wf_listrel1_iff wf_lex_prod)
qed

lemma rank_nth: "i < length cs \<Longrightarrow> rank cs ! i = (length (c_todo (cs ! i)), c_now (cs ! i))" "length (rank cs) = length cs"
  by (simp_all add: rank_def)

lemma rank_update:
  assumes "i < length cs" and "((length (c_todo c'), c_now c'), (length (c_todo (cs ! i)), c_now (cs ! i))) \<in>
    less_than <*lex*> {(x, y). later x y}"
  shows "(rank (cs[i := c']), rank cs) \<in> rank_rel"
proof -
  have "rank cs = take i (rank cs) @ (length (c_todo (cs ! i)), c_now (cs ! i)) # drop (Suc i) (rank cs)"
    using assms(1) id_take_nth_drop [of i "rank cs"] by (simp add: rank_nth)
  moreover have "rank (cs[i := c']) = take i (rank cs) @ (length (c_todo c'), c_now c') # drop (Suc i) (rank cs)"
    using assms(1) by (simp add: rank_def map_update upd_conv_take_nth_drop take_map drop_map)
  ultimately show ?thesis using assms(2) by (metis listrel1I)
qed

lemma rank_dangle [simp]: "rank (map (dangle q) cs) = rank cs"
  by (simp add: rank_def comp_def)

lemma advance_next: "advance w p h q = Inr (w', p', h', q') \<Longrightarrow> \<not> halted p \<Longrightarrow> next_prog p' p"
  by (cases p) (auto simp: Let_def res_bind_eq_Inr split: if_splits)

lemma next_broken: "\<not> halted p \<Longrightarrow> next_prog (Broken u) p"
  by (cases p) auto

lemma conn_step_rank: "conn_step r r' \<Longrightarrow> (rank (snd r'), rank (snd r)) \<in> rank_rel"
proof (induction rule: conn_step.induct)
  case (goes i cs c p w w' p' h' q')
  let ?cs = "map (dangle (loses i p)) cs"
  have "(rank (?cs[i := c\<lparr>c_now := Some p', c_held := h', c_ptr := q'\<rparr>]), rank ?cs) \<in> rank_rel"
    using goes(1-3) later_Some [OF advance_next [OF goes(6,4)]] by (intro rank_update) auto
  then show ?case by simp
qed (auto intro!: rank_update later_None later_Some next_broken)

lemma wf_conn_step: "wfP (\<lambda>r' r. conn_step r r')"
proof -
  have "{(r', r). conn_step r r'} \<subseteq> inv_image rank_rel (\<lambda>r. rank (snd r))"
    using conn_step_rank by auto
  from wf_subset [OF wf_inv_image [OF wf_rank_rel] this] show ?thesis by (simp add: wfp_def)
qed

lemma conn_run_ends: "\<exists>r'. conn_run r r' \<and> (\<forall>r''. \<not> conn_step r' r'')"
proof (induction r rule: wfp_induct_rule [OF wf_conn_step])
  case (1 r)
  show ?case
  proof (cases "\<exists>u. conn_step r u")
    case True
    then obtain u where "conn_step r u" ..
    with 1 [OF this] show ?thesis by (meson converse_rtranclp_into_rtranclp)
  qed blast
qed


section \<open>Programs that keep no pointer into a table\<close>

text \<open>Only \<open>GET\<close> uses a pointer after it has released the lock.\<close>

primrec no_deref :: "prog \<Rightarrow> bool" where
  "no_deref (Return rc rp) = True"
| "no_deref (Broken u) = True"
| "no_deref (Take l m p) = no_deref p"
| "no_deref (Release l p) = no_deref p"
| "no_deref (Find d key f) = (\<forall>v. no_deref (f v))"
| "no_deref (Deref d key p) = False"
| "no_deref (Free p) = no_deref p"
| "no_deref (Store d key v p) = no_deref p"
| "no_deref (Remove d key f) = (\<forall>v. no_deref (f v))"
| "no_deref (Restore path p) = no_deref p"
| "no_deref (Scan d f) = (\<forall>t. no_deref (f t))"
| "no_deref (Chain d i f) = (\<forall>b. no_deref (f b))"
| "no_deref (Dump path ts p) = no_deref p"
| "no_deref (Own g f) = (\<forall>rc rp. no_deref (f rc rp))"

lemma no_deref_answer [simp]: "no_deref (answer g)"
  by (simp add: answer_def)

lemma no_deref_locks [simp]: "no_deref (take_all ls m p) = no_deref p" "no_deref (release_all ls p) = no_deref p"
  by (induction ls) auto

lemma no_deref_scan [simp]: "(\<And>ts. no_deref (f ts)) \<Longrightarrow> no_deref (scan_all ds ts f)"
  by (induction ds arbitrary: ts) auto

lemma no_deref_count [simp]: "(\<And>n. no_deref (f n)) \<Longrightarrow> no_deref (count_all d is n f)"
  by (induction "is" arbitrary: n) auto

lemma no_deref_save: "no_deref p \<Longrightarrow> no_deref (rdb_save_steps pathp p)"
  by (simp add: rdb_save_steps_def Let_def)

lemma dispatch_no_deref: "dispatch_steps cmd w k = Inr (w', p) \<Longrightarrow> entry cmd \<noteq> CMD_GET \<Longrightarrow> no_deref p"
  by (auto simp: dispatch_steps_def set_steps_def del_steps_def incr_steps_def select_steps_def quit_steps_def
      save_steps_def load_steps_def info_steps_def wrong_args_steps_def res_bind_eq_Inr Let_def no_deref_save elim!: begun_cases
      split: prod.splits CmdCode.splits if_splits option.splits)

lemma begin_no_deref: "begin_cmd cmd w k = (w', p) \<Longrightarrow> entry cmd \<noteq> CMD_GET \<Longrightarrow> no_deref p"
  by (auto simp: begin_cmd_def dispatch_no_deref split: if_splits sum.splits)

lemma advance_no_deref: "advance w p h q = Inr (w', p', h', q') \<Longrightarrow> no_deref p \<Longrightarrow> no_deref p'"
  by (cases p) (auto simp: Let_def res_bind_eq_Inr)

end
