(* ===== verification/Serial.thy ===== *)
theory Serial
  imports Concurrent
begin

text \<open>
  Connections that run at the same time are served as if one command ran after the other.  The
  abstract server is sixteen finite maps and the selected database of every connection; \<open>serve\<close> lets
  one connection run one command on it by \<open>spec_step\<close> (a \<open>SAVE\<close> changes nothing and answers OK), and \<open>serial\<close> runs a list of such calls.  Each
  command takes effect at one node of its program, where it calls the table under the lock of the
  bucket; \<open>pending\<close> describes a program before this node, with the value it knows for its key while it
  holds the lock for writing, and \<open>answers\<close> a program after it.  The simulation of the
  interleaved steps by the serial calls gives the properties.
\<close>

section \<open>The serial server\<close>

record Ser =
  s_dbs :: "nat \<Rightarrow> string \<Rightarrow> string option"
  s_sel :: "nat \<Rightarrow> nat"

definition spec_serve :: "string list \<Rightarrow> Abs \<Rightarrow> resp \<times> Abs" where
  "spec_serve ws a = (if command_of ws = CMD_SAVE then (RSimple ''OK'', a) else spec_step ws a)"

definition serve :: "nat \<Rightarrow> string list \<Rightarrow> Ser \<Rightarrow> resp \<times> Ser" where
  "serve i ws s =
     (case spec_serve ws \<lparr>a_dbs = s_dbs s, a_sel = s_sel s i, a_open = True\<rparr> of
        (r, a) \<Rightarrow> (r, s\<lparr>s_dbs := a_dbs a, s_sel := (s_sel s)(i := a_sel a)\<rparr>))"

definition serial :: "(nat \<times> string list) list \<Rightarrow> Ser \<Rightarrow> (nat \<times> resp) list \<times> Ser" where
  "serial order s =
     foldl (\<lambda>(rs, s) (i, ws). case serve i ws s of (r, s) \<Rightarrow> (rs @ [(i, r)], s)) ([], s) order"

text \<open>What concerns connection \<open>i\<close> in a list of numbered things.\<close>

definition only :: "nat \<Rightarrow> (nat \<times> 'a) list \<Rightarrow> 'a list" where
  "only i xs = map snd (filter (\<lambda>(j, _). j = i) xs)"

lemma only_simps [simp]:
  "only i [] = []" "only i (xs @ ys) = only i xs @ only i ys"
  "only i [(j, x)] = (if j = i then [x] else [])"
  by (auto simp: only_def)

lemma serial_simps [simp]:
  "serial [] s = ([], s)"
  "serial (order @ [(i, ws)]) s =
     (case serial order s of (rs, s) \<Rightarrow> case serve i ws s of (r, s) \<Rightarrow> (rs @ [(i, r)], s))"
  by (simp_all add: serial_def split: prod.split)

text \<open>The messages that a socket has been sent.\<close>

definition sent :: "int \<Rightarrow> World \<Rightarrow> string list" where
  "sent fd w = map snd (filter (\<lambda>(f, _). f = fd) (sends (trace w)))"

lemma sent_emit [simp]:
  "sent fd (emit es w) = sent fd w @ map snd (filter (\<lambda>(f, _). f = fd) (sends es))"
  by (simp add: sent_def)

lemma sent_trace: "trace w' = trace w \<Longrightarrow> sent fd w' = sent fd w"
  by (simp add: sent_def)

section \<open>Programs before and after they take effect\<close>

text \<open>
  A program that no longer touches the databases and will answer \<open>r\<close> to the client in slot \<open>k\<close>.
\<close>

definition replies :: "nat \<Rightarrow> resp \<Rightarrow> (World \<Rightarrow> handled) \<Rightarrow> (int \<Rightarrow> ServerReply option \<Rightarrow> prog) \<Rightarrow> bool" where
  "replies k r g f \<longleftrightarrow> (\<forall>w c. calm w \<longrightarrow> client_of w k = Inr c \<longrightarrow>
     (\<exists>rc rp rc' rp'. g w = Inr (rc, rp, emit [Send (sock c) (resp_encode r)] w) \<and> f rc rp = Return rc' rp'))"

definition only_files :: "(World \<Rightarrow> handled) \<Rightarrow> bool" where
  "only_files g \<longleftrightarrow> (\<forall>w. \<exists>rc rp fs. g w = Inr (rc, rp, w\<lparr>files := fs\<rparr>))"

inductive answers :: "nat \<Rightarrow> resp \<Rightarrow> prog \<Rightarrow> bool" for k r where
  answers_reply: "replies k r g f \<Longrightarrow> answers k r (Own g f)"
| answers_files: "only_files g \<Longrightarrow> (\<And>rc rp. answers k r (f rc rp)) \<Longrightarrow> answers k r (Own g f)"
| answers_take: "answers k r p \<Longrightarrow> answers k r (Take l m p)"
| answers_release: "answers k r p \<Longrightarrow> answers k r (Release l p)"
| answers_deref: "answers k r p \<Longrightarrow> answers k r (Deref d key p)"
| answers_free: "answers k r p \<Longrightarrow> answers k r (Free p)"
| answers_scan: "d < NUM_DBS \<Longrightarrow> (\<And>t. answers k r (f t)) \<Longrightarrow> answers k r (Scan d f)"
| answers_dump: "answers k r p \<Longrightarrow> answers k r (Dump path ts p)"

inductive_cases answersE:
  "answers k r (Own g f)" "answers k r (Take l m p)" "answers k r (Release l p)" "answers k r (Deref d key p)"
  "answers k r (Scan d f)" "answers k r (Chain d i G)" "answers k r (Find d key F)" "answers k r (Store d key v p)"
  "answers k r (Remove d key F)" "answers k r (Dump path ts p)" "answers k r (Free p)" "answers k r (Restore path p)" "answers k r (Return rc rp)" "answers k r (Broken u)"

text \<open>
  The command has the reply \<open>r\<close> and leaves \<open>v'\<close> in its key when it finds \<open>v\<close> there, and changes
  nothing else.
\<close>

definition takes_effect ::
    "string list \<Rightarrow> nat \<Rightarrow> string \<Rightarrow> string option \<Rightarrow> resp \<Rightarrow> string option \<Rightarrow> bool" where
  "takes_effect ws d key v r v' \<longleftrightarrow>
     (\<forall>a. a_sel a = d \<longrightarrow> a_dbs a d key = v \<longrightarrow> spec_serve ws a = (r, put_key key v' a))"

text \<open>A program that has not taken effect yet; \<open>K\<close> is what it knows of its key.\<close>

inductive pending ::
    "nat \<Rightarrow> string list \<Rightarrow> nat \<Rightarrow> string \<Rightarrow> string option option \<Rightarrow> prog \<Rightarrow> bool" for k ws d key where
  pending_take: "pending k ws d key None p \<Longrightarrow> pending k ws d key None (Take l m p)"
| pending_find: "(\<And>v. short_value v \<Longrightarrow> (\<exists>r. takes_effect ws d key v r v \<and> answers k r (f v)) \<or>
      pending k ws d key (Some v) (f v)) \<Longrightarrow> pending k ws d key None (Find d key f)"
| pending_store: "kv_ok key x \<Longrightarrow> short_value (Some x) \<Longrightarrow>
    (\<And>v. K = None \<or> K = Some v \<Longrightarrow> takes_effect ws d key v r (Some x)) \<Longrightarrow> answers k r p \<Longrightarrow>
    pending k ws d key K (Store d key x p)"
| pending_remove: "(\<And>v. short_value v \<Longrightarrow> \<exists>r. takes_effect ws d key v r None \<and> answers k r (f v)) \<Longrightarrow>
    pending k ws d key None (Remove d key f)"

inductive_cases pendingE:
  "pending k ws d key K (Own g f)" "pending k ws d key K (Take l m p)" "pending k ws d key K (Release l p)"
  "pending k ws d key K (Deref d' key' p)" "pending k ws d key K (Scan d' f)" "pending k ws d key K (Chain d' i G)" "pending k ws d key K (Find d' key' F)"
  "pending k ws d key K (Store d' key' v p)" "pending k ws d key K (Dump path ts p)" "pending k ws d key K (Remove d' key' F)"
  "pending k ws d key K (Free p)" "pending k ws d key K (Restore path p)" "pending k ws d key K (Return rc rp)" "pending k ws d key K (Broken u)"


section \<open>How the commands begin\<close>

text \<open>
  The commands served here: not \<open>INFO\<close>, which reads without locks, nor \<open>LOAD\<close>, which reads a file, nor the \<open>QUIT\<close> that
  closes the connection, nor a \<open>SAVE\<close> without a path.
\<close>

definition plain :: "string list \<Rightarrow> bool" where
  "plain ws \<longleftrightarrow> command_of ws \<noteq> CMD_INFO \<and> command_of ws \<noteq> CMD_LOAD \<and>
     (command_of ws = CMD_QUIT \<longrightarrow> 1 < length ws) \<and> (command_of ws = CMD_SAVE \<longrightarrow> 1 < length ws) \<and>
     words_size ws < 2 ^ 30"

lemma replies_answer:
  assumes "\<And>w c. calm w \<Longrightarrow> client_of w k = Inr c \<Longrightarrow>
    \<exists>rc rp. g w = Inr (rc, rp, emit [Send (sock c) (resp_encode r)] w)"
  shows "answers k r (answer g)"
  unfolding answer_def by (rule answers_reply) (use assms in \<open>fastforce simp: replies_def\<close>)

lemma answers_err:
  "int (length (err_msg m)) < INT_MAX \<Longrightarrow> answers k (RError (''ERR '' @ m)) (answer (\<lambda>w. reply_err w (Some r0) k m))"
  using reply_fns_ok(4) by (intro replies_answer) (fastforce simp: err_msg_def)

lemma answers_ok: "answers k (RSimple ''OK'') (answer (\<lambda>w. reply_ok w (Some r0) k))"
  using reply_fns_ok(3) by (intro replies_answer) (fastforce simp: ok_msg_def)

lemma answers_int:
  "INT_MIN \<le> n \<Longrightarrow> n \<le> INT_MAX \<Longrightarrow> answers k (RInt n) (answer (\<lambda>w. reply_integer w (Some r0) k n))"
  using reply_fns_ok(2) int_msg_short by (intro replies_answer) fastforce

lemma answers_bulk:
  "short_value v \<Longrightarrow> answers k (case v of None \<Rightarrow> RNil | Some s \<Rightarrow> RBulk s)
     (answer (\<lambda>w. reply_bulk_str w (Some r0) (Some cmd) k v))"
  using reply_fns_ok(1) bulk_msg_short by (intro replies_answer) (fastforce split: option.split)

lemma steps_serving: "serving w k c cmd ws \<Longrightarrow> with_client_steps w k rp f = f c"
  by (auto simp: with_client_steps_def serving_def world_wf_def)

lemma begin_serving:
  assumes "serving w k c cmd ws"
  shows "begin_cmd cmd w k = (case
    (case command_of ws of
       CMD_GET \<Rightarrow> get_steps w cmd k (Some r_init) | CMD_SET \<Rightarrow> set_steps w cmd k (Some r_init)
     | CMD_DEL \<Rightarrow> del_steps w cmd k (Some r_init) | CMD_QUIT \<Rightarrow> quit_steps w cmd k (Some r_init)
     | CMD_SELECT \<Rightarrow> select_steps w cmd k (Some r_init) | CMD_SAVE \<Rightarrow> save_steps w cmd k (Some r_init)
     | CMD_LOAD \<Rightarrow> load_steps w cmd k (Some r_init)
     | CMD_INFO \<Rightarrow> info_steps w cmd k (Some r_init)
     | CMD_INCR \<Rightarrow> incr_steps w cmd k (Some r_init)
     | CMD_UNKNOWN \<Rightarrow> Inr (w, Own (\<lambda>w. reply_err w (Some r_init) k CMD_ERR_MSG_UNKNOWN) Return))
    of Inl u \<Rightarrow> (w, Broken u) | Inr wp \<Rightarrow> wp)"
  using servingD(2,6,7) [OF assms] by (simp add: begin_cmd_def dispatch_steps_def reply_new_calm split: CmdCode.split)

lemma put_key_same: "a_dbs a (a_sel a) key = v \<Longrightarrow> put_key key v a = a"
  by (auto simp: put_key_def)

lemma takes_effect_get:
  "command_of [name, key] = CMD_GET \<Longrightarrow>
   takes_effect [name, key] d key v (case v of None \<Rightarrow> RNil | Some s \<Rightarrow> RBulk s) v"
  by (auto simp: takes_effect_def spec_serve_def spec_step_def put_key_same)

lemma begin_get:
  assumes s: "serving w k c cmd [name, key]" and e: "command_of [name, key] = CMD_GET"
    and l: "l = BucketLock (db c) (hash_fn key)"
    and r: "reply = (\<lambda>value. answer (\<lambda>w. reply_bulk_str w (Some r_init) (Some cmd) k value))"
  shows "begin_cmd cmd w k = (w, Take l False (Find (db c) key (\<lambda>value.
    Release l (if value = None then reply value else Deref (db c) key (reply value)))))"
  using servingD(9) [OF s, of 1] servingD(13) [OF s]
  unfolding l r by (auto simp: begin_serving [OF s] e get_steps_def steps_serving [OF s] servingD(8) [OF s] Let_def)

lemma pending_get:
  assumes s: "serving w k c cmd [name, key]" and e: "command_of [name, key] = CMD_GET"
  shows "\<exists>p. begin_cmd cmd w k = (w, p) \<and> pending k [name, key] (db c) key None p"
proof -
  let ?reply = "\<lambda>value. answer (\<lambda>w. reply_bulk_str w (Some r_init) (Some cmd) k value)"
  let ?p = "Take (BucketLock (db c) (hash_fn key)) False (Find (db c) key (\<lambda>value.
    Release (BucketLock (db c) (hash_fn key)) (if value = None then ?reply value else Deref (db c) key (?reply value))))"
  have "begin_cmd cmd w k = (w, ?p)" by (rule begin_get [OF s e refl refl])
  moreover have "answers k (case v of None \<Rightarrow> RNil | Some s \<Rightarrow> RBulk s) (if v = None then ?reply v else Deref (db c) key (?reply v))"
    if "short_value v" for v
    using answers_bulk [OF that, of k r_init cmd] by (auto intro: answers_deref)
  then have "pending k [name, key] (db c) key None ?p"
    using takes_effect_get [OF e] by (intro pending_take pending_find) (blast intro: answers_release)
  ultimately show ?thesis by blast
qed

lemma takes_effect_del:
  "command_of [name, key] = CMD_DEL \<Longrightarrow>
   takes_effect [name, key] d key v (RInt (if v = None then 0 else 1)) None"
  by (auto simp: takes_effect_def spec_serve_def spec_step_def)

lemma begin_del:
  assumes s: "serving w k c cmd [name, key]" and e: "command_of [name, key] = CMD_DEL"
    and l: "l = BucketLock (db c) (hash_fn key)"
  shows "begin_cmd cmd w k = (w, Take l True (Remove (db c) key (\<lambda>deleted.
    Release l (if deleted = None then answer (\<lambda>w. reply_integer w (Some r_init) k 0)
      else Free (answer (\<lambda>w. reply_integer w (Some r_init) k 1))))))"
  using servingD(9) [OF s, of 1] servingD(13) [OF s]
  by (auto simp: begin_serving [OF s] e l del_steps_def steps_serving [OF s] servingD(8) [OF s] Let_def)

lemma pending_del:
  assumes s: "serving w k c cmd [name, key]" and e: "command_of [name, key] = CMD_DEL"
  shows "\<exists>p. begin_cmd cmd w k = (w, p) \<and> pending k [name, key] (db c) key None p"
proof -
  let ?r = "\<lambda>n. answer (\<lambda>w. reply_integer w (Some r_init) k n)"
  let ?p = "Take (BucketLock (db c) (hash_fn key)) True (Remove (db c) key (\<lambda>deleted.
    Release (BucketLock (db c) (hash_fn key)) (if deleted = None then ?r 0 else Free (?r 1))))"
  have "begin_cmd cmd w k = (w, ?p)" by (rule begin_del [OF s e refl])
  moreover have "answers k (RInt (if v = None then 0 else 1)) (if v = None then ?r 0 else Free (?r 1))"
    for v :: "string option"
    by (auto intro!: answers_free answers_int simp: INT_MIN_def INT_MAX_def)
  ultimately show ?thesis
    using takes_effect_del [OF e] by (blast intro: pending_take pending_remove answers_release)
qed

lemma pending_set:
  assumes s: "serving w k c cmd (name # key # v # vs)" and e: "command_of (name # key # v # vs) = CMD_SET"
    and len: "words_size (name # key # v # vs) < 2 ^ 30"
  shows "\<exists>p. begin_cmd cmd w k = (w, p) \<and> pending k (name # key # v # vs) (db c) key None p"
proof -
  let ?x = "join_words (v # vs)"
  let ?p = "Take (BucketLock (db c) (hash_fn key)) True (Store (db c) key ?x (
    Release (BucketLock (db c) (hash_fn key)) (answer (\<lambda>w. reply_ok w (Some r_init) k))))"
  obtain sb where "set_value w cmd = Inr (Some sb, [])" "block_cstr (sb_buf sb) = Inr ?x"
    using set_value_words [OF s] len by auto
  then have "begin_cmd cmd w k = (w, ?p)"
    using servingD(9) [OF s, of 1] servingD(13) [OF s] servingD(2) [OF s]
    by (auto simp: begin_serving [OF s] e set_steps_def steps_serving [OF s] servingD(8) [OF s] Let_def)
  moreover have "takes_effect (name # key # v # vs) (db c) key u (RSimple ''OK'') (Some ?x)" for u
    using e by (auto simp: takes_effect_def spec_serve_def spec_step_def)
  moreover have "kv_ok key ?x"
    using servingD(10) [OF s] cstring_join [of "v # vs"] by (simp add: kv_ok_def)
  ultimately show ?thesis
    using answers_ok short_set [OF len] by (blast intro: pending_take pending_store answers_release)
qed

lemma pending_incr:
  assumes s: "serving w k c cmd [name, key]" and e: "command_of [name, key] = CMD_INCR"
  shows "\<exists>p. begin_cmd cmd w k = (w, p) \<and> pending k [name, key] (db c) key None p"
proof -
  let ?l = "BucketLock (db c) (hash_fn key)" and ?n = "\<lambda>val. atoi val + 1"
  let ?hit = "\<lambda>val. Store (db c) key (show_int (?n val)) (Release ?l (answer (\<lambda>w. reply_integer w (Some r_init) k (int32 (?n val)))))"
  let ?p = "Take ?l True (Find (db c) key (\<lambda>valp. case valp of
      None \<Rightarrow> Release ?l (answer (\<lambda>w. reply_integer w (Some r_init) k 0)) | Some val \<Rightarrow> ?hit val))"
  have "length (show_int (?n v)) \<le> 11" for v
    using atoi_range [of v] by (intro show_int_length) (simp_all add: INT_MAX_def)
  then have t: "take 31 (show_int (?n v)) = show_int (?n v)" for v
    by (simp add: le_trans [of _ 11 31])
  have "begin_cmd cmd w k = (w, ?p)"
    using servingD(9) [OF s, of 1] servingD(13) [OF s]
    by (auto simp: begin_serving [OF s] e incr_steps_def steps_serving [OF s] servingD(8) [OF s] Let_def t)
  moreover have "takes_effect [name, key] (db c) key None (RInt 0) None"
    using e by (auto simp: takes_effect_def spec_serve_def spec_step_def put_key_same)
  moreover have "answers k (RInt 0) (Release ?l (answer (\<lambda>w. reply_integer w (Some r_init) k 0)))"
    by (intro answers_release answers_int) (simp_all add: INT_MIN_def INT_MAX_def)
  moreover have "pending k [name, key] (db c) key (Some (Some val)) (?hit val)" for val
  proof (rule pending_store)
    show "kv_ok key (show_int (?n val))"
      using servingD(10) [OF s] by (simp add: kv_ok_def)
    show "takes_effect [name, key] (db c) key v (RInt (int32 (?n val))) (Some (show_int (?n val)))"
      if "Some (Some val) = None \<or> Some (Some val) = Some v" for v
      using that e by (auto simp: takes_effect_def spec_serve_def spec_step_def Let_def)
  qed (intro answers_release answers_int int32_range short_show)+
  ultimately show ?thesis
    by (intro exI [of _ ?p] conjI pending_take pending_find) (auto split: option.split)
qed

lemma put_client_id: "client_of w k = Inr c \<Longrightarrow> put_client k c w = w"
  by (auto simp: client_of_def put_client_def split: option.splits if_splits)

definition begins_answering :: "World \<Rightarrow> nat \<Rightarrow> Client \<Rightarrow> Cmd \<Rightarrow> string list \<Rightarrow> bool" where
  "begins_answering w k c cmd ws \<longleftrightarrow> (\<exists>r n p. begin_cmd cmd w k = (put_client k (c\<lparr>db := n\<rparr>) w, p) \<and>
     n < NUM_DBS \<and> answers k r p \<and> (\<forall>a. a_sel a = db c \<longrightarrow> spec_serve ws a = (r, a\<lparr>a_sel := n\<rparr>)))"

lemma begins_answering_same:
  assumes s: "serving w k c cmd ws" and "begin_cmd cmd w k = (w, p)" and "answers k r p" and "\<And>a. spec_serve ws a = (r, a)"
  shows "begins_answering w k c cmd ws"
  using assms(2-4) servingD(11) [OF s] put_client_id [OF servingD(4) [OF s]]
  unfolding begins_answering_def by (intro exI [of _ r] exI [of _ "db c"] exI [of _ p]) (auto intro!: Abs.equality)

lemma answers_err_name: "answers k (args_error e) (answer (\<lambda>w. reply_err w (Some r0) k (wrong_args (cmd_name e))))"
  using answers_err [OF wrong_args_short [of "cmd_name e"]] length_cmd_name [of e]
  by (simp add: args_error_def)

lemma begin_wrong_args:
  assumes s: "serving w k c cmd ws" and "\<not> args_ok (command_of ws) (length ws)" and "command_of ws \<noteq> CMD_INFO"
  shows "begins_answering w k c cmd ws"
proof (rule begins_answering_same [OF s])
  show "begin_cmd cmd w k = (w, answer (\<lambda>w. reply_err w (Some r_init) k (wrong_args (cmd_name (command_of ws)))))"
    using assms(2,3)
    by (cases "command_of ws")
      (simp_all add: begin_serving [OF s] servingD(8) [OF s] steps_serving [OF s] wrong_args_steps_def
        get_steps_def set_steps_def del_steps_def incr_steps_def select_steps_def quit_steps_def)
  show "answers k (args_error (command_of ws))
      (answer (\<lambda>w. reply_err w (Some r_init) k (wrong_args (cmd_name (command_of ws)))))"
    by (rule answers_err_name)
  show "spec_serve ws a = (args_error (command_of ws), a)" for a
    using assms(2) by (auto simp: spec_serve_def spec_step_def Let_def)
qed

lemma begin_unknown:
  assumes s: "serving w k c cmd ws" and e: "command_of ws = CMD_UNKNOWN"
  shows "begins_answering w k c cmd ws"
proof (rule begins_answering_same [OF s])
  let ?g = "\<lambda>w. reply_err w (Some r_init) k CMD_ERR_MSG_UNKNOWN"
  show "begin_cmd cmd w k = (w, Own ?g Return)"
    by (simp add: begin_serving [OF s] e)
  have "int (length (err_msg CMD_ERR_MSG_UNKNOWN)) < INT_MAX"
    by (simp add: err_msg_def CMD_ERR_MSG_UNKNOWN_def CRLF_def INT_MAX_def)
  then have "replies k (RError (''ERR '' @ CMD_ERR_MSG_UNKNOWN)) ?g Return"
    using reply_fns_ok(4) unfolding replies_def by (fastforce simp: err_msg_def)
  then show "answers k (RError (''ERR '' @ CMD_ERR_MSG_UNKNOWN)) (Own ?g Return)"
    by (rule answers_reply)
  show "spec_serve ws a = (RError (''ERR '' @ CMD_ERR_MSG_UNKNOWN), a)" for a
    using e by (simp add: spec_serve_def spec_step_def)
qed

lemma begin_select:
  assumes s: "serving w k c cmd [name, arg]" and e: "command_of [name, arg] = CMD_SELECT"
  shows "begins_answering w k c cmd [name, arg]"
proof (cases "0 \<le> atoi arg \<and> atoi arg < int NUM_DBS")
  case True
  then have "begin_cmd cmd w k = (put_client k (c\<lparr>db := nat (atoi arg)\<rparr>) w, answer (\<lambda>w. reply_ok w (Some r_init) k))"
    using servingD(9) [OF s, of 1]
    by (auto simp: begin_serving [OF s] servingD(8) [OF s] steps_serving [OF s] e select_steps_def MAX_DB_def NUM_DBS_def)
  moreover have "spec_serve [name, arg] a = (RSimple ''OK'', a\<lparr>a_sel := nat (atoi arg)\<rparr>)" for a
    using True e by (simp add: spec_serve_def spec_step_def)
  ultimately show ?thesis
    using True answers_ok unfolding begins_answering_def by (metis nat_less_iff)
next
  case False
  show ?thesis
  proof (rule begins_answering_same [OF s])
    let ?g = "\<lambda>w. reply_err w (Some r_init) k (wrong_args ''SELECT'')"
    let ?f = "\<lambda>rc rp. case rp of None \<Rightarrow> Broken NullDeref | Some r \<Rightarrow> Return 0 (Some (r\<lparr>r_error := 1\<rparr>))"
    show "begin_cmd cmd w k = (w, Own ?g ?f)"
      using servingD(9) [OF s, of 1] False
      by (auto simp: begin_serving [OF s] servingD(8) [OF s] steps_serving [OF s] e select_steps_def MAX_DB_def NUM_DBS_def Let_def)
    have "int (length (err_msg (wrong_args ''SELECT''))) < INT_MAX"
      by (rule wrong_args_short) simp
    then have "replies k (args_error CMD_SELECT) ?g ?f"
      using reply_fns_ok(4) unfolding replies_def args_error_def by (fastforce simp: err_msg_def)
    then show "answers k (args_error CMD_SELECT) (Own ?g ?f)"
      by (rule answers_reply)
    show "spec_serve [name, arg] a = (args_error CMD_SELECT, a)" for a
      using e False by (auto simp: spec_serve_def spec_step_def)
  qed
qed

lemma answers_take_all: "answers k r p \<Longrightarrow> answers k r (take_all ls m p)"
  by (induction ls) (auto intro: answers_take)

lemma answers_release_all: "answers k r p \<Longrightarrow> answers k r (release_all ls p)"
  by (induction ls) (auto intro: answers_release)

lemma answers_scan_all: "\<forall>d \<in> set ds. d < NUM_DBS \<Longrightarrow> (\<And>ts. answers k r (f ts)) \<Longrightarrow> answers k r (scan_all ds ts f)"
  by (induction ds arbitrary: ts) (auto intro: answers_scan)

lemma only_files_open: "only_files (rdb_open path)"
proof -
  have "\<exists>fs. w = w\<lparr>files := fs\<rparr>" for w :: World
    by (rule exI [of _ "files w"]) simp
  then show ?thesis unfolding only_files_def rdb_open_def by auto
qed

lemma answers_save:
  assumes "answers k r p"
  shows "answers k r (rdb_save_steps pathp p)"
  unfolding rdb_save_steps_def Let_def using assms
  by (intro answers_files only_files_open) (auto intro!: answers_take_all answers_scan_all answers_release_all intro: answers_dump)

lemma begin_save:
  assumes s: "serving w k c cmd ws" and e: "command_of ws = CMD_SAVE" and "1 < length ws"
  shows "begins_answering w k c cmd ws"
proof (rule begins_answering_same [OF s])
  have "path_arg w cmd = Inr (Some (ws ! 1))"
    using servingD(9) [OF s assms(3)] by (rule path_arg_word)
  then show "begin_cmd cmd w k = (w, rdb_save_steps (Some (ws ! 1)) (answer (\<lambda>w. reply_ok w (Some r_init) k)))"
    by (simp add: begin_serving [OF s] e save_steps_def)
  show "answers k (RSimple ''OK'') (rdb_save_steps (Some (ws ! 1)) (answer (\<lambda>w. reply_ok w (Some r_init) k)))"
    by (intro answers_save answers_ok)
  show "spec_serve ws a = (RSimple ''OK'', a)" for a
    using e by (simp add: spec_serve_def)
qed

lemma begin_plain:
  assumes s: "serving w k c cmd ws" and p: "plain ws"
  shows "begins_answering w k c cmd ws \<or> (\<exists>key p. begin_cmd cmd w k = (w, p) \<and> pending k ws (db c) key None p)"
proof (cases "args_ok (command_of ws) (length ws)")
  case True
  then show ?thesis
  proof (cases rule: command_of_cases)
    case (1 name key)
    then show ?thesis
      using s pending_get [of w k c cmd name key] pending_del [of w k c cmd name key]
        pending_incr [of w k c cmd name key] begin_select [of w k c cmd name key] by blast
  next
    case (2 name key v vs)
    with s p show ?thesis using pending_set [of w k c cmd name key v vs] by (auto simp: plain_def)
  next
    case (3 name)
    with p show ?thesis by (auto simp: plain_def)
  next
    case 4
    with p show ?thesis using begin_unknown [OF s] begin_save [OF s] by (auto simp: plain_def)
  qed
next
  case False
  with p show ?thesis using begin_wrong_args [OF s] by (simp add: plain_def)
qed


end
