(* ===== verification/Linear.thy ===== *)
theory Linear
  imports Serial
begin

text \<open>
  The simulation: in every reachable state of the connections there is an order of the commands
  that have taken effect so far, in which each connection has its own commands in the order it sent
  them, such that running them one after the other gives the databases, the selected databases and
  the replies.  The properties are the serialisability of complete runs, that no increment is lost,
  and what is left of it when a \<open>GET\<close> uses its pointer too late.
\<close>

section \<open>The simulation relation\<close>

text \<open>
  Where a connection stands: between commands, before the effect of one, or after it with its reply
  not sent yet (then its program may be broken, when there are \<open>GET\<close>s).
\<close>

datatype job_phase = Idle | Waits "string list" | Owes resp

fun phase_ok :: "bool \<Rightarrow> nat \<Rightarrow> nat \<Rightarrow> (nat \<Rightarrow> string \<Rightarrow> string option) \<Rightarrow> job_phase \<Rightarrow> prog option \<Rightarrow> bool" where
  "phase_ok b k d dbs Idle now = (now = None \<or> (\<exists>rc rp. now = Some (Return rc rp)))"
| "phase_ok b k d dbs (Waits ws) now =
     (\<exists>p key K. now = Some p \<and> pending k ws d key K p \<and> (\<forall>v. K = Some v \<longrightarrow> dbs d key = v))"
| "phase_ok b k d dbs (Owes r) now = (\<exists>p. now = Some p \<and> (answers k r p \<or> b \<and> (\<exists>u. p = Broken u)))"

fun waits_for :: "job_phase \<Rightarrow> string list list" where
  "waits_for (Waits ws) = [ws]"
| "waits_for g = []"

fun owed :: "job_phase \<Rightarrow> string list" where
  "owed (Owes r) = [resp_encode r]"
| "owed g = []"

text \<open>
  What a job is: the commands of each connection, its socket, what the socket has been sent before,
  the abstract server at the start, and whether some command is a \<open>GET\<close>.
\<close>

record Job =
  j_words :: "string list list list"
  j_fds :: "int list"
  j_out :: "nat \<Rightarrow> string list"
  j_start :: Ser
  j_gets :: bool

definition conn_sim ::
    "Job \<Rightarrow> nat \<Rightarrow> World \<Rightarrow> Ser \<Rightarrow> (nat \<times> string list) list \<Rightarrow> (nat \<times> resp) list \<Rightarrow> Conn \<Rightarrow> job_phase \<Rightarrow> bool" where
  "conn_sim J i w s order rs c g \<longleftrightarrow>
     (\<exists>cl. client_of w (c_slot c) = Inr cl \<and> sock cl = j_fds J ! i \<and> db cl = s_sel s i) \<and>
     (\<exists>rest. list_all2 (cmd_holds w) (c_todo c) rest \<and> j_words J ! i = only i order @ waits_for g @ rest) \<and>
     sent (j_fds J ! i) w @ owed g = j_out J i @ map resp_encode (only i rs) \<and>
     phase_ok (j_gets J) (c_slot c) (s_sel s i) (s_dbs s) g (c_now c)"

definition world_sim :: "World \<Rightarrow> Ser \<Rightarrow> bool" where
  "world_sim w s \<longleftrightarrow> world_wf w \<and> calm w \<and> small_values w \<and> s_dbs s = db_map w"

definition job_ok :: "Job \<Rightarrow> Conn list \<Rightarrow> bool" where
  "job_ok J cs \<longleftrightarrow> length (j_words J) = length cs \<and> length (j_fds J) = length cs \<and>
     distinct (map c_slot cs) \<and> distinct (j_fds J) \<and> -1 \<notin> set (j_fds J) \<and>
     (\<forall>wss \<in> set (j_words J). \<forall>ws \<in> set wss. plain ws)"

definition sim :: "Job \<Rightarrow> World \<Rightarrow> Conn list \<Rightarrow> (nat \<times> string list) list \<Rightarrow> bool" where
  "sim J w cs order \<longleftrightarrow> job_ok J cs \<and> well_locked cs \<and> fst ` set order \<subseteq> {..<length cs} \<and>
     (\<exists>rs s gs. serial order (j_start J) = (rs, s) \<and> world_sim w s \<and>
        (\<forall>i < length cs. conn_sim J i w s order rs (cs ! i) (gs i)))"

section \<open>What a step of one connection leaves to the others\<close>

lemma cmd_holds_bufs: "w_bufs w' = w_bufs w \<Longrightarrow> cmd_holds w' = cmd_holds w"
  by (intro ext) (simp add: cmd_holds_def tok_str_def)

lemma conn_sim_frame:
  assumes "conn_sim J i w s order rs c g"
    and "client_of w' (c_slot c) = client_of w (c_slot c)" and "w_bufs w' = w_bufs w"
    and "sent (j_fds J ! i) w' = sent (j_fds J ! i) w"
    and "only i order' = only i order" and "only i rs' = only i rs" and "s_sel s' i = s_sel s i"
    and "\<And>ws key v p. c_now c = Some p \<Longrightarrow> pending (c_slot c) ws (s_sel s i) key (Some v) p \<Longrightarrow>
      s_dbs s' (s_sel s i) key = s_dbs s (s_sel s i) key"
  shows "conn_sim J i w' s' order' rs' (dangle q c) g"
proof -
  have "phase_ok (j_gets J) (c_slot c) (s_sel s i) (s_dbs s') g (c_now c)"
    using assms(1,8) by (cases g) (fastforce simp: conn_sim_def)+
  with assms(1-7) show ?thesis
    by (simp add: conn_sim_def cmd_holds_bufs [OF assms(3)])
qed

text \<open>The key of a program that knows its value is locked for writing.\<close>

lemma known_locked:
  assumes "conn_locked c" and "c_now c = Some p" and "pending k ws d key (Some v) p"
  shows "(BucketLock d (hash_fn key), True) \<in> set (c_held c)"
  using assms by (cases p) (auto simp: conn_locked_def elim: pendingE)

text \<open>How the databases may change when connection \<open>i\<close> moves: at a key that it has locked.\<close>

definition dbs_step :: "Conn \<Rightarrow> Ser \<Rightarrow> Ser \<Rightarrow> bool" where
  "dbs_step c s s' \<longleftrightarrow> s_dbs s' = s_dbs s \<or>
     (\<exists>d key x. (BucketLock d (hash_fn key), True) \<in> set (c_held c) \<and>
        s_dbs s' = (s_dbs s)(d := (s_dbs s d)(key := x)))"

lemma dbs_step_other:
  assumes "well_locked cs" and "i < length cs" and "j < length cs" and "i \<noteq> j" and "dbs_step (cs ! i) s s'"
    and "c_now (cs ! j) = Some p" and "pending k ws d key (Some v) p"
  shows "s_dbs s' d key = s_dbs s d key"
proof (rule ccontr)
  assume ne: "s_dbs s' d key \<noteq> s_dbs s d key"
  then have "(BucketLock d (hash_fn key), True) \<in> set (c_held (cs ! i))"
    using assms(5) by (auto simp: dbs_step_def fun_upd_def split: if_splits)
  moreover have "(BucketLock d (hash_fn key), True) \<in> set (c_held (cs ! j))"
    using known_locked [OF well_lockedD [OF assms(1,3)] assms(6,7)] .
  ultimately show False
    using assms(1-4) by (force simp: well_locked_def exclusive_def held_by_def)
qed

lemma sim_step:
  assumes "job_ok J cs" and "well_locked cs" and "well_locked cs'"
    and cs': "cs' = (map (dangle q) cs)[i := c']" and "i < length cs" and "c_slot c' = c_slot (cs ! i)"
    and old: "\<And>j. j < length cs \<Longrightarrow> conn_sim J j w s order rs (cs ! j) (gs j)"
    and "serial order' (j_start J) = (rs', s')" and "world_sim w' s'"
    and new: "conn_sim J i w' s' order' rs' c' g'"
    and "w_bufs w' = w_bufs w" and "\<And>k. k \<noteq> c_slot (cs ! i) \<Longrightarrow> client_of w' k = client_of w k"
    and "\<And>fd. fd \<noteq> j_fds J ! i \<Longrightarrow> sent fd w' = sent fd w"
    and "\<And>j. j \<noteq> i \<Longrightarrow> only j order' = only j order \<and> only j rs' = only j rs \<and> s_sel s' j = s_sel s j"
    and "dbs_step (cs ! i) s s'" and "fst ` set order' \<subseteq> {..<length cs}"
  shows "sim J w' cs' order'"
proof -
  have "conn_sim J j w' s' order' rs' (cs' ! j) ((gs(i := g')) j)" if j: "j < length cs'" for j
  proof (cases "j = i")
    case True
    with new cs' assms(5) show ?thesis by simp
  next
    case False
    have l: "j < length cs" using j cs' by simp
    have "c_slot (cs ! j) \<noteq> c_slot (cs ! i)" "j_fds J ! j \<noteq> j_fds J ! i"
      using False l assms(1,5) by (auto simp: job_ok_def distinct_conv_nth)
    with False l assms show ?thesis
      by (simp, intro conn_sim_frame [OF old [OF l]] dbs_step_other [OF assms(2,5) l not_sym [OF False] assms(15)]) simp_all
  qed
  moreover have "job_ok J cs'"
  proof -
    have "map c_slot cs' = map c_slot cs"
      using assms(5,6) cs' by (simp add: map_update list_update_same_conv comp_def)
    with assms(1) show ?thesis by (auto simp: job_ok_def dest: map_eq_imp_length_eq)
  qed
  moreover have "fst ` set order' \<subseteq> {..<length cs'}" using assms(16) cs' by simp
  ultimately show ?thesis
    using assms(3,8,9) unfolding sim_def by blast
qed

section \<open>The steps on the world\<close>

lemma world_simD:
  assumes "world_sim w s"
  shows "world_wf w" "calm w" "small_values w" "s_dbs s = db_map w"
  using assms by (simp_all add: world_sim_def)

lemma world_sim_emit: "world_sim w s \<Longrightarrow> world_sim (emit es w) s"
  by (simp add: world_sim_def small_values_def)

lemma find_key_sim:
  assumes "world_sim w s" and "d < NUM_DBS"
  shows "find_key w d key = Inr (s_dbs s d key, emit [ReadBucket d (hash_fn key)] w)"
  using table_of_wf [OF world_simD(1) [OF assms(1)] assms(2)] world_simD(4) [OF assms(1)]
  by (auto simp: find_key_def hash_get_lookup)

definition put_db :: "nat \<Rightarrow> string \<Rightarrow> string option \<Rightarrow> Ser \<Rightarrow> Ser" where
  "put_db d key x s = s\<lparr>s_dbs := (s_dbs s)(d := (s_dbs s d)(key := x))\<rparr>"

lemma put_table_sim:
  assumes "world_sim w s" and "d < NUM_DBS" and "ht_wf t" and "ht_lookup t = (db_map w d)(key := x)" and "short_value x"
  shows "world_sim (put_table d t w) (put_db d key x s)"
  using assms db_map_put_table [OF world_simD(1) [OF assms(1)] assms(2), of t]
  by (auto simp: world_sim_def put_db_def small_values_def intro!: wf_intros)

lemma store_key_sim:
  assumes "world_sim w s" and "d < NUM_DBS" and "kv_ok key x" and "short_value (Some x)"
  obtains t where "store_key w d key x = Inr (emit [WriteBucket d (hash_fn key)] (put_table d t w))"
    "world_sim (put_table d t w) (put_db d key (Some x) s)"
proof -
  obtain t where t: "table_of w d = Inr t" "ht_wf t" "ht_lookup t = db_map w d"
    using table_of_wf [OF world_simD(1) [OF assms(1)] assms(2)] by blast
  have "world_sim (put_table d (ht_put t key x) w) (put_db d key (Some x) s)"
    using t assms(3,4) by (intro put_table_sim [OF assms(1,2)]) (auto simp: ht_lookup_put intro: wf_intros)
  with that [of "ht_put t key x"] t world_simD(2) [OF assms(1)] show ?thesis
    by (simp add: store_key_def hash_set_put)
qed

lemma remove_key_sim:
  assumes "world_sim w s" and "d < NUM_DBS"
  obtains t where "remove_key w d key = Inr (s_dbs s d key, emit [WriteBucket d (hash_fn key)] (put_table d t w))"
    "world_sim (put_table d t w) (put_db d key None s)"
proof -
  obtain t where t: "table_of w d = Inr t" "ht_wf t" "ht_lookup t = db_map w d"
    using table_of_wf [OF world_simD(1) [OF assms(1)] assms(2)] by blast
  have "world_sim (put_table d (ht_remove t key) w) (put_db d key None s)"
    using t by (intro put_table_sim [OF assms(1,2)]) (auto simp: ht_lookup_remove short_value_def intro: wf_intros)
  with that [of "ht_remove t key"] t world_simD(4) [OF assms(1)] show ?thesis
    by (simp add: remove_key_def hash_del_remove)
qed

lemma sends_table_reads [simp]: "sends (table_reads d t) = []"
proof -
  have "sends (map (ReadBucket d) is) = []" for "is" by (induction "is") auto
  then show ?thesis by (simp add: table_reads_def)
qed

text \<open>What a step that neither touches the databases nor answers does to the world.\<close>

definition quiet :: "World \<Rightarrow> World \<Rightarrow> bool" where
  "quiet w w' \<longleftrightarrow> (\<exists>es fs. w' = emit es (w\<lparr>files := fs\<rparr>) \<and> sends es = [])"

lemma quiet_emit: "sends es = [] \<Longrightarrow> quiet w (emit es w)"
  unfolding quiet_def by (intro exI [of _ es] exI [of _ "files w"]) simp

lemma quiet_same:
  assumes "quiet w w'"
  shows "world_sim w s \<Longrightarrow> world_sim w' s" "client_of w' = client_of w" "w_bufs w' = w_bufs w" "sent fd w' = sent fd w"
  using assms by (auto simp: quiet_def world_sim_def small_values_def sent_def)

text \<open>A program that owes its answer crosses a node quietly, or sends the answer and returns.\<close>

lemma answers_step:
  assumes "answers k r p" and "calm w" and "client_of w k = Inr cl" and "advance w p h q = Inr (w', p', h', q')"
  shows "(quiet w w' \<and> answers k r p') \<or>
    (w' = emit [Send (sock cl) (resp_encode r)] w \<and> (\<exists>rc rp. p' = Return rc rp))"
  using assms(1)
proof cases
  case (answers_reply g f)
  with assms(2,3) obtain rc rp rc' rp' where "g w = Inr (rc, rp, emit [Send (sock cl) (resp_encode r)] w)"
      "f rc rp = Return rc' rp'"
    unfolding replies_def by blast
  with answers_reply(1) assms(4) have "w' = emit [Send (sock cl) (resp_encode r)] w \<and> p' = Return rc' rp'" by simp
  then show ?thesis by blast
next
  case (answers_files g f)
  then obtain rc rp fs where "g w = Inr (rc, rp, w\<lparr>files := fs\<rparr>)" unfolding only_files_def by blast
  with answers_files assms(4) show ?thesis by (auto simp: quiet_def intro!: exI [of _ "[]"])
next
  case (answers_take p l m)
  with assms(4) show ?thesis by (cases m) (auto simp: Let_def intro!: quiet_emit)
next
  case (answers_release p l)
  with assms(4) show ?thesis by (auto intro!: quiet_emit)
next
  case (answers_deref p d key)
  with assms(4) show ?thesis by (auto intro!: quiet_emit split: if_splits)
next
  case (answers_free p)
  with assms(4) show ?thesis by (auto intro!: quiet_emit [of "[]", simplified])
next
  case (answers_scan d f)
  with assms(4) show ?thesis by (auto simp: scan_table_def res_bind_eq_Inr intro!: quiet_emit)
next
  case (answers_dump p path ts)
  with assms(4) show ?thesis by (auto simp: write_dump_def quiet_def intro!: exI [of _ "[]"])
qed


text \<open>A program that has not taken effect crosses a node quietly, or takes effect there.\<close>

definition same_conn :: "World \<Rightarrow> World \<Rightarrow> bool" where
  "same_conn w w' \<longleftrightarrow> client_of w' = client_of w \<and> conns w' = conns w \<and> w_bufs w' = w_bufs w \<and> (\<forall>fd. sent fd w' = sent fd w)"

lemma same_conn_table [simp]: "sends es = [] \<Longrightarrow> same_conn w (emit es (put_table d t w))"
  by (simp add: same_conn_def sent_trace [of "put_table d t w" w])

lemma quiet_same_conn: "quiet w w' \<Longrightarrow> same_conn w w'"
  using quiet_same [of w w'] by (auto simp: same_conn_def quiet_def)

definition effect_at ::
    "World \<Rightarrow> Ser \<Rightarrow> nat \<Rightarrow> string list \<Rightarrow> nat \<Rightarrow> string \<Rightarrow> held \<Rightarrow> World \<Rightarrow> prog \<Rightarrow> bool" where
  "effect_at w s k ws d key h w' p' \<longleftrightarrow> (\<exists>r x. takes_effect ws d key (s_dbs s d key) r x \<and> answers k r p' \<and>
     world_sim w' (put_db d key x s) \<and> same_conn w w' \<and>
     (put_db d key x s = s \<or> (BucketLock d (hash_fn key), True) \<in> set h))"

lemma put_db_same: "s_dbs s d key = x \<Longrightarrow> put_db d key x s = s"
  by (auto simp: put_db_def)

lemma pending_step:
  assumes "pending k ws d key K p" and w: "world_sim w s" "d < NUM_DBS" and K: "\<forall>v. K = Some v \<longrightarrow> s_dbs s d key = v"
    and adv: "advance w p h q = Inr (w', p', h', q')" and "lock_ok p h"
  shows "(quiet w w' \<and> (\<exists>K'. pending k ws d key K' p' \<and> (\<forall>v. K' = Some v \<longrightarrow> s_dbs s d key = v))) \<or>
    effect_at w s k ws d key h w' p'"
  using assms(1)
proof cases
  case (pending_take p l m)
  with adv show ?thesis by (cases m) (auto simp: Let_def intro!: quiet_emit)
next
  case (pending_find f)
  let ?v = "s_dbs s d key"
  have "short_value ?v" using world_simD(3,4) [OF w(1)] by (simp add: small_values_def)
  moreover have "w' = emit [ReadBucket d (hash_fn key)] w" "p' = f ?v"
    using adv pending_find(2) find_key_sim [OF w] by auto
  ultimately have a: "(\<exists>r. takes_effect ws d key ?v r ?v \<and> answers k r p') \<or> pending k ws d key (Some ?v) p'"
      and q: "quiet w w'"
    using pending_find(3) [of ?v] by (simp_all add: quiet_emit)
  from a show ?thesis
  proof
    assume "\<exists>r. takes_effect ws d key ?v r ?v \<and> answers k r p'"
    then show ?thesis
      using q quiet_same(1) [OF q w(1)] quiet_same_conn [OF q] put_db_same [of s d key ?v]
      unfolding effect_at_def by metis
  qed (use q in auto)
next
  case (pending_store x r p0)
  obtain t where t: "store_key w d key x = Inr (emit [WriteBucket d (hash_fn key)] (put_table d t w))"
      "world_sim (put_table d t w) (put_db d key (Some x) s)"
    using store_key_sim [OF w pending_store(2,3)] by blast
  have "takes_effect ws d key (s_dbs s d key) r (Some x)"
    using pending_store(4) K by (cases K) auto
  moreover have "w' = emit [WriteBucket d (hash_fn key)] (put_table d t w)" "p' = p0"
    using adv pending_store(1) t by auto
  ultimately have "effect_at w s k ws d key h w' p'"
    using pending_store(1,5) t(2) assms(6) unfolding effect_at_def
    by (intro exI [of _ r] exI [of _ "Some x"]) (simp add: world_sim_emit)
  then show ?thesis ..
next
  case (pending_remove f)
  let ?v = "s_dbs s d key"
  obtain t where t: "remove_key w d key = Inr (?v, emit [WriteBucket d (hash_fn key)] (put_table d t w))"
      "world_sim (put_table d t w) (put_db d key None s)"
    using remove_key_sim [OF w] by blast
  have "short_value ?v" using world_simD(3,4) [OF w(1)] by (simp add: small_values_def)
  moreover have "w' = emit [WriteBucket d (hash_fn key)] (put_table d t w)" "p' = f ?v"
    using adv pending_remove(2) t by auto
  ultimately obtain r where r: "takes_effect ws d key ?v r None" "answers k r p'"
      "w' = emit [WriteBucket d (hash_fn key)] (put_table d t w)"
    using pending_remove(3) by blast
  then have "effect_at w s k ws d key h w' p'"
    using pending_remove(2) t(2) assms(6) unfolding effect_at_def
    by (intro exI [of _ r] exI [of _ None]) (simp add: world_sim_emit)
  then show ?thesis ..
qed

lemma pending_no_break:
  assumes "pending k ws d key K p" and w: "world_sim w s" "d < NUM_DBS"
  shows "advance w p h q \<noteq> Inl u"
  using assms(1)
proof cases
  case (pending_take p l m)
  then show ?thesis by (simp add: Let_def)
next
  case (pending_find f)
  show ?thesis unfolding pending_find(2) using find_key_sim [OF w] by simp
next
  case (pending_store x r p0)
  obtain t where "store_key w d key x = Inr (emit [WriteBucket d (hash_fn key)] (put_table d t w))"
    using store_key_sim [OF w pending_store(2,3)] by blast
  then show ?thesis unfolding pending_store(1) by simp
next
  case (pending_remove f)
  obtain t where "remove_key w d key = Inr (s_dbs s d key, emit [WriteBucket d (hash_fn key)] (put_table d t w))"
    using remove_key_sim [OF w] by blast
  then show ?thesis unfolding pending_remove(2) by simp
qed

lemma serve_takes_effect:
  "takes_effect ws (s_sel s i) key (s_dbs s (s_sel s i) key) r x \<Longrightarrow> serve i ws s = (r, put_db (s_sel s i) key x s)"
  by (simp add: serve_def takes_effect_def put_key_def put_db_def)


lemma not_broken: "\<not> answers k r (Broken u)" "\<not> pending k ws d key K (Broken u)"
  by (auto elim: answersE pendingE)

lemma answers_no_break:
  assumes "answers k r p" and "no_deref p" and "world_sim w s" and "client_of w k = Inr cl"
  shows "advance w p h q \<noteq> Inl u \<and> (\<forall>u w' h' q'. advance w p h q \<noteq> Inr (w', Broken u, h', q'))"
  using assms(1)
proof cases
  case (answers_reply g f)
  then obtain rc rp rc' rp' where "g w = Inr (rc, rp, emit [Send (sock cl) (resp_encode r)] w)" "f rc rp = Return rc' rp'"
    using world_simD(2) [OF assms(3)] assms(4) unfolding replies_def by blast
  with answers_reply(1) show ?thesis by simp
next
  case (answers_files g f)
  then obtain rc rp fs where "g w = Inr (rc, rp, w\<lparr>files := fs\<rparr>)" unfolding only_files_def by blast
  moreover have "f rc rp \<noteq> Broken u" for u
    using answers_files(3) [of rc rp] not_broken(1) by metis
  ultimately show ?thesis using answers_files(1) by simp
next
  case (answers_scan d f)
  obtain t where "table_of w d = Inr t"
    using table_of_wf [OF world_simD(1) [OF assms(3)] answers_scan(2)] by blast
  moreover have "f t \<noteq> Broken u" for u
    using answers_scan(3) [of t] not_broken(1) by metis
  ultimately show ?thesis using answers_scan(1) by (simp add: scan_table_def)
qed (use assms(2) in \<open>auto simp: Let_def not_broken\<close>)

text \<open>Connections that have no \<open>GET\<close> to serve.\<close>

definition no_derefs :: "Conn list \<Rightarrow> bool" where
  "no_derefs cs \<longleftrightarrow> (\<forall>c \<in> set cs. (\<forall>cmd \<in> set (c_todo c). entry cmd \<noteq> CMD_GET) \<and>
     (\<forall>p. c_now c = Some p \<longrightarrow> no_deref p))"

lemma no_derefs_update:
  assumes "no_derefs cs" and "i < length cs" and "set (c_todo c') \<subseteq> set (c_todo (cs ! i))"
    and "\<And>p. c_now c' = Some p \<Longrightarrow> no_deref p"
  shows "no_derefs (cs[i := c'])"
  using assms nth_mem [OF assms(2)] unfolding no_derefs_def
  by (fastforce dest!: set_update_subset_insert [THEN subsetD])

lemma no_derefs_step: "conn_step r r' \<Longrightarrow> no_derefs (snd r) \<Longrightarrow> no_derefs (snd r')"
proof (induction rule: conn_step.induct)
  case (begins i cs c cmd cmds w w' p)
  then have "no_derefs cs" "entry cmd \<noteq> CMD_GET" using nth_mem [OF begins(1)] by (auto simp: no_derefs_def)
  with begins begin_no_deref [OF begins(5)] show ?case by (simp, intro no_derefs_update) auto
next
  case (goes i cs c p w w' p' h' q')
  then have "no_deref p" using nth_mem [OF goes(1)] by (auto simp: no_derefs_def)
  moreover have "no_derefs (map (dangle (loses i p)) cs)" using goes(7) by (simp add: no_derefs_def)
  ultimately show ?case
    using goes(1,2) advance_no_deref [OF goes(6)] by (simp, intro no_derefs_update) auto
qed (auto intro!: no_derefs_update)

section \<open>Every step is simulated\<close>

lemma serial_snoc: "serial order s0 = (rs, s) \<Longrightarrow> serve i ws s = (r, s') \<Longrightarrow>
    serial (order @ [(i, ws)]) s0 = (rs @ [(i, r)], s')"
  by simp

lemma only_other [simp]: "j \<noteq> i \<Longrightarrow> only j [(i, x)] = []"
  by simp

lemma conn_simD:
  assumes "conn_sim J i w s order rs c g"
  obtains cl rest where "client_of w (c_slot c) = Inr cl" "sock cl = j_fds J ! i" "db cl = s_sel s i"
    "list_all2 (cmd_holds w) (c_todo c) rest" "j_words J ! i = only i order @ waits_for g @ rest"
    "sent (j_fds J ! i) w @ owed g = j_out J i @ map resp_encode (only i rs)"
    "phase_ok (j_gets J) (c_slot c) (s_sel s i) (s_dbs s) g (c_now c)"
  using assms unfolding conn_sim_def by blast

text \<open>A step that changes nothing but the state of its connection.\<close>

lemma sim_quiet:
  assumes "job_ok J cs" and "well_locked cs" and "well_locked ((map (dangle q) cs)[i := c'])" and "i < length cs"
    and "c_slot c' = c_slot (cs ! i)" and "c_todo c' = c_todo (cs ! i)"
    and old: "\<And>j. j < length cs \<Longrightarrow> conn_sim J j w s order rs (cs ! j) (gs j)"
    and "serial order (j_start J) = (rs, s)" and "world_sim w s" and q: "quiet w w'"
    and g: "phase_ok (j_gets J) (c_slot c') (s_sel s i) (s_dbs s) g' (c_now c')" "waits_for g' = waits_for (gs i)" "owed g' = owed (gs i)"
    and "fst ` set order \<subseteq> {..<length cs}"
  shows "sim J w' ((map (dangle q) cs)[i := c']) order"
proof (rule sim_step [OF assms(1-3) refl assms(4,5) old assms(8)])
  show "world_sim w' s" using quiet_same(1) [OF q assms(9)] .
  show "conn_sim J i w' s order rs c' g'"
    using old [OF assms(4)] g assms(5,6) quiet_same [OF q] cmd_holds_bufs [of w' w]
    by (simp add: conn_sim_def)
qed (simp_all add: quiet_same [OF q] dbs_step_def assms(14))

text \<open>A step only adds to the order.\<close>

lemma sim_same: "sim J w cs order \<Longrightarrow> \<exists>more. sim J w cs (order @ more)"
  by (intro exI [of _ "[]"]) simp

lemma begins_sim:
  assumes "sim J w cs order" and i: "i < length cs" and now: "c_now (cs ! i) = None" "c_todo (cs ! i) = cmd # cmds"
    and b: "begin_cmd cmd w (c_slot (cs ! i)) = (w', p)"
    and wl: "well_locked (cs[i := (cs ! i)\<lparr>c_now := Some p, c_todo := cmds\<rparr>])"
  shows "\<exists>more. sim J w' (cs[i := (cs ! i)\<lparr>c_now := Some p, c_todo := cmds\<rparr>]) (order @ more)"
proof -
  let ?c = "cs ! i" and ?c' = "(cs ! i)\<lparr>c_now := Some p, c_todo := cmds\<rparr>"
  from assms(1) obtain rs s gs where st: "job_ok J cs" "well_locked cs" "serial order (j_start J) = (rs, s)" "world_sim w s"
      "\<And>j. j < length cs \<Longrightarrow> conn_sim J j w s order rs (cs ! j) (gs j)" "fst ` set order \<subseteq> {..<length cs}"
    unfolding sim_def by blast
  from st(5) [OF i] obtain cl rest where cl: "client_of w (c_slot ?c) = Inr cl" "sock cl = j_fds J ! i" "db cl = s_sel s i"
      "list_all2 (cmd_holds w) (c_todo ?c) rest" "j_words J ! i = only i order @ waits_for (gs i) @ rest"
      "sent (j_fds J ! i) w @ owed (gs i) = j_out J i @ map resp_encode (only i rs)"
      "phase_ok (j_gets J) (c_slot ?c) (s_sel s i) (s_dbs s) (gs i) (c_now ?c)"
    by (rule conn_simD)
  have g: "gs i = Idle" using cl(7) now(1) by (cases "gs i") auto
  obtain ws rest' where ws: "rest = ws # rest'" "cmd_holds w cmd ws" "list_all2 (cmd_holds w) cmds rest'"
    using cl(4) now(2) by (auto simp: list_all2_Cons1)
  have "ws \<in> set (j_words J ! i)" using cl(5) ws(1) by simp
  moreover have "j_words J ! i \<in> set (j_words J)" using i st(1) by (simp add: job_ok_def)
  ultimately have "plain ws" using st(1) by (auto simp: job_ok_def)
  have "sock cl \<noteq> -1" using cl(2) st(1) i by (auto simp: job_ok_def) (metis nth_mem)
  moreover have "c_slot ?c < MAX_CONN"
    using cl(1) world_simD(1) [OF st(4)] by (auto simp: client_of_def world_wf_def server_wf_def split: if_splits)
  ultimately have sv: "serving w (c_slot ?c) cl cmd ws"
    using ws(2) cl(1) world_simD [OF st(4)] by (simp add: serving_def)
  have frame: "cs[i := ?c'] = (map (dangle (\<lambda>q. q)) cs)[i := ?c']" by simp
  from begin_plain [OF sv \<open>plain ws\<close>] show ?thesis
  proof
    assume "\<exists>key p. begin_cmd cmd w (c_slot ?c) = (w, p) \<and> pending (c_slot ?c) ws (db cl) key None p"
    then obtain key where k: "w' = w" "pending (c_slot ?c) ws (db cl) key None p" using b by auto
    then have "conn_sim J i w s order rs ?c' (Waits ws)"
      using cl ws(1,3) g by (auto simp: conn_sim_def)
    from sim_step [OF st(1,2) wl frame i _ st(5,3,4) this, of] k(1) st(6) have "sim J w' (cs[i := ?c']) order"
      by (simp add: dbs_step_def)
    then show ?thesis by (rule sim_same)
  next
    assume "begins_answering w (c_slot ?c) cl cmd ws"
    then obtain r n where r: "w' = put_client (c_slot ?c) (cl\<lparr>db := n\<rparr>) w" "n < NUM_DBS" "answers (c_slot ?c) r p"
        "\<And>a. a_sel a = db cl \<Longrightarrow> spec_serve ws a = (r, a\<lparr>a_sel := n\<rparr>)"
      using b unfolding begins_answering_def by auto
    let ?s = "s\<lparr>s_sel := (s_sel s)(i := n)\<rparr>"
    have sv': "serve i ws s = (r, ?s)" using r(4) cl(3) by (simp add: serve_def)
    have w': "world_sim w' ?s"
      using r(1,2) st(4) by (auto simp: world_sim_def small_values_def client_wf_def intro!: wf_intros)
    have c': "client_of w' k = (if k = c_slot ?c then Inr (cl\<lparr>db := n\<rparr>) else client_of w k)" for k
      using r(1) client_of_put_client [OF world_simD(1) [OF st(4)] \<open>c_slot ?c < MAX_CONN\<close>] by simp
    have t: "sent fd w' = sent fd w" "w_bufs w' = w_bufs w" for fd
      using r(1) sent_trace [of w' w] by simp_all
    then have "conn_sim J i w' ?s (order @ [(i, ws)]) (rs @ [(i, r)]) ?c' (Owes r)"
      using cl ws g r(3) c' cmd_holds_bufs [of w' w] by (auto simp: conn_sim_def)
    from sim_step [OF st(1,2) wl frame i _ st(5) serial_snoc [OF st(3) sv'] w' this] t c' st(6) i
    have "sim J w' (cs[i := ?c']) (order @ [(i, ws)])" by (simp add: dbs_step_def)
    then show ?thesis ..
  qed
qed


lemma goes_sim:
  assumes "sim J w cs order" and i: "i < length cs" and now: "c_now (cs ! i) = Some p" "\<not> halted p"
    and adv: "advance w p (c_held (cs ! i)) (c_ptr (cs ! i)) = Inr (w', p', h', q')"
    and wl: "well_locked ((map (dangle q) cs)[i := (cs ! i)\<lparr>c_now := Some p', c_held := h', c_ptr := q'\<rparr>])"
  shows "\<exists>more. sim J w' ((map (dangle q) cs)[i := (cs ! i)\<lparr>c_now := Some p', c_held := h', c_ptr := q'\<rparr>]) (order @ more)"
proof -
  let ?c = "cs ! i" and ?c' = "(cs ! i)\<lparr>c_now := Some p', c_held := h', c_ptr := q'\<rparr>"
  let ?cs = "(map (dangle q) cs)[i := ?c']"
  from assms(1) obtain rs s gs where st: "job_ok J cs" "well_locked cs" "serial order (j_start J) = (rs, s)" "world_sim w s"
      "\<And>j. j < length cs \<Longrightarrow> conn_sim J j w s order rs (cs ! j) (gs j)" "fst ` set order \<subseteq> {..<length cs}"
    unfolding sim_def by blast
  from st(5) [OF i] obtain cl rest where cl: "client_of w (c_slot ?c) = Inr cl" "sock cl = j_fds J ! i" "db cl = s_sel s i"
      "list_all2 (cmd_holds w) (c_todo ?c) rest" "j_words J ! i = only i order @ waits_for (gs i) @ rest"
      "sent (j_fds J ! i) w @ owed (gs i) = j_out J i @ map resp_encode (only i rs)"
      "phase_ok (j_gets J) (c_slot ?c) (s_sel s i) (s_dbs s) (gs i) (c_now ?c)"
    by (rule conn_simD)
  have lock: "lock_ok p (c_held ?c)"
    using well_lockedD [OF st(2) i] now(1) by (simp add: conn_locked_def)
  have d: "s_sel s i < NUM_DBS"
    using client_of_in [OF cl(1) world_simD(1) [OF st(4)]] cl(3) by simp
  show ?thesis
  proof (cases "gs i")
    case Idle
    with cl(7) now show ?thesis by auto
  next
    case (Owes r)
    with cl(7) now have "answers (c_slot ?c) r p" by auto
    from answers_step [OF this world_simD(2) [OF st(4)] cl(1) adv] show ?thesis
    proof (elim disjE conjE exE)
      assume a: "quiet w w'" "answers (c_slot ?c) r p'"
      have "sim J w' ?cs order"
        by (rule sim_quiet [OF st(1,2) wl i _ _ st(5,3,4) a(1), of "Owes r"]) (use a(2) Owes st(6) in simp_all)
      then show ?thesis by (rule sim_same)
    next
      fix rc rp assume a: "w' = emit [Send (sock cl) (resp_encode r)] w" "p' = Return rc rp"
      then have "conn_sim J i w' s order rs ?c' Idle"
        using cl Owes cmd_holds_bufs [of w' w] by (auto simp: conn_sim_def)
      from sim_step [OF st(1,2) wl refl i _ st(5,3) world_sim_emit [OF st(4)] this [unfolded a(1)]] have "sim J w' ?cs order"
        using a(1) cl(2) st(6) by (simp add: dbs_step_def)
      then show ?thesis by (rule sim_same)
    qed
  next
    case (Waits ws)
    with cl(7) now(1) obtain key K where k: "pending (c_slot ?c) ws (s_sel s i) key K p"
        "\<forall>v. K = Some v \<longrightarrow> s_dbs s (s_sel s i) key = v" by auto
    from pending_step [OF k(1) st(4) d k(2) adv lock] show ?thesis
    proof (elim disjE conjE)
      assume a: "quiet w w'"
        "\<exists>K'. pending (c_slot ?c) ws (s_sel s i) key K' p' \<and> (\<forall>v. K' = Some v \<longrightarrow> s_dbs s (s_sel s i) key = v)"
      have "phase_ok (j_gets J) (c_slot ?c') (s_sel s i) (s_dbs s) (Waits ws) (c_now ?c')"
        using a(2) by auto
      from sim_quiet [OF st(1,2) wl i _ _ st(5,3,4) a(1) this] Waits st(6) have "sim J w' ?cs order" by simp
      then show ?thesis by (rule sim_same)
    next
      assume "effect_at w s (c_slot ?c) ws (s_sel s i) key (c_held ?c) w' p'"
      then obtain r x where e: "takes_effect ws (s_sel s i) key (s_dbs s (s_sel s i) key) r x" "answers (c_slot ?c) r p'"
          "world_sim w' (put_db (s_sel s i) key x s)" "same_conn w w'"
          "put_db (s_sel s i) key x s = s \<or> (BucketLock (s_sel s i) (hash_fn key), True) \<in> set (c_held ?c)"
        unfolding effect_at_def by blast
      let ?s = "put_db (s_sel s i) key x s"
      have sel: "s_sel ?s = s_sel s" by (simp add: put_db_def)
      have sc: "client_of w' = client_of w" "w_bufs w' = w_bufs w" "sent fd w' = sent fd w" for fd
        using e(4) by (simp_all add: same_conn_def)
      have "conn_sim J i w' ?s (order @ [(i, ws)]) (rs @ [(i, r)]) ?c' (Owes r)"
        using cl Waits e(2) sc cmd_holds_bufs [of w' w] by (auto simp: conn_sim_def sel)
      moreover have "dbs_step ?c s ?s"
        using e(5)
      proof
        assume "(BucketLock (s_sel s i) (hash_fn key), True) \<in> set (c_held ?c)"
        then show ?thesis unfolding dbs_step_def put_db_def by auto
      qed (simp add: dbs_step_def)
      ultimately have "sim J w' ?cs (order @ [(i, ws)])"
        using sim_step [OF st(1,2) wl refl i _ st(5) serial_snoc [OF st(3) serve_takes_effect [OF e(1)]] e(3)] sc sel st(6) i
        by simp
      then show ?thesis ..
    qed
  qed
qed

lemma conn_step_sim:
  assumes "conn_step (w, cs) (w', cs')" and "sim J w cs order" and "\<not> j_gets J \<longrightarrow> no_derefs cs"
  shows "\<exists>more. sim J w' cs' (order @ more)"
proof -
  have wl: "well_locked cs'"
    using conn_step_locked [OF assms(1)] assms(2) by (simp add: sim_def)
  from assms(2) obtain rs s gs where st: "job_ok J cs" "well_locked cs" "serial order (j_start J) = (rs, s)" "world_sim w s"
      "\<And>j. j < length cs \<Longrightarrow> conn_sim J j w s order rs (cs ! j) (gs j)" "fst ` set order \<subseteq> {..<length cs}"
    unfolding sim_def by blast
  from assms(1) show ?thesis
  proof (cases rule: conn_step.cases)
    case (begins i c cmd cmds p)
    with begins_sim [OF assms(2), of i cmd cmds w' p] wl show ?thesis by simp
  next
    case (ends i c rc rp)
    from st(5) [of i] ends have "phase_ok (j_gets J) (c_slot c) (s_sel s i) (s_dbs s) (gs i) (Some (Return rc rp))"
      by (auto simp: conn_sim_def)
    then have g: "gs i = Idle" by (cases "gs i") (auto elim: answersE pendingE)
    have "sim J w ((map (dangle (\<lambda>q. q)) cs)[i := c\<lparr>c_now := None\<rparr>]) order"
      by (rule sim_quiet [OF st(1,2) _ _ _ _ st(5,3,4) quiet_emit [of "[]" w, simplified], where g' = Idle])
        (use ends wl g st(6) in simp_all)
    then show ?thesis using ends by (auto intro: sim_same)
  next
    case (goes i c p p' h' q')
    with goes_sim [OF assms(2), where i = i and q = "loses i p"] wl show ?thesis by simp
  next
    case (breaks i c p u)
    from st(5) [of i] breaks obtain cl where ph: "phase_ok (j_gets J) (c_slot c) (s_sel s i) (s_dbs s) (gs i) (Some p)"
        "client_of w (c_slot c) = Inr cl" "db cl = s_sel s i"
      by (auto simp: conn_sim_def)
    have "s_sel s i < NUM_DBS"
      using client_of_in [OF ph(2) world_simD(1) [OF st(4)]] ph(3) by simp
    then obtain r where g: "gs i = Owes r" "answers (c_slot c) r p"
      using ph(1) breaks pending_no_break [OF _ st(4)] by (cases "gs i") auto
    have "j_gets J"
    proof (rule ccontr)
      assume "\<not> j_gets J"
      then have "no_deref p" using assms(3) breaks nth_mem [of i cs] by (auto simp: no_derefs_def)
      with answers_no_break [OF g(2) _ st(4) ph(2)] breaks show False by blast
    qed
    have "sim J w ((map (dangle (\<lambda>q. q)) cs)[i := c\<lparr>c_now := Some (Broken u)\<rparr>]) order"
      by (rule sim_quiet [OF st(1,2) _ _ _ _ st(5,3,4) quiet_emit [of "[]" w, simplified], where g' = "Owes r"])
        (use breaks wl g \<open>j_gets J\<close> st(6) in simp_all)
    then show ?thesis using breaks by (auto intro: sim_same)
  qed
qed


end
