(* ===== verification/Interleaved.thy ===== *)
theory Interleaved
  imports Linear
begin

text \<open>
  The runs of connections from their start to their end, and the properties: every run ends, with
  every command served unless a \<open>GET\<close> has used a dangling pointer; a run that serves every command is
  serialisable; concurrent increments are all counted; and a \<open>GET\<close> and a \<open>DEL\<close> of one key can make
  the server use freed memory.
\<close>

section \<open>From the start to the end of a run\<close>

text \<open>The connection of a slot, and the abstract server at the start.\<close>

definition client_at_slot :: "World \<Rightarrow> Conn \<Rightarrow> Client" where
  "client_at_slot w c = (case client_of w (c_slot c) of Inl u \<Rightarrow> zero_client | Inr cl \<Rightarrow> cl)"

definition ser_of :: "World \<Rightarrow> Conn list \<Rightarrow> Ser" where
  "ser_of w cs = \<lparr>s_dbs = db_map w, s_sel = (\<lambda>i. if i < length cs then db (client_at_slot w (cs ! i)) else 0)\<rparr>"

text \<open>
  Connections in different slots with different sockets, none of them in the middle of a command,
  that have parsed the commands \<open>wss\<close>, on a well-formed server where nothing is going to fail.
\<close>

definition connected :: "World \<Rightarrow> Conn list \<Rightarrow> string list list list \<Rightarrow> bool" where
  "connected w cs wss \<longleftrightarrow> world_wf w \<and> calm w \<and> small_values w \<and>
     distinct (map c_slot cs) \<and> distinct (map (\<lambda>c. sock (client_at_slot w c)) cs) \<and>
     list_all2 (\<lambda>c ws. list_all2 (cmd_holds w) (c_todo c) ws) cs wss \<and>
     (\<forall>c \<in> set cs. idle c \<and> c_slot c < MAX_CONN \<and> sock (client_at_slot w c) \<noteq> -1) \<and>
     (\<forall>ws \<in> set (concat wss). plain ws)"

definition job_of :: "World \<Rightarrow> Conn list \<Rightarrow> string list list list \<Rightarrow> Job" where
  "job_of w cs wss = \<lparr>j_words = wss, j_fds = map (\<lambda>c. sock (client_at_slot w c)) cs,
     j_out = (\<lambda>i. sent (sock (client_at_slot w (cs ! i))) w), j_start = ser_of w cs,
     j_gets = (\<exists>ws \<in> set (concat wss). command_of ws = CMD_GET)\<rparr>"

lemma connected_sim:
  assumes "connected w cs wss"
  shows "sim (job_of w cs wss) w cs []"
proof -
  have l: "length wss = length cs" "\<And>i. i < length cs \<Longrightarrow> list_all2 (cmd_holds w) (c_todo (cs ! i)) (wss ! i)"
    using assms by (auto simp: connected_def dest: list_all2_lengthD list_all2_nthD)
  have c: "\<exists>cl. client_of w (c_slot (cs ! i)) = Inr cl \<and> client_at_slot w (cs ! i) = cl" if "i < length cs" for i
  proof -
    have "c_slot (cs ! i) < MAX_CONN" "world_wf w" using assms that by (auto simp: connected_def)
    then show ?thesis using client_of_wf [of w] by (fastforce simp: client_at_slot_def)
  qed
  have "conn_sim (job_of w cs wss) i w (ser_of w cs) [] [] (cs ! i) Idle" if "i < length cs" for i
    using assms l(2) [OF that] c [OF that] that by (auto simp: conn_sim_def job_of_def ser_of_def connected_def idle_def)
  moreover have "job_ok (job_of w cs wss) cs"
    using assms l(1) by (auto simp: job_ok_def job_of_def connected_def)
  moreover have "world_sim w (ser_of w cs)"
    using assms by (simp add: world_sim_def connected_def ser_of_def)
  moreover have "well_locked cs" using assms by (intro idle_locked) (simp add: connected_def)
  ultimately show ?thesis
    unfolding sim_def by (auto simp: job_of_def intro!: exI [of _ "\<lambda>i. Idle"])
qed

lemma connected_no_derefs:
  assumes "connected w cs wss"
  shows "\<not> j_gets (job_of w cs wss) \<longrightarrow> no_derefs cs"
proof
  assume g: "\<not> j_gets (job_of w cs wss)"
  show "no_derefs cs"
    unfolding no_derefs_def
  proof
    fix c assume c: "c \<in> set cs"
    then obtain i where i: "i < length cs" "c = cs ! i" by (metis in_set_conv_nth)
    have "list_all2 (cmd_holds w) (c_todo c) (wss ! i)" "wss ! i \<in> set wss"
      using assms i by (auto simp: connected_def dest: list_all2_lengthD list_all2_nthD)
    moreover have "idle c" using assms c by (simp add: connected_def)
    ultimately show "(\<forall>cmd \<in> set (c_todo c). entry cmd \<noteq> CMD_GET) \<and> (\<forall>p. c_now c = Some p \<longrightarrow> no_deref p)"
      using g by (fastforce simp: job_of_def idle_def cmd_holds_def list_all2_conv_all_nth in_set_conv_nth)
  qed
qed

lemma conn_run_sim:
  assumes "conn_run r r'" and "sim J (fst r) (snd r) order" and "\<not> j_gets J \<longrightarrow> no_derefs (snd r)"
  shows "\<exists>order'. sim J (fst r') (snd r') order'"
  using assms
proof (induction arbitrary: order rule: converse_rtranclp_induct)
  case (step r u)
  then obtain more where "sim J (fst u) (snd u) (order @ more)"
    using conn_step_sim [of "fst r" "snd r" "fst u" "snd u" J order] by auto
  moreover have "\<not> j_gets J \<longrightarrow> no_derefs (snd u)" using step no_derefs_step by blast
  ultimately show ?case by (rule step.IH)
qed auto

lemma conn_run_slots: "conn_run r r' \<Longrightarrow> map c_slot (snd r') = map c_slot (snd r)"
proof (induction rule: rtranclp_induct)
  case (step r' r'')
  from step(2) have "map c_slot (snd r'') = map c_slot (snd r')"
    by (induction rule: conn_step.induct) (auto simp: map_update list_update_same_conv comp_def)
  with step show ?case by simp
qed simp

text \<open>What a complete run leaves.\<close>

definition serialised :: "World \<Rightarrow> Conn list \<Rightarrow> string list list list \<Rightarrow> World \<Rightarrow> Conn list \<Rightarrow> (nat \<times> string list) list \<Rightarrow> bool" where
  "serialised w cs wss w' cs' order \<longleftrightarrow> fst ` set order \<subseteq> {..<length cs} \<and>
     (\<exists>rs s. serial order (ser_of w cs) = (rs, s) \<and> db_map w' = s_dbs s \<and>
        (\<forall>i < length cs. only i order = wss ! i \<and> db (client_at_slot w' (cs' ! i)) = s_sel s i \<and>
           sent (sock (client_at_slot w (cs ! i))) w' =
             sent (sock (client_at_slot w (cs ! i))) w @ map resp_encode (only i rs)))"

lemma run_serialised:
  assumes "connected w cs wss" and run: "conn_run (w, cs) (w', cs')" and "all_served (w', cs')"
  shows "\<exists>order. serialised w cs wss w' cs' order"
proof -
  from conn_run_sim [OF run, of "job_of w cs wss" "[]"] connected_sim [OF assms(1)]
    connected_no_derefs [OF assms(1)]
  obtain order where "sim (job_of w cs wss) w' cs' order" by auto
  then obtain rs s gs where s: "fst ` set order \<subseteq> {..<length cs'}" "serial order (ser_of w cs) = (rs, s)" "world_sim w' s"
      "\<And>i. i < length cs' \<Longrightarrow> conn_sim (job_of w cs wss) i w' s order rs (cs' ! i) (gs i)"
    unfolding sim_def by (auto simp: job_of_def)
  have l: "length cs' = length cs"
    using conn_run_slots [OF run] by (metis length_map snd_conv)
  have "only i order = wss ! i \<and> db (client_at_slot w' (cs' ! i)) = s_sel s i \<and>
      sent (sock (client_at_slot w (cs ! i))) w' =
        sent (sock (client_at_slot w (cs ! i))) w @ map resp_encode (only i rs)" if i: "i < length cs" for i
  proof -
    have e: "c_todo (cs' ! i) = []" "c_now (cs' ! i) = None"
      using assms(3) i l by (auto simp: all_served_def)
    from s(4) [of i] i l have c: "conn_sim (job_of w cs wss) i w' s order rs (cs' ! i) (gs i)" by simp
    then have g: "gs i = Idle" using e(2) by (cases "gs i") (auto simp: conn_sim_def)
    from c show ?thesis
      using e(1) g i by (auto simp: conn_sim_def job_of_def client_at_slot_def)
  qed
  with s(1,2) l world_simD(4) [OF s(3)] show ?thesis
    unfolding serialised_def by metis
qed


text \<open>Every run can be completed, and ends served unless some \<open>GET\<close> has used a dangling pointer.\<close>

lemma conn_run_locked: "conn_run r r' \<Longrightarrow> well_locked (snd r) \<Longrightarrow> well_locked (snd r')"
  by (induction rule: rtranclp_induct) (auto dest: conn_step_locked)

lemma connected_locked: "connected w cs wss \<Longrightarrow> well_locked cs"
  by (intro idle_locked) (simp add: connected_def)

lemma run_ends_served:
  assumes "well_locked cs" and "conn_run (w, cs) r" and "\<And>r'. \<not> conn_step r r'"
  shows "all_served r \<or> crashed r"
  using conn_progress [of "snd r" "fst r"] conn_run_locked [OF assms(2)] assms(1,3) by auto

lemma no_get_no_crash:
  assumes "connected w cs wss" and "\<forall>ws \<in> set (concat wss). command_of ws \<noteq> CMD_GET" and "conn_run (w, cs) r"
  shows "\<not> crashed r"
proof
  assume "crashed r"
  then obtain i u where i: "i < length (snd r)" "c_now (snd r ! i) = Some (Broken u)"
    by (auto simp: crashed_def in_set_conv_nth)
  obtain order where "sim (job_of w cs wss) (fst r) (snd r) order"
    using conn_run_sim [OF assms(3), of "job_of w cs wss" "[]"] connected_sim [OF assms(1)]
      connected_no_derefs [OF assms(1)] by auto
  with i(1) obtain s rs g where c: "conn_sim (job_of w cs wss) i (fst r) s order rs (snd r ! i) g"
    unfolding sim_def by blast
  have "\<not> j_gets (job_of w cs wss)" using assms(2) by (auto simp: job_of_def)
  with c i(2) show False by (cases g) (auto simp: conn_sim_def not_broken)
qed

lemma conn_run_trans: "conn_run r r' \<Longrightarrow> conn_run r' r'' \<Longrightarrow> conn_run r r''"
  by (rule rtranclp_trans)

lemma run_continues:
  assumes "connected w cs wss" and "\<forall>ws \<in> set (concat wss). command_of ws \<noteq> CMD_GET" and "conn_run (w, cs) r"
  shows "\<exists>r'. conn_run r r' \<and> all_served r'"
proof -
  obtain r' where r': "conn_run r r'" "\<And>u. \<not> conn_step r' u" using conn_run_ends by blast
  from conn_run_trans [OF assms(3) r'(1)] have "all_served r' \<or> crashed r'" "\<not> crashed r'"
    using run_ends_served [OF connected_locked [OF assms(1)] _ r'(2)] no_get_no_crash [OF assms(1,2)] by blast+
  with r'(1) show ?thesis by blast
qed

lemma connected_served:
  "connected w cs wss \<Longrightarrow> \<forall>ws \<in> set (concat wss). command_of ws \<noteq> CMD_GET \<Longrightarrow>
   \<exists>r. conn_run (w, cs) r \<and> all_served r"
  using run_continues [OF _ _ rtranclp.rtrancl_refl] .

section \<open>Increments\<close>

lemma spec_incr:
  assumes "command_of [name, key] = CMD_INCR" and "a_dbs a (a_sel a) key = Some (show_int v)"
    and "INT_MIN \<le> v" and "v < INT_MAX"
  shows "spec_serve [name, key] a = (RInt (v + 1), put_key key (Some (show_int (v + 1))) a)"
  using assms by (simp add: spec_serve_def spec_step_def Let_def atoi_show_int int32_id)

text \<open>A list of increments of one key, by connections that have all selected the same database.\<close>

lemma serial_increments:
  assumes "\<forall>(i, ws) \<in> set order. ws = [''INCR'', key] \<and> s_sel s i = d"
    and "s_dbs s d key = Some (show_int v)" and "INT_MIN \<le> v" and "v + int (length order) \<le> INT_MAX"
  shows "s_dbs (snd (serial order s)) d key = Some (show_int (v + int (length order))) \<and>
    s_sel (snd (serial order s)) = s_sel s"
  using assms
proof (induction order rule: rev_induct)
  case (snoc x order)
  obtain i where x: "x = (i, [''INCR'', key])" "s_sel s i = d" using snoc.prems(1) by (cases x) auto
  obtain rs u where u: "serial order s = (rs, u)" by force
  with snoc have ih: "s_dbs u d key = Some (show_int (v + int (length order)))" "s_sel u = s_sel s" by auto
  have "command_of [''INCR'', key] = CMD_INCR" by (simp add: command_of_def)
  with ih x snoc.prems(3,4) spec_incr [of "''INCR''" key "\<lparr>a_dbs = s_dbs u, a_sel = s_sel u i, a_open = True\<rparr>" "v + int (length order)"]
  show ?case by (auto simp: u serve_def put_key_def ac_simps)
qed simp

lemma length_only: "fst ` set xs \<subseteq> {..<n} \<Longrightarrow> length xs = (\<Sum>i<n. length (only i xs))"
proof (induction xs)
  case (Cons x xs)
  obtain j y where x: "x = (j, y)" by force
  have "length (only i (x # xs)) = (if i = j then 1 else 0) + length (only i xs)" for i
    using x by (simp add: only_def)
  with Cons x show ?case by (simp add: sum.distrib)
qed (simp add: only_def)

lemma only_mem: "(i, ws) \<in> set order \<Longrightarrow> ws \<in> set (only i order)"
  by (force simp: only_def)

lemma serialised_increments:
  assumes "serialised w cs wss w' cs' order" and "length wss = length cs"
    and "\<forall>ws \<in> set (concat wss). ws = [''INCR'', key]" and "\<forall>c \<in> set cs. db (client_at_slot w c) = d"
    and "db_map w d key = Some (show_int v)" and "INT_MIN \<le> v" and "v + int (length (concat wss)) \<le> INT_MAX"
  shows "db_map w' d key = Some (show_int (v + int (length (concat wss))))"
proof -
  from assms(1) obtain rs s where s: "serial order (ser_of w cs) = (rs, s)" "db_map w' = s_dbs s"
      "fst ` set order \<subseteq> {..<length cs}" "\<And>i. i < length cs \<Longrightarrow> only i order = wss ! i"
    unfolding serialised_def by blast
  have "length order = (\<Sum>i<length cs. length (only i order))"
    by (rule length_only [OF s(3)])
  also have "\<dots> = (\<Sum>i<length wss. length (wss ! i))"
    using s(4) assms(2) by (intro sum.cong) auto
  also have "\<dots> = length (concat wss)"
    by (simp add: length_concat sum_list_sum_nth atLeast0LessThan)
  finally have n: "length order = length (concat wss)" .
  have "ws = [''INCR'', key] \<and> s_sel (ser_of w cs) i = d" if "(i, ws) \<in> set order" for i ws
  proof -
    have i: "i < length cs" using that s(3) by force
    then have "ws \<in> set (wss ! i)" "wss ! i \<in> set wss"
      using only_mem [OF that] s(4) assms(2) by auto
    then show ?thesis using assms(3,4) i by (auto simp: ser_of_def)
  qed
  then have "\<forall>(i, ws) \<in> set order. ws = [''INCR'', key] \<and> s_sel (ser_of w cs) i = d" by blast
  from serial_increments [OF this, of v] assms(5-7) n s(1,2) show ?thesis by (simp add: ser_of_def)
qed

section \<open>Samples\<close>

text \<open>Two connections, in slots 3 and 4, on the sample server.\<close>

definition two_clients :: "World \<Rightarrow> World" where
  "two_clients w = put_client 3 (zero_client\<lparr>sock := 5\<rparr>) (put_client 4 (zero_client\<lparr>sock := 6\<rparr>) w)"

lemma sample_connected:
  fixes a b ws :: "string list" and a' b' :: Cmd
  assumes w_def: "w = two_clients (sample_in ws)"
    and "cmd_holds (sample_in ws) a' a" and "cmd_holds (sample_in ws) b' b" and "plain a" and "plain b"
  shows "connected w [conn_for 3 [a'], conn_for 4 [b']] [[a], [b]]"
    and "db_map w = db_map sample_world" and "client_at_slot w (conn_for 3 x) = zero_client\<lparr>sock := 5\<rparr>"
    and "client_at_slot w (conn_for 4 x) = zero_client\<lparr>sock := 6\<rparr>" and "w_bufs w = w_bufs (sample_in ws)"
    and "world_wf w" and "calm w" and "trace w = []"
proof -
  have z: "client_wf (zero_client\<lparr>sock := n\<rparr>)" for n by (simp add: client_wf_def zero_client_def NUM_DBS_def)
  show wf: "world_wf w" unfolding w_def two_clients_def by (intro wf_intros z) simp
  show c: "calm w" "trace w = []" "w_bufs w = w_bufs (sample_in ws)" "db_map w = db_map sample_world"
    by (simp_all add: w_def two_clients_def)
  have cl: "client_of w 3 = Inr (zero_client\<lparr>sock := 5\<rparr>)" "client_of w 4 = Inr (zero_client\<lparr>sock := 6\<rparr>)"
    unfolding w_def two_clients_def
    by (simp_all add: client_of_put_client wf_intros z MAX_CONN_def)
  then show s: "client_at_slot w (conn_for 3 x) = zero_client\<lparr>sock := 5\<rparr>"
    "client_at_slot w (conn_for 4 x) = zero_client\<lparr>sock := 6\<rparr>" for x
    by (simp_all add: client_at_slot_def conn_for_def)
  have "small_values w" using sample_small [of ws] c(4) by (simp add: small_values_def)
  with wf c s assms(2-) cmd_holds_bufs [OF c(3)] show "connected w [conn_for 3 [a'], conn_for 4 [b']] [[a], [b]]"
    by (simp add: connected_def idle_def MAX_CONN_def) (simp add: conn_for_def)
qed

lemma sample_holds:
  "cmd_holds (sample_in [''INCR'', ''k'']) (sample_cmd [''INCR'', ''k''] [0, 5]) [''INCR'', ''k'']"
  "cmd_holds (sample_in [''GET'', ''k'', ''DEL'']) (sample_cmd [''GET'', ''k''] [0, 4]) [''GET'', ''k'']"
  "cmd_holds (sample_in [''GET'', ''k'', ''DEL'']) (sample_cmd [''DEL'', ''k''] [6, 4]) [''DEL'', ''k'']"
  by (simp_all add: cmd_holds_def sample_cmd_def tok_str_def tok_at_def sample_in_def block_cstr_at_def
      less_Suc_eq TOKENS_INIT_CAP_def NUL_def)

lemma plain_samples: "plain [''INCR'', ''k'']" "plain [''GET'', ''k'']" "plain [''DEL'', ''k'']"
  by (simp_all add: plain_def command_of_def words_size_def)


section \<open>A pointer that is used too late\<close>

lemma connected_serving:
  assumes "connected w cs wss" and "i < length cs" and "c_todo (cs ! i) = [cmd]" and "wss ! i = [ws]"
  shows "serving w (c_slot (cs ! i)) (client_at_slot w (cs ! i)) cmd ws"
proof -
  have "list_all2 (cmd_holds w) (c_todo (cs ! i)) (wss ! i)" "c_slot (cs ! i) < MAX_CONN" "sock (client_at_slot w (cs ! i)) \<noteq> -1"
    using assms(1,2) by (auto simp: connected_def dest: list_all2_lengthD list_all2_nthD)
  moreover have "client_of w (c_slot (cs ! i)) = Inr (client_at_slot w (cs ! i))"
    using calculation(2) assms(1) client_of_wf [of w "c_slot (cs ! i)"]
    by (auto simp: connected_def client_at_slot_def)
  ultimately show ?thesis
    using assms(1,3,4) by (simp add: serving_def connected_def)
qed

lemma serving_emit: "serving w k c cmd ws \<Longrightarrow> serving (emit es w) k c cmd ws"
  by (simp add: serving_def cmd_holds_def)

lemma get_then_del:
  assumes c: "connected w [a, b] [[[''GET'', key]], [[''DEL'', key]]]"
    and d: "db (client_at_slot w a) = d" "db (client_at_slot w b) = d" and v: "db_map w d key = Some v"
  shows "\<exists>w' a' b'. exec_run [0, 0, 0, 0, 1, 1, 1, 1, 1, 1, 1, 0] (w, [a, b]) = Some (w', [a', b']) \<and>
    c_now a' = Some (Broken Dangling) \<and> c_now b' = None \<and> c_todo b' = []"
proof -
  obtain ca cb where todo: "c_todo a = [ca]" "c_todo b = [cb]" "idle a" "idle b"
    using c by (auto simp: connected_def list_all2_Cons2)
  have sa: "serving w (c_slot a) (client_at_slot w a) ca [''GET'', key]"
    using connected_serving [OF c, of 0 ca] todo by simp
  have sb: "serving w (c_slot b) (client_at_slot w b) cb [''DEL'', key]"
    using connected_serving [OF c, of 1 cb] todo by simp
  have ws: "world_sim w (ser_of w [a, b])"
    using c by (simp add: connected_def world_sim_def ser_of_def)
  have lt: "d < NUM_DBS" using servingD(11) [OF sa] d(1) by simp
  let ?l = "BucketLock d (hash_fn key)"
  let ?g = "\<lambda>v. answer (\<lambda>w. reply_bulk_str w (Some r_init) (Some ca) (c_slot a) v)"
  let ?r = "\<lambda>n. answer (\<lambda>w. reply_integer w (Some r_init) (c_slot b) n)"
  let ?h = "\<lambda>v. if v = None then ?r 0 else Free (?r 1)"
  have eg: "command_of [''GET'', key] = CMD_GET" and ed: "command_of [''DEL'', key] = CMD_DEL"
    by (simp_all add: command_of_def)
  have ba: "begin_cmd ca w (c_slot a) = (w, Take ?l False (Find d key (\<lambda>v. Release ?l (if v = None then ?g v else Deref d key (?g v)))))"
    using begin_get [OF sa eg refl refl] unfolding d(1) .
  let ?w3 = "emit [RdLock ?l, ReadBucket d (hash_fn key), Unlock ?l] w"
  have bb: "begin_cmd cb ?w3 (c_slot b) = (?w3, Take ?l True (Remove d key (\<lambda>v. Release ?l (?h v))))"
    using begin_del [OF serving_emit [OF sb] ed refl] unfolding d(2) .
  have f: "find_key (emit es w) d key = Inr (Some v, emit [ReadBucket d (hash_fn key)] (emit es w))" for es
    using find_key_sim [OF world_sim_emit [OF ws] lt, of es key] v by (simp add: ser_of_def)
  obtain t where r: "remove_key (emit [WrLock ?l] ?w3) d key =
      Inr (Some v, emit [WriteBucket d (hash_fn key)] (put_table d t (emit [WrLock ?l] ?w3)))"
      "world_sim (put_table d t (emit [WrLock ?l] ?w3)) (put_db d key None (ser_of w [a, b]))"
    using remove_key_sim [OF world_sim_emit [OF world_sim_emit [OF ws]] lt] v by (metis (no_types, lifting) Ser.select_convs(1) ser_of_def)
  let ?w7 = "emit [Unlock ?l] (emit [WriteBucket d (hash_fn key)] (put_table d t (emit [WrLock ?l] ?w3)))"
  obtain rp where reply: "reply_integer ?w7 (Some r_init) (c_slot b) 1 = Inr (0, Some rp, emit [Send (sock (client_at_slot w b)) (int_msg 1)] ?w7)"
  proof -
    have "int (length (int_msg 1)) < INT_MAX" by (rule int_msg_short) (simp_all add: INT_MIN_def INT_MAX_def)
    then show ?thesis
      using reply_fns_ok(2) [of ?w7 "c_slot b" "client_at_slot w b" 1 r_init] servingD(2,4) [OF sb] that by auto
  qed
  show ?thesis
    using todo ba bb f [of "[RdLock ?l]"] r(1) reply
    by (simp add: conn_exec_def idle_def answer_def dangle_def)
qed

section \<open>The properties\<close>

text \<open>
C4. Interleaved connections are serialisable.  Whatever the scheduler does, when the connections have
served all their commands there is an order of the commands, in which each connection has
its own in the order it sent them, such that running them one after the other on the abstract server
gives the databases, the selected database of each connection and, for each socket, exactly the
replies that were sent to it.
\<close>
theorem connections_serialise:
  assumes "connected w cs wss" and "conn_run (w, cs) (w', cs')" and "all_served (w', cs')"
  shows "\<exists>order rs s. serial order (ser_of w cs) = (rs, s) \<and> fst ` set order \<subseteq> {..<length cs} \<and>
    db_map w' = s_dbs s \<and>
    (\<forall>i < length cs. only i order = wss ! i \<and> db (client_at_slot w' (cs' ! i)) = s_sel s i \<and>
       sent (sock (client_at_slot w (cs ! i))) w' =
         sent (sock (client_at_slot w (cs ! i))) w @ map resp_encode (only i rs))"
  using run_serialised [OF assms] unfolding serialised_def by blast

lemma incr_connected:
  "connected (two_clients (sample_in [''INCR'', ''k'']))
     [conn_for 3 [sample_cmd [''INCR'', ''k''] [0, 5]], conn_for 4 [sample_cmd [''INCR'', ''k''] [0, 5]]]
     [[[''INCR'', ''k'']], [[''INCR'', ''k'']]]"
  using sample_connected(1) [OF refl sample_holds(1) sample_holds(1)] plain_samples by simp

lemma incr_served:
  "\<exists>r. conn_run (two_clients (sample_in [''INCR'', ''k'']),
     [conn_for 3 [sample_cmd [''INCR'', ''k''] [0, 5]], conn_for 4 [sample_cmd [''INCR'', ''k''] [0, 5]]]) r \<and> all_served r"
proof -
  have "command_of [''INCR'', ''k''] = CMD_INCR" by (simp add: command_of_def)
  then show ?thesis
    using connected_served [OF incr_connected] by simp
qed

theorem connections_serialise_witness:
  "\<exists>w' cs' order rs s. conn_run (two_clients (sample_in [''INCR'', ''k'']),
     [conn_for 3 [sample_cmd [''INCR'', ''k''] [0, 5]], conn_for 4 [sample_cmd [''INCR'', ''k''] [0, 5]]]) (w', cs') \<and>
    all_served (w', cs') \<and> only 0 order = [[''INCR'', ''k'']] \<and> only 1 order = [[''INCR'', ''k'']] \<and>
    sent 5 w' = map resp_encode (only 0 rs) \<and> db_map w' = s_dbs (s :: Ser)"
proof -
  let ?c = "conn_for 3 [sample_cmd [''INCR'', ''k''] [0, 5]]" and ?d = "conn_for 4 [sample_cmd [''INCR'', ''k''] [0, 5]]"
  let ?w = "two_clients (sample_in [''INCR'', ''k''])"
  obtain w' cs' where r: "conn_run (?w, [?c, ?d]) (w', cs')" "all_served (w', cs')"
    using incr_served by auto
  have w: "sent 5 ?w = []" "sock (client_at_slot ?w ?c) = 5"
    using sample_connected(3,8) [OF refl sample_holds(1) sample_holds(1) plain_samples(1) plain_samples(1)]
    by (simp_all add: sent_def)
  from connections_serialise [OF incr_connected r] obtain order rs and s :: Ser where o: "db_map w' = s_dbs s"
      "\<forall>i < length [?c, ?d]. only i order = [[[''INCR'', ''k'']], [[''INCR'', ''k'']]] ! i \<and>
         db (client_at_slot w' (cs' ! i)) = s_sel s i \<and>
         sent (sock (client_at_slot ?w ([?c, ?d] ! i))) w' =
           sent (sock (client_at_slot ?w ([?c, ?d] ! i))) ?w @ map resp_encode (only i rs)"
    by blast
  from o(2) [rule_format, of 0] o(2) [rule_format, of 1] w
  have "only 0 order = [[''INCR'', ''k'']]" "only 1 order = [[''INCR'', ''k'']]" "sent 5 w' = map resp_encode (only 0 rs)"
    by simp_all
  with r o(1) show ?thesis by blast
qed

text \<open>
C12. Every run of the connections ends, whatever commands they have to serve, whichever allocations and
messages fail, and whatever state the server is in: no run goes on for ever, and where a run cannot
go on every connection has served all its commands, unless one of them has run into undefined
behaviour; in particular there is no deadlock.
\<close>
theorem connections_complete:
  assumes "\<forall>c \<in> set cs. idle c"
  shows "wfP (\<lambda>r' r. conn_step r r') \<and> (\<exists>r. conn_run (w, cs) r \<and> (all_served r \<or> crashed r)) \<and>
    (\<forall>r. conn_run (w, cs) r \<and> (\<nexists>r'. conn_step r r') \<longrightarrow> all_served r \<or> crashed r)"
  using wf_conn_step conn_run_ends [of "(w, cs)"] run_ends_served [OF idle_locked [OF assms]] by blast

theorem connections_complete_witness:
  "\<exists>r. conn_run (sample_in [''INCR'', ''k''], [conn_for 3 [sample_cmd [''INCR'', ''k''] [0, 5]],
     conn_for 3 [sample_cmd [''INCR'', ''k''] [0, 5]]]) r \<and> (all_served r \<or> crashed r)"
  using connections_complete [of "[conn_for 3 [sample_cmd [''INCR'', ''k''] [0, 5]],
     conn_for 3 [sample_cmd [''INCR'', ''k''] [0, 5]]]"] by (simp add: idle_def conn_for_def)

text \<open>
C13. No increment is lost.  When any number of connections that have selected one database send any
number of INCRs of one key that holds the number \<open>v\<close>, every run that serves them all, in any
interleaving, leaves \<open>v\<close> plus the number of the commands in the key.
\<close>
theorem no_increment_lost:
  assumes "connected w cs wss" and "\<forall>c \<in> set cs. db (client_at_slot w c) = d"
    and "\<forall>ws \<in> set (concat wss). ws = [''INCR'', key]" and "db_map w d key = Some (show_int v)"
    and "INT_MIN \<le> v" and "v + int (length (concat wss)) \<le> INT_MAX"
    and "conn_run (w, cs) (w', cs')" and "all_served (w', cs')"
  shows "db_map w' d key = Some (show_int (v + int (length (concat wss))))"
proof -
  obtain order where "serialised w cs wss w' cs' order"
    using run_serialised [OF assms(1,7,8)] by blast
  moreover have "length wss = length cs"
    using assms(1) by (auto simp: connected_def dest: list_all2_lengthD)
  ultimately show ?thesis
    using serialised_increments assms(2-6) by blast
qed

theorem no_increment_lost_witness:
  "\<exists>w' cs'. conn_run (two_clients (sample_in [''INCR'', ''k'']),
     [conn_for 3 [sample_cmd [''INCR'', ''k''] [0, 5]], conn_for 4 [sample_cmd [''INCR'', ''k''] [0, 5]]]) (w', cs') \<and>
    db_map w' 0 ''k'' = Some ''9''"
proof -
  let ?w = "two_clients (sample_in [''INCR'', ''k''])"
  note s = sample_connected [OF refl sample_holds(1) sample_holds(1) plain_samples(1) plain_samples(1)]
  obtain w' cs' where r: "conn_run (?w, [conn_for 3 [sample_cmd [''INCR'', ''k''] [0, 5]],
      conn_for 4 [sample_cmd [''INCR'', ''k''] [0, 5]]]) (w', cs')" "all_served (w', cs')"
    using incr_served by auto
  have "show_int 7 = ''7''" "show_int 9 = ''9''" by (simp_all add: show_eval)
  then have "db_map w' 0 ''k'' = Some ''9''"
    using no_increment_lost [OF incr_connected _ _ _ _ _ r, of 0 "''k''" 7] s(2-4)
    by (simp add: db_map_sample zero_client_def INT_MIN_def INT_MAX_def)
  with r(1) show ?thesis by blast
qed



text \<open>
C26. A GET reads freed memory when another connection deletes its key at the wrong moment.  Whatever the
key and its value are, one connection that sends a GET of it and another that sends a DEL of it can be
interleaved so that the DEL is completed, with its reply, between the moment when the GET releases
the lock of the bucket and the moment when it reads the value.
\<close>
theorem get_reads_freed:
  assumes "connected w [a, b] [[[''GET'', key]], [[''DEL'', key]]]"
    and "db (client_at_slot w b) = db (client_at_slot w a)" and "db_map w (db (client_at_slot w a)) key \<noteq> None"
  shows "\<exists>r. conn_run (w, [a, b]) r \<and> c_now (snd r ! 0) = Some (Broken Dangling) \<and>
    c_now (snd r ! 1) = None \<and> c_todo (snd r ! 1) = []"
proof -
  from assms(3) obtain v where "db_map w (db (client_at_slot w a)) key = Some v" by auto
  from get_then_del [OF assms(1) refl assms(2) this] show ?thesis
    by (metis exec_run_run nth_Cons_0 nth_Cons_Suc One_nat_def snd_conv)
qed

theorem get_reads_freed_witness:
  "\<exists>r. conn_run (two_clients (sample_in [''GET'', ''k'', ''DEL'']),
     [conn_for 3 [sample_cmd [''GET'', ''k''] [0, 4]], conn_for 4 [sample_cmd [''DEL'', ''k''] [6, 4]]]) r \<and> crashed r"
proof -
  note s = sample_connected [OF refl sample_holds(2) sample_holds(3) plain_samples(2,3)]
  obtain r where r: "conn_run (two_clients (sample_in [''GET'', ''k'', ''DEL'']),
      [conn_for 3 [sample_cmd [''GET'', ''k''] [0, 4]], conn_for 4 [sample_cmd [''DEL'', ''k''] [6, 4]]]) r"
      "c_now (snd r ! 0) = Some (Broken Dangling)"
    using get_reads_freed [OF s(1)] s(2-4) by (auto simp: db_map_sample zero_client_def)
  have "length (snd r) = 2" using conn_run_slots [OF r(1)] by (metis length_map length_Cons list.size(3) numeral_2_eq_2 snd_conv)
  then have "snd r ! 0 \<in> set (snd r)" by simp
  with r show ?thesis unfolding crashed_def by blast
qed

end
