(* ===== verification/Workers.thy ===== *)
theory Workers
  imports Interleaved Worker
begin

text \<open>
  The threads of several connections at the same time, from the bytes they receive.  A thread is the
  loop of \<open>worker_handle_client\<close>: it reads from its socket, looks for a complete line, parses it in a
  buffer of its own, runs the program of the command, and removes the line.  What it does with its
  own memory is one step (\<open>own_step\<close>); the program of the command is interleaved node by node with
  the programs of the other threads, by \<open>conn_step\<close> of the theory \<open>Concurrent\<close>.

  Every step is simulated by the serial server, so that whatever pieces \<open>recv\<close> delivers and however
  the threads are scheduled, the lines of all streams are answered as if they had come one after the
  other in some order.
\<close>

section \<open>Threads\<close>

text \<open>
  The connection with the program it runs, what \<open>recv\<close> is still going to return, the bytes
  accumulated, the command, the buffer and the length of the line that is being executed, and
  whether the thread has left its loop.
\<close>

record Thread =
  th_conn :: Conn
  th_in :: "recv list"
  th_qb :: StringBuffer
  th_cmd :: Cmd
  th_cur :: "(nat \<times> nat) option"
  th_done :: bool

definition begin_line :: "Cmd option \<Rightarrow> World \<Rightarrow> nat \<Rightarrow> World \<times> prog" where
  "begin_line cmdp w k = (case cmdp of None \<Rightarrow> (w, Return (-1) None) | Some cmd \<Rightarrow> begin_cmd cmd w k)"

text \<open>
  The next step of a thread that runs no program, if it does not wait for input: it removes the line
  that has been executed, or parses the next one, or reads more bytes.
\<close>

definition own_step :: "World \<Rightarrow> Thread \<Rightarrow> ub + (World \<times> Thread) option" where
  "own_step w t =
     (let c = th_conn t; qb = th_qb t in
      if th_done t \<or> c_now c \<noteq> None then Inr None
      else
        (case th_cur t of
           Some (bid, n) \<Rightarrow>
             res_bind (end_line w (c_slot c) bid qb n) (\<lambda>(running, w, qb).
             Inr (Some (w, t\<lparr>th_qb := qb, th_cur := None, th_done := \<not> running\<rparr>)))
         | None \<Rightarrow>
             res_bind (find_crlf (sb_buf qb) (sb_len qb)) (\<lambda>end_pos.
             if end_pos \<noteq> 0 then
               res_bind (parse_line w (th_cmd t) qb end_pos) (\<lambda>(parsed, w).
               case parsed of
                 None \<Rightarrow> Inr (Some (w, t\<lparr>th_done := True\<rparr>))
               | Some (bid, cmdp) \<Rightarrow>
                   (case begin_line cmdp w (c_slot c) of
                      (w, p) \<Rightarrow> Inr (Some (w, t\<lparr>th_conn := c\<lparr>c_now := Some p\<rparr>, th_cmd := the cmdp,
                                            th_cur := Some (bid, end_pos)\<rparr>))))
             else
               (case th_in t of
                  [] \<Rightarrow> Inr None
                | RecvData bytes # rs \<Rightarrow>
                    res_bind (strbuf_append_noterm (w_mem w) (Some qb) (Some bytes) (length bytes)) (\<lambda>(rc, qbp, m).
                    Inr (Some (w\<lparr>w_mem := m\<rparr>, t\<lparr>th_in := rs, th_qb := the qbp\<rparr>)))
                | _ # rs \<Rightarrow> Inr (Some (w, t\<lparr>th_in := [], th_done := True\<rparr>))))))"

type_synonym threads_conf = "World \<times> Thread list"

definition set_conns :: "Thread list \<Rightarrow> Conn list \<Rightarrow> Thread list" where
  "set_conns ts cs = map2 (\<lambda>t c. t\<lparr>th_conn := c\<rparr>) ts cs"

inductive work_step :: "threads_conf \<Rightarrow> threads_conf \<Rightarrow> bool" where
  own: "i < length ts \<Longrightarrow> own_step w (ts ! i) = Inr (Some (w', t')) \<Longrightarrow> work_step (w, ts) (w', ts[i := t'])"
| own_ub: "i < length ts \<Longrightarrow> own_step w (ts ! i) = Inl u \<Longrightarrow>
    work_step (w, ts) (w, ts[i := (ts ! i)\<lparr>th_conn := (th_conn (ts ! i))\<lparr>c_now := Some (Broken u)\<rparr>, th_done := True\<rparr>])"
| runs: "conn_step (w, map th_conn ts) (w', cs') \<Longrightarrow> work_step (w, ts) (w', set_conns ts cs')"

abbreviation work_run :: "threads_conf \<Rightarrow> threads_conf \<Rightarrow> bool" where
  "work_run \<equiv> work_step\<^sup>*\<^sup>*"

text \<open>All threads wait for input that does not come, or have ended; some thread has run into undefined behaviour.\<close>

definition all_waiting :: "threads_conf \<Rightarrow> bool" where
  "all_waiting r \<longleftrightarrow> (\<forall>t \<in> set (snd r). c_now (th_conn t) = None \<and> own_step (fst r) t = Inr None)"

abbreviation conns_of :: "threads_conf \<Rightarrow> conf" where
  "conns_of r \<equiv> (fst r, map th_conn (snd r))"

text \<open>A new thread, in the slot \<open>k\<close>, with the results of its calls of \<open>recv\<close>.\<close>

definition thread_of :: "World \<Rightarrow> nat \<times> recv list \<Rightarrow> Thread" where
  "thread_of w = (\<lambda>(k, rs).
     case fst (worker_start w) of
       None \<Rightarrow> \<lparr>th_conn = conn_for k [], th_in = [], th_qb = \<lparr>sb_buf = [], sb_len = 0, sb_cap = 0\<rparr>,
                th_cmd = \<lparr>tokens = \<lparr>t_buf = [], t_count = 0, t_cap = 0\<rparr>, entry = CMD_UNKNOWN, ready = 0\<rparr>,
                th_cur = None, th_done = True\<rparr>
     | Some (cmd, qb) \<Rightarrow> \<lparr>th_conn = conn_for k [], th_in = rs, th_qb = qb, th_cmd = cmd, th_cur = None,
                          th_done = False\<rparr>)"

lemma set_conns_simps [simp]:
  "length cs = length ts \<Longrightarrow> map th_conn (set_conns ts cs) = cs"
  "length cs = length ts \<Longrightarrow> length (set_conns ts cs) = length ts"
  "length cs = length ts \<Longrightarrow> i < length ts \<Longrightarrow> set_conns ts cs ! i = (ts ! i)\<lparr>th_conn := cs ! i\<rparr>"
  by (auto simp: set_conns_def intro!: nth_equalityI)

section \<open>A thread that is not interrupted executes the command of its line\<close>

lemma run_begin_cmd: "ready cmd \<noteq> 0 \<Longrightarrow> run_begun (Inr (begin_cmd cmd w k)) = run_begun (dispatch_steps cmd w k)"
  by (cases "dispatch_steps cmd w k") (auto simp: begin_cmd_def)

text \<open>The body of the loop of the worker, with the handler called as a function, is the body with the program of its command.\<close>

lemma run_command_steps:
  "run_command w k cmd qb n =
     res_bind (parse_line w cmd qb n) (\<lambda>(parsed, w).
     case parsed of
       None \<Rightarrow> Inr (False, w, cmd, qb)
     | Some (bid, cmdp) \<Rightarrow>
         res_bind (run_begun (Inr (begin_line cmdp w k))) (\<lambda>(rc, rp, w).
         res_bind (end_line w k bid qb n) (\<lambda>(running, w, qb).
         Inr (running, w, the cmdp, qb))))"
proof -
  have "res_bind (cmd_dispatch cmdp w k) (\<lambda>(rc, w). f w) = res_bind (run_begun (Inr (begin_line cmdp w k))) (\<lambda>(rc, rp, w). f w)"
    for cmdp w and f :: "World \<Rightarrow> ub + (bool \<times> World \<times> Cmd \<times> StringBuffer)"
  proof (cases cmdp)
    case None
    then show ?thesis by (simp add: cmd_dispatch_def begin_line_def)
  next
    case (Some cmd)
    show ?thesis
    proof (cases "ready cmd = 0")
      case True
      with Some show ?thesis by (simp add: dispatch_runs begin_line_def begin_cmd_def)
    next
      case False
      have "run_begun (Inr (begin_line cmdp w k)) = run_begun (dispatch_steps cmd w k)"
        using run_begin_cmd [OF False] Some by (simp add: begin_line_def)
      then show ?thesis
        using Some False by (simp add: dispatch_runs res_bind_assoc) (auto intro!: res_bind_cong)
    qed
  qed
  then show ?thesis
    by (auto simp: run_command_def intro!: res_bind_cong split: option.split prod.split)
qed

section \<open>What a line that is parsed adds to the simulation\<close>

lemma sim_idle_world:
  assumes "sim J w cs order" and "\<forall>c \<in> set cs. c_todo c = []"
  shows "sim J (w\<lparr>w_next := n, w_mem := [], w_bufs := b\<rparr>) cs order"
proof -
  let ?w = "w\<lparr>w_next := n, w_mem := [], w_bufs := b\<rparr>"
  from assms(1) obtain rs s gs where st: "job_ok J cs" "well_locked cs" "serial order (j_start J) = (rs, s)" "world_sim w s"
      "\<And>j. j < length cs \<Longrightarrow> conn_sim J j w s order rs (cs ! j) (gs j)" "fst ` set order \<subseteq> {..<length cs}"
    unfolding sim_def by blast
  have "conn_sim J j ?w s order rs (cs ! j) (gs j)" if j: "j < length cs" for j
  proof -
    have "client_of ?w = client_of w" "sent fd ?w = sent fd w" for fd by (auto simp: client_of_def sent_def)
    then show ?thesis using st(5) [OF j] assms(2) j by (simp add: conn_sim_def)
  qed
  moreover have "world_sim ?w s" using st(4) by (simp add: world_sim_def small_values_def calm_def)
  ultimately show ?thesis using st(1,2,3,6) unfolding sim_def by blast
qed

definition more_words :: "Job \<Rightarrow> nat \<Rightarrow> string list \<Rightarrow> Job" where
  "more_words J i ws = J\<lparr>j_words := (j_words J)[i := j_words J ! i @ [ws]]\<rparr>"

lemma sim_more_words:
  assumes "sim J w cs order" and i: "i < length cs" and "c_todo (cs ! i) = []" and "c_now (cs ! i) = None"
    and "cmd_holds w cmd ws" and "plain ws"
  shows "sim (more_words J i ws) w (cs[i := (cs ! i)\<lparr>c_todo := [cmd]\<rparr>]) order"
proof -
  let ?c = "(cs ! i)\<lparr>c_todo := [cmd]\<rparr>" and ?J = "more_words J i ws"
  from assms(1) obtain rs s gs where st: "job_ok J cs" "well_locked cs" "serial order (j_start J) = (rs, s)" "world_sim w s"
      "\<And>j. j < length cs \<Longrightarrow> conn_sim J j w s order rs (cs ! j) (gs j)" "fst ` set order \<subseteq> {..<length cs}"
    unfolding sim_def by blast
  have l: "length (j_words J) = length cs" using st(1) by (simp add: job_ok_def)
  have "conn_sim ?J j w s order rs (cs[i := ?c] ! j) (gs j)" if "j < length cs" for j
  proof (cases "j = i")
    case True
    with st(5) [OF i] assms(3,4,5) l i show ?thesis
      by (cases "gs i") (simp_all add: conn_sim_def more_words_def)
  next
    case False
    with st(5) [OF that] show ?thesis by (simp add: conn_sim_def more_words_def)
  qed
  moreover have "job_ok ?J (cs[i := ?c])"
  proof -
    have "map c_slot (cs[i := ?c]) = map c_slot cs" using i by (simp add: map_update list_update_same_conv)
    moreover have "plain x" if x: "ys \<in> set ((j_words J)[i := j_words J ! i @ [ws]])" "x \<in> set ys" for x ys
    proof -
      have "ys \<in> set (j_words J) \<or> ys = j_words J ! i @ [ws]" using x(1) set_update_subset_insert by fastforce
      moreover have "j_words J ! i \<in> set (j_words J)" using i l by simp
      ultimately show ?thesis using x(2) st(1) assms(6) by (auto simp: job_ok_def)
    qed
    ultimately show ?thesis using st(1) by (simp add: job_ok_def more_words_def)
  qed
  moreover have "well_locked (cs[i := ?c])"
    using st(2) i well_lockedD [OF st(2) i] by (intro well_locked_same) (simp_all add: conn_locked_def assms(4))
  moreover have "serial order (j_start ?J) = (rs, s)" using st(3) by (simp add: more_words_def)
  ultimately show ?thesis using st(4,6) unfolding sim_def by auto
qed

text \<open>A thread parses a line and begins its command, in one step.\<close>

lemma parse_sim:
  assumes "sim J w cs order" and i: "i < length cs" and c: "c_now (cs ! i) = None" "\<forall>c \<in> set cs. c_todo c = []"
    and u: "u = w\<lparr>w_next := n, w_mem := [], w_bufs := b\<rparr>" and "cmd_holds u cmd ws" and "plain ws"
    and b: "begin_cmd cmd u (c_slot (cs ! i)) = (w', p)"
  shows "\<exists>more. sim (more_words J i ws) w' (cs[i := (cs ! i)\<lparr>c_now := Some p\<rparr>]) (order @ more)"
proof -
  let ?c = "(cs ! i)\<lparr>c_todo := [cmd]\<rparr>" and ?c' = "(cs ! i)\<lparr>c_now := Some p\<rparr>"
  have t: "c_todo (cs ! i) = []" using i c(2) by simp
  have s: "sim (more_words J i ws) u (cs[i := ?c]) order"
    unfolding u by (rule sim_more_words [OF sim_idle_world [OF assms(1) c(2)] i t c(1)])
      (use assms(6,7) u in simp_all)
  have e: "(cs[i := ?c])[i := ((cs[i := ?c]) ! i)\<lparr>c_now := Some p, c_todo := []\<rparr>] = cs[i := ?c']"
    using i t by simp (cases "cs ! i", simp)
  have "conn_step (u, cs[i := ?c]) (w', (cs[i := ?c])[i := ((cs[i := ?c]) ! i)\<lparr>c_now := Some p, c_todo := []\<rparr>])"
    using i c(1) b by (intro begins) simp_all
  from conn_step_locked [OF this] s have "well_locked (cs[i := ?c'])"
    unfolding e by (simp add: sim_def)
  with begins_sim [OF s, of i cmd "[]" w' p] i c(1) b e show ?thesis by simp
qed

section \<open>The input of a thread\<close>

text \<open>The bytes that \<open>recv\<close> will return before the end of the stream, and the commands in them.\<close>

fun received :: "recv list \<Rightarrow> string" where
  "received (RecvData bytes # rs) = bytes @ received rs"
| "received rs = []"

definition asks :: "string \<Rightarrow> string list list" where
  "asks s = map (\<lambda>l. words (l @ CRLF)) (fst (lines_of s))"

lemma asks_none: "\<not> has_crlf s \<Longrightarrow> asks s = []"
  by (simp add: asks_def lines_of_simps(1))

lemma asks_line:
  assumes "read_line s = Some (l, r)"
  shows "asks (s @ t) = words (l @ CRLF) # asks (r @ t)"
  using lines_of_simps(2) [OF read_line_append [OF assms, of t]] by (simp add: asks_def)

definition short_lines :: "string \<Rightarrow> bool" where
  "short_lines s \<longleftrightarrow> (\<forall>l \<in> set (fst (lines_of s)). length l < 2 ^ 28)"

lemma short_line:
  assumes "read_line s = Some (l, r)" and "short_lines (s @ t)"
  shows "length l < 2 ^ 28 \<and> short_lines (r @ t)"
  using assms(2) lines_of_simps(2) [OF read_line_append [OF assms(1), of t]] by (simp add: short_lines_def)

text \<open>
  Where a thread stands: what its buffer holds beyond the line that is being executed and what it
  will still receive are the commands that it has not begun.
\<close>

definition reads :: "Thread \<Rightarrow> string list list \<Rightarrow> bool" where
  "reads t wss \<longleftrightarrow> toks_wf (tokens (th_cmd t)) \<and> c_todo (th_conn t) = [] \<and>
     (\<exists>s r. sb_holds_raw (th_qb t) (s @ r) \<and> length ((s @ r) @ received (th_in t)) < size_mod \<and>
        wss = asks (r @ received (th_in t)) \<and> short_lines (r @ received (th_in t)) \<and>
        (case th_cur t of None \<Rightarrow> s = [] \<and> c_now (th_conn t) = None | Some (bid, n) \<Rightarrow> 2 \<le> n \<and> n = length s)) \<and>
     (th_done t \<longrightarrow> wss = [] \<and> th_cur t = None)"

lemma readsI:
  assumes "toks_wf (tokens (th_cmd t))" and "c_todo (th_conn t) = []" and "sb_holds_raw (th_qb t) (s @ r)"
    and "length ((s @ r) @ received (th_in t)) < size_mod" and "wss = asks (r @ received (th_in t))"
    and "short_lines (r @ received (th_in t))"
    and "case th_cur t of None \<Rightarrow> s = [] \<and> c_now (th_conn t) = None | Some (bid, n) \<Rightarrow> 2 \<le> n \<and> n = length s"
    and "th_done t \<longrightarrow> wss = [] \<and> th_cur t = None"
  shows "reads t wss"
  unfolding reads_def using assms by blast

lemma readsE:
  assumes "reads t wss"
  obtains s r where "toks_wf (tokens (th_cmd t))" "c_todo (th_conn t) = []" "sb_holds_raw (th_qb t) (s @ r)"
    "length ((s @ r) @ received (th_in t)) < size_mod" "wss = asks (r @ received (th_in t))" "short_lines (r @ received (th_in t))"
    "case th_cur t of None \<Rightarrow> s = [] \<and> c_now (th_conn t) = None | Some (bid, n) \<Rightarrow> 2 \<le> n \<and> n = length s"
    "th_done t \<longrightarrow> wss = [] \<and> th_cur t = None"
  using assms unfolding reads_def by blast

lemma reads_conn:
  assumes "reads t wss" and "c_todo c = []" and "c_now (th_conn t) = None \<longrightarrow> c_now c = None"
  shows "reads (t\<lparr>th_conn := c\<rparr>) wss"
  using assms(1)
proof (rule readsE)
  fix s r assume "toks_wf (tokens (th_cmd t))" "sb_holds_raw (th_qb t) (s @ r)"
    "length ((s @ r) @ received (th_in t)) < size_mod" "wss = asks (r @ received (th_in t))" "short_lines (r @ received (th_in t))"
    "case th_cur t of None \<Rightarrow> s = [] \<and> c_now (th_conn t) = None | Some (bid, n) \<Rightarrow> 2 \<le> n \<and> n = length s"
    "th_done t \<longrightarrow> wss = [] \<and> th_cur t = None"
  then show ?thesis using assms(2,3) by (intro readsI [where s = s and r = r]) (auto split: option.splits)
qed

text \<open>Between two lines: the end of a line, a new line, more bytes, or the end of the stream.\<close>

lemma own_step_cleans:
  assumes r: "reads t wss" and "\<not> th_done t" and "c_now (th_conn t) = None" and "th_cur t = Some (bid, n)"
    and "client_of w (c_slot (th_conn t)) = Inr c" and "sock c \<noteq> -1"
  shows "\<exists>qb. own_step w t = Inr (Some (w\<lparr>w_bufs := (w_bufs w)(bid := None)\<rparr>, t\<lparr>th_qb := qb, th_cur := None, th_done := False\<rparr>)) \<and>
    reads (t\<lparr>th_qb := qb, th_cur := None, th_done := False\<rparr>) wss"
proof -
  from r assms(4) obtain s x where s: "sb_holds_raw (th_qb t) (s @ x)" "n = length s"
      "length ((s @ x) @ received (th_in t)) < size_mod" "wss = asks (x @ received (th_in t))"
      "short_lines (x @ received (th_in t))"
    by (auto simp: reads_def)
  have "own_step w t = Inr (Some (w\<lparr>w_bufs := (w_bufs w)(bid := None)\<rparr>,
      t\<lparr>th_qb := rest_of (th_qb t) x, th_cur := None, th_done := False\<rparr>))"
    using end_line_eq [OF s(1) assms(5), of bid] assms(2,3,4,6) s(2) by (simp add: own_step_def Let_def)
  moreover have "reads (t\<lparr>th_qb := rest_of (th_qb t) x, th_cur := None, th_done := False\<rparr>) wss"
    using r s rest_of_holds [OF s(1)] assms(3)
    by (intro readsI [where s = "[]" and r = x]) (auto simp: reads_def)
  ultimately show ?thesis by blast
qed

lemma own_step_reads:
  assumes r: "reads t wss" and d: "\<not> th_done t" "c_now (th_conn t) = None" "th_cur t = None"
    and "sb_holds_raw (th_qb t) s" and "\<not> has_crlf s" and "wss = asks (s @ received (th_in t))"
    and "length (s @ received (th_in t)) < size_mod" and "calm w" and "short_lines (s @ received (th_in t))"
  shows "(th_in t = [] \<and> wss = [] \<and> own_step w t = Inr None) \<or>
    (\<exists>t'. own_step w t = Inr (Some (w, t')) \<and> th_conn t' = th_conn t \<and> reads t' wss)"
proof -
  have f: "find_crlf (sb_buf (th_qb t)) (sb_len (th_qb t)) = Inr 0"
    using find_crlf_line [OF assms(5)] assms(6) by (simp flip: read_line_None)
  have w: "w\<lparr>w_mem := []\<rparr> = w" "w_mem w = []" using assms(9) by (simp_all add: calm_def)
  show ?thesis
  proof (cases "th_in t")
    case Nil
    with assms(6,7) f d show ?thesis by (simp add: own_step_def Let_def asks_none)
  next
    case (Cons x rs)
    show ?thesis
    proof (cases x)
      case (RecvData bytes)
      obtain qb where qb: "strbuf_append_noterm [] (Some (th_qb t)) (Some bytes) (length bytes) = Inr (0, Some qb, [])"
          "sb_holds_raw qb (s @ bytes)"
        using strbuf_append_noterm_ok [OF assms(5), of "length bytes" bytes] assms(8) Cons RecvData by auto
      let ?t = "t\<lparr>th_in := rs, th_qb := qb\<rparr>"
      have "own_step w t = Inr (Some (w, ?t))"
        using f d qb(1) w Cons RecvData by (simp add: own_step_def Let_def)
      moreover have "reads ?t wss"
        using r d qb(2) assms(7,8,10) Cons RecvData
        by (intro readsI [where s = "[]" and r = "s @ bytes"]) (auto simp: reads_def)
      ultimately show ?thesis by auto
    qed (use f d assms(5-8,10) r Cons in \<open>auto simp: own_step_def Let_def asks_none reads_def
        intro!: readsI [where s = "[]" and r = s]\<close>)
  qed
qed

lemma own_step_parses:
  assumes r: "reads t wss" and d: "\<not> th_done t" "c_now (th_conn t) = None" "th_cur t = None"
    and h: "sb_holds_raw (th_qb t) s" and s: "read_line s = Some (l, x)" and wss: "wss = asks (s @ received (th_in t))"
    and "length (s @ received (th_in t)) < size_mod" and sl: "short_lines (s @ received (th_in t))"
    and cn: "world_wf w" "calm w" "small_values w" "c_slot (th_conn t) < MAX_CONN"
      "client_of w (c_slot (th_conn t)) = Inr c" "sock c \<noteq> -1"
  shows "\<exists>cmd b u w' p t' wss'. u = w\<lparr>w_next := w_next w + 1, w_mem := [], w_bufs := b\<rparr> \<and>
    cmd_holds u cmd (words (l @ CRLF)) \<and> begin_cmd cmd u (c_slot (th_conn t)) = (w', p) \<and>
    own_step w t = Inr (Some (w', t')) \<and> th_conn t' = (th_conn t)\<lparr>c_now := Some p\<rparr> \<and>
    wss = words (l @ CRLF) # wss' \<and> reads t' wss'"
proof -
  let ?k = "c_slot (th_conn t)"
  have eq: "s = l @ CRLF @ x" using read_line_eq [OF s] by simp
  have "conn w ?k c (th_cmd t)" using cn r by (simp add: conn_def reads_def)
  then obtain cmd1 b where P: "parse_line w (th_cmd t) (th_qb t) (length l + 2) = Inr (Some (w_next w, Some cmd1),
      w\<lparr>w_next := w_next w + 1, w_mem := [], w_bufs := (w_bufs w)(w_next w \<mapsto> b)\<rparr>)"
    "serving (w\<lparr>w_next := w_next w + 1, w_mem := [], w_bufs := (w_bufs w)(w_next w \<mapsto> b)\<rparr>) ?k c cmd1 (words (l @ CRLF))"
    "toks_wf (tokens cmd1)"
    using line_words [OF _ cn(6) h [unfolded eq]] short_line [OF s sl] by metis
  let ?u = "w\<lparr>w_next := w_next w + 1, w_mem := [], w_bufs := (w_bufs w)(w_next w \<mapsto> b)\<rparr>"
  obtain w' p where b: "begin_cmd cmd1 ?u ?k = (w', p)" by force
  let ?t = "t\<lparr>th_conn := (th_conn t)\<lparr>c_now := Some p\<rparr>, th_cmd := cmd1, th_cur := Some (w_next w, length l + 2)\<rparr>"
  have f: "find_crlf (sb_buf (th_qb t)) (sb_len (th_qb t)) = Inr (length l + 2)"
    using find_crlf_line [OF h] s by simp
  have "own_step w t = Inr (Some (w', ?t))"
    using f d P(1) b by (simp add: own_step_def Let_def begin_line_def)
  moreover have "wss = words (l @ CRLF) # asks (x @ received (th_in t))"
    using asks_line [OF s] wss by simp
  moreover have "reads ?t (asks (x @ received (th_in t)))"
    using r h P(3) assms(8) d(1) short_line [OF s sl]
    by (intro readsI [where s = "l @ CRLF" and r = x]) (auto simp: CRLF_def eq reads_def)
  moreover have "cmd_holds ?u cmd1 (words (l @ CRLF))" using P(2) by (simp add: serving_def)
  ultimately show ?thesis using b by (intro exI [of _ cmd1] exI [of _ "(w_bufs w)(w_next w \<mapsto> b)"] exI [of _ ?u]
      exI [of _ w'] exI [of _ p] exI [of _ ?t] exI [of _ "asks (x @ received (th_in t))"]) simp
qed

section \<open>Every step of the threads is simulated\<close>

text \<open>
  The commands of the streams, of which those in \<open>j_words\<close> have been begun and the threads still have
  to read the others.
\<close>

definition threads_sim :: "Job \<Rightarrow> string list list list \<Rightarrow> World \<Rightarrow> Thread list \<Rightarrow> (nat \<times> string list) list \<Rightarrow> bool" where
  "threads_sim J all w ts order \<longleftrightarrow> sim J w (map th_conn ts) order \<and> length all = length ts \<and>
     (\<not> j_gets J \<longrightarrow> no_derefs (map th_conn ts) \<and> (\<forall>ws \<in> set (concat all). command_of ws \<noteq> CMD_GET)) \<and>
     (\<forall>i < length ts. \<exists>wss. all ! i = j_words J ! i @ wss \<and> reads (ts ! i) wss)"

text \<open>A step of the programs moves one connection and leaves those that are at rest alone.\<close>

lemma conn_step_others:
  assumes "conn_step (w, cs) (w', cs')" and "\<forall>c \<in> set cs. c_todo c = []"
  shows "length cs' = length cs \<and> (\<forall>j < length cs. c_todo (cs' ! j) = [] \<and> (c_now (cs ! j) = None \<longrightarrow> c_now (cs' ! j) = None))"
  using assms by (cases rule: conn_step.cases) (auto simp: nth_list_update)

lemma sim_slot:
  assumes "sim J w cs order" and "i < length cs"
  obtains c where "client_of w (c_slot (cs ! i)) = Inr c" "sock c \<noteq> -1" "world_wf w" "calm w" "small_values w"
    "c_slot (cs ! i) < MAX_CONN"
proof -
  from assms obtain s rs g where s: "world_sim w s" "conn_sim J i w s order rs (cs ! i) g" "job_ok J cs"
    unfolding sim_def by blast
  then obtain c where c: "client_of w (c_slot (cs ! i)) = Inr c" "sock c = j_fds J ! i" by (auto simp: conn_sim_def)
  have "j_fds J ! i \<in> set (j_fds J)" using s(3) assms(2) by (simp add: job_ok_def)
  then have "sock c \<noteq> -1" using c(2) s(3) by (auto simp: job_ok_def)
  moreover have "c_slot (cs ! i) < MAX_CONN"
    using c(1) world_simD(1) [OF s(1)] by (auto simp: client_of_def world_wf_def server_wf_def split: if_splits)
  ultimately show thesis using that c(1) world_simD [OF s(1)] by blast
qed

lemma runs_sim:
  assumes "threads_sim J all w ts order" and "conn_step (w, map th_conn ts) (w', cs')"
  shows "\<exists>more. threads_sim J all w' (set_conns ts cs') (order @ more)"
proof -
  have todo: "\<forall>c \<in> set (map th_conn ts). c_todo c = []"
    using assms(1) by (auto simp: threads_sim_def reads_def in_set_conv_nth)
  note o = conn_step_others [OF assms(2) todo]
  obtain more where "sim J w' cs' (order @ more)"
    using conn_step_sim [OF assms(2), of J order] assms(1) unfolding threads_sim_def by blast
  moreover have "no_derefs cs'" if "\<not> j_gets J"
    using no_derefs_step [OF assms(2)] that assms(1) by (simp add: threads_sim_def)
  moreover have "reads (set_conns ts cs' ! i) wss" if "i < length ts" "reads (ts ! i) wss" for i wss
    using reads_conn [OF that(2), of "cs' ! i"] o that(1) by simp
  ultimately have "threads_sim J all w' (set_conns ts cs') (order @ more)"
    using assms(1) o by (fastforce simp: threads_sim_def)
  then show ?thesis ..
qed

text \<open>A step of a thread on its own that begins no command.\<close>

lemma local_sim:
  assumes "threads_sim J all w ts order" and "i < length ts" and "th_conn t' = th_conn (ts ! i)"
    and "\<And>wss. reads (ts ! i) wss \<Longrightarrow> all ! i = j_words J ! i @ wss \<Longrightarrow> reads t' wss"
    and "sim J w' (map th_conn ts) order"
  shows "threads_sim J all w' (ts[i := t']) order"
proof -
  have "map th_conn (ts[i := t']) = map th_conn ts"
    using assms(2,3) by (simp add: map_update list_update_same_conv)
  then show ?thesis
    using assms by (simp add: threads_sim_def nth_list_update) metis
qed

lemma own_sim:
  assumes sm: "threads_sim J all w ts order" and i: "i < length ts" and "own_step w (ts ! i) \<noteq> Inr None"
    and fine: "\<forall>ws \<in> set (concat all). plain ws"
  shows "\<exists>w' t' J' more. own_step w (ts ! i) = Inr (Some (w', t')) \<and> threads_sim J' all w' (ts[i := t']) (order @ more) \<and>
    J' = J\<lparr>j_words := j_words J'\<rparr> \<and> (\<forall>j. j \<noteq> i \<longrightarrow> j_words J' ! j = j_words J ! j)"
proof -
  let ?t = "ts ! i" and ?cs = "map th_conn ts"
  obtain wss where wss: "all ! i = j_words J ! i @ wss" "reads ?t wss" using sm i by (auto simp: threads_sim_def)
  have sim: "sim J w ?cs order" and todo: "\<forall>c \<in> set ?cs. c_todo c = []"
    using sm by (auto simp: threads_sim_def reads_def in_set_conv_nth)
  obtain c where c: "client_of w (c_slot (th_conn ?t)) = Inr c" "sock c \<noteq> -1" "world_wf w" "calm w" "small_values w"
      "c_slot (th_conn ?t) < MAX_CONN"
    using sim_slot [OF sim, of i] i by auto
  have d: "\<not> th_done ?t" "c_now (th_conn ?t) = None"
    using assms(3) by (auto simp: own_step_def Let_def split: if_splits)
  show ?thesis
  proof (cases "th_cur ?t")
    case (Some bn)
    obtain bid n where bn: "th_cur ?t = Some (bid, n)" using Some by (cases bn) auto
    let ?u = "w\<lparr>w_bufs := (w_bufs w)(bid := None)\<rparr>"
    obtain qb where q: "own_step w ?t = Inr (Some (?u, ?t\<lparr>th_qb := qb, th_cur := None, th_done := False\<rparr>))"
        "reads (?t\<lparr>th_qb := qb, th_cur := None, th_done := False\<rparr>) wss"
      using own_step_cleans [OF wss(2) d bn c(1,2)] by blast
    have "?u = w\<lparr>w_next := w_next w, w_mem := [], w_bufs := (w_bufs w)(bid := None)\<rparr>"
      using c(4) by (simp add: calm_def)
    then have "sim J ?u ?cs order" using sim_idle_world [OF sim todo] by metis
    then have "threads_sim J all ?u (ts[i := ?t\<lparr>th_qb := qb, th_cur := None, th_done := False\<rparr>]) order"
      using wss(1) q(2) by (intro local_sim [OF sm i]) auto
    with q(1) show ?thesis
      by (intro exI [of _ ?u] exI [of _ "?t\<lparr>th_qb := qb, th_cur := None, th_done := False\<rparr>"] exI [of _ J] exI [of _ "[]"]) simp
  next
    case None
    obtain s where s: "sb_holds_raw (th_qb ?t) s" "length (s @ received (th_in ?t)) < size_mod"
        "wss = asks (s @ received (th_in ?t))" "short_lines (s @ received (th_in ?t))"
      using wss(2) None by (auto simp: reads_def)
    show ?thesis
    proof (cases "read_line s")
      case no: None
      then have "\<not> has_crlf s" by (simp add: read_line_None)
      from own_step_reads [OF wss(2) d None s(1) this s(3,2) c(4) s(4)] assms(3)
      obtain t' where t': "own_step w ?t = Inr (Some (w, t'))" "th_conn t' = th_conn ?t" "reads t' wss" by auto
      have "threads_sim J all w (ts[i := t']) order"
        using wss(1) t'(2,3) sim by (intro local_sim [OF sm i]) auto
      with t'(1) show ?thesis by (intro exI [of _ w] exI [of _ t'] exI [of _ J] exI [of _ "[]"]) simp
    next
      case (Some lx)
      obtain l x where l: "read_line s = Some (l, x)" using Some by (cases lx) auto
      from own_step_parses [OF wss(2) d None s(1) l s(3,2,4) c(3-6,1,2)]
      obtain cmd b u w' p t' wss' where P: "u = w\<lparr>w_next := w_next w + 1, w_mem := [], w_bufs := b\<rparr>"
          "cmd_holds u cmd (words (l @ CRLF))" "begin_cmd cmd u (c_slot (th_conn ?t)) = (w', p)"
          "own_step w ?t = Inr (Some (w', t'))" "th_conn t' = (th_conn ?t)\<lparr>c_now := Some p\<rparr>"
          "wss = words (l @ CRLF) # wss'" "reads t' wss'"
        by blast
      let ?ws = "words (l @ CRLF)" and ?J = "more_words J i (words (l @ CRLF))"
      have "?ws \<in> set (all ! i)" using wss(1) P(6) by simp
      moreover have "all ! i \<in> set all" using i sm by (simp add: threads_sim_def)
      moreover have "i < length (j_words J)" using i sm by (auto simp: threads_sim_def sim_def job_ok_def)
      ultimately have mem: "?ws \<in> set (concat all)" "i < length (j_words J)" by auto
      have cs: "map th_conn (ts[i := t']) = ?cs[i := (?cs ! i)\<lparr>c_now := Some p\<rparr>]"
        using P(5) i by (simp add: map_update)
      obtain more where o: "sim ?J w' (map th_conn (ts[i := t'])) (order @ more)"
        using parse_sim [OF sim _ _ todo P(1,2), of i w' p] i d(2) fine mem(1) P(3) cs by auto
      have "no_derefs (map th_conn (ts[i := t']))" if "\<not> j_gets J"
      proof -
        have "no_derefs ?cs" "entry cmd \<noteq> CMD_GET"
          using that sm mem(1) P(2) by (auto simp: threads_sim_def cmd_holds_def)
        with begin_no_deref [OF P(3)] i todo show ?thesis
          unfolding cs by (intro no_derefs_update) auto
      qed
      moreover have "\<exists>wss. all ! j = j_words ?J ! j @ wss \<and> reads (ts[i := t'] ! j) wss" if "j < length ts" for j
        using sm that P(6,7) wss(1) mem(2) by (cases "j = i") (auto simp: threads_sim_def more_words_def)
      ultimately have "threads_sim ?J all w' (ts[i := t']) (order @ more)"
        using o sm by (simp add: threads_sim_def) (simp add: more_words_def)
      moreover have "?J = J\<lparr>j_words := j_words ?J\<rparr> \<and> (\<forall>j. j \<noteq> i \<longrightarrow> j_words ?J ! j = j_words J ! j)"
        by (simp add: more_words_def)
      ultimately show ?thesis using P(4) by blast
    qed
  qed
qed

section \<open>Every run ends\<close>

text \<open>What a thread has still to do: stop, receive, parse, clean up, and its program.\<close>

definition unread :: "Thread \<Rightarrow> nat" where
  "unread t = sb_len (th_qb t) - (case th_cur t of None \<Rightarrow> 0 | Some (bid, n) \<Rightarrow> n)"

abbreviation conn_rank :: "Conn \<Rightarrow> nat \<times> prog option" where
  "conn_rank c \<equiv> (length (c_todo c), c_now c)"

definition thread_rank :: "Thread \<Rightarrow> nat \<times> nat \<times> nat \<times> nat \<times> nat \<times> prog option" where
  "thread_rank t = (if th_done t then 0 else 1, length (th_in t), unread t, if th_cur t = None then 0 else 1,
     conn_rank (th_conn t))"

abbreviation thread_rel :: "((nat \<times> nat \<times> nat \<times> nat \<times> nat \<times> prog option) \<times> (nat \<times> nat \<times> nat \<times> nat \<times> nat \<times> prog option)) set" where
  "thread_rel \<equiv> less_than <*lex*> less_than <*lex*> less_than <*lex*> less_than <*lex*> less_than <*lex*> {(x, y). later x y}"

lemma wf_later: "wf {(x, y). later x y}"
  using accp_wfpI [of later] later_acc by (simp add: wfp_def)

lemma wf_thread_rel: "wf (listrel1 thread_rel)"
  using wf_later by (simp add: wf_listrel1_iff wf_lex_prod)

lemma own_step_rank:
  assumes "own_step w t = Inr (Some (w', t'))"
  shows "(thread_rank t', thread_rank t) \<in> thread_rel"
proof -
  have d: "\<not> th_done t" "c_now (th_conn t) = None"
    using assms by (auto simp: own_step_def Let_def split: if_splits)
  show ?thesis
  proof (cases "th_cur t")
    case (Some bn)
    with assms d show ?thesis
      by (cases bn)
        (auto simp: own_step_def Let_def res_bind_eq_Inr end_line_def thread_rank_def unread_def split: if_splits)
  next
    case None
    obtain n where n: "find_crlf (sb_buf (th_qb t)) (sb_len (th_qb t)) = Inr n"
      using assms d None by (auto simp: own_step_def Let_def res_bind_eq_Inr)
    then have "n \<noteq> 0 \<Longrightarrow> 2 \<le> n \<and> n \<le> sb_len (th_qb t)"
      using find_crlf_from_bounds by (fastforce simp: find_crlf_def)
    with assms d None n show ?thesis
      by (auto simp: own_step_def Let_def res_bind_eq_Inr thread_rank_def unread_def split_beta
          split: if_splits option.splits list.splits recv.splits)
  qed
qed

lemma listrel1_update: "i < length xs \<Longrightarrow> (y, xs ! i) \<in> r \<Longrightarrow> (xs[i := y], xs) \<in> listrel1 r"
  by (metis id_take_nth_drop listrel1I upd_conv_take_nth_drop)

lemma work_step_rank:
  assumes "work_step r r'"
  shows "(map thread_rank (snd r'), map thread_rank (snd r)) \<in> listrel1 thread_rel"
  using assms
proof cases
  case (own i ts w w' t')
  then show ?thesis
    using own_step_rank [OF own(4)] listrel1_update [of i "map thread_rank ts"] by (simp add: map_update)
next
  case (own_ub i ts w u)
  let ?t = "(ts ! i)\<lparr>th_conn := (th_conn (ts ! i))\<lparr>c_now := Some (Broken u)\<rparr>, th_done := True\<rparr>"
  have "\<not> th_done (ts ! i)" using own_ub(4) by (auto simp: own_step_def Let_def)
  then have "(thread_rank ?t, thread_rank (ts ! i)) \<in> thread_rel" by (simp add: thread_rank_def)
  with own_ub show ?thesis
    using listrel1_update [of i "map thread_rank ts"] by (simp add: map_update)
next
  case (runs w ts w' cs')
  let ?cs = "map th_conn ts"
  have "(rank cs', rank ?cs) \<in> rank_rel" using conn_step_rank [OF runs(3)] by simp
  then obtain n y where n: "n < length (rank cs')" "rank ?cs = (rank cs')[n := y]" "(rank cs' ! n, y) \<in> less_than <*lex*> {(x, y). later x y}"
    by (auto simp: listrel1_iff_update)
  have l: "length cs' = length ts" using arg_cong [OF n(2), of length] by (simp add: rank_nth)
  have r: "j < length ts \<Longrightarrow> conn_rank (th_conn (ts ! j)) = rank ?cs ! j"
    "j < length ts \<Longrightarrow> conn_rank (cs' ! j) = rank cs' ! j" for j
    using l by (simp_all add: rank_nth)
  let ?ts = "set_conns ts cs'"
  have "map thread_rank ts = (map thread_rank ?ts)[n := thread_rank (ts ! n)]"
  proof (rule nth_equalityI)
    fix j assume "j < length (map thread_rank ts)"
    then have j: "j < length ts" by simp
    show "map thread_rank ts ! j = (map thread_rank ?ts)[n := thread_rank (ts ! n)] ! j"
    proof (cases "j = n")
      case False
      then have "conn_rank (th_conn (ts ! j)) = conn_rank (cs' ! j)"
        using n(2) r [OF j] by simp
      with False j l show ?thesis by (simp add: thread_rank_def unread_def)
    qed (use j l in simp)
  qed (use l in simp)
  moreover have "(thread_rank (?ts ! n), thread_rank (ts ! n)) \<in> thread_rel"
  proof -
    have "n < length ts" using n(1) l by (simp add: rank_nth)
    moreover from this have "conn_rank (th_conn (ts ! n)) = y" using r(1) [of n] n(1,2) by simp
    ultimately show ?thesis using n(3) r(2) [of n] l by (auto simp: thread_rank_def unread_def)
  qed
  ultimately show ?thesis
    using n(1) l runs(1,2) unfolding listrel1_iff_update
    by (intro exI [of _ "thread_rank (ts ! n)"] exI [of _ n]) (auto simp: rank_nth)
qed

lemma wf_work_step: "wfP (\<lambda>r' r. work_step r r')"
proof -
  have "{(r', r). work_step r r'} \<subseteq> inv_image (listrel1 thread_rel) (\<lambda>r. map thread_rank (snd r))"
    using work_step_rank by auto
  from wf_subset [OF wf_inv_image [OF wf_thread_rel] this] show ?thesis by (simp add: wfp_def)
qed

lemma work_run_ends: "\<exists>r'. work_run r r' \<and> (\<forall>r''. \<not> work_step r' r'')"
proof (induction r rule: wfp_induct_rule [OF wf_work_step])
  case (1 r)
  show ?case
  proof (cases "\<exists>u. work_step r u")
    case True
    then obtain u where "work_step r u" ..
    with 1 [OF this] show ?thesis by (meson converse_rtranclp_into_rtranclp)
  qed blast
qed

lemma work_progress:
  assumes "well_locked (map th_conn ts)" and "\<not> crashed (conns_of (w, ts))" and "\<not> all_waiting (w, ts)"
  shows "\<exists>r. work_step (w, ts) r"
proof (cases "all_served (conns_of (w, ts))")
  case False
  then obtain w' cs' where "conn_step (w, map th_conn ts) (w', cs')"
    using conn_progress [OF assms(1), of w] assms(2) by auto
  then show ?thesis by (blast intro: runs)
next
  case True
  with assms(3) obtain t where t: "t \<in> set ts" "own_step w t \<noteq> Inr None"
    by (auto simp: all_waiting_def all_served_def)
  then obtain i where i: "i < length ts" "t = ts ! i" by (metis in_set_conv_nth)
  show ?thesis
  proof (cases "own_step w t")
    case (Inl u)
    with i show ?thesis by (blast intro: own_ub)
  next
    case (Inr x)
    with t(2) obtain w' t' where "x = Some (w', t')" by (cases x) auto
    with Inr i show ?thesis by (blast intro: own)
  qed
qed

section \<open>A thread that runs alone\<close>

text \<open>A program uses only a pointer that its last \<open>hash_get\<close> has returned; \<open>b\<close> says whether there is one.\<close>

primrec derefs_ok :: "prog \<Rightarrow> bool \<Rightarrow> bool" where
  "derefs_ok (Return rc rp) b = True"
| "derefs_ok (Broken u) b = True"
| "derefs_ok (Take l m p) b = derefs_ok p b"
| "derefs_ok (Release l p) b = derefs_ok p b"
| "derefs_ok (Find d key f) b = (\<forall>v. derefs_ok (f v) (v \<noteq> None))"
| "derefs_ok (Deref d key p) b = (b \<and> derefs_ok p b)"
| "derefs_ok (Free p) b = derefs_ok p b"
| "derefs_ok (Store d key v p) b = derefs_ok p b"
| "derefs_ok (Remove d key f) b = (\<forall>v. derefs_ok (f v) b)"
| "derefs_ok (Restore path p) b = derefs_ok p b"
| "derefs_ok (Scan d f) b = (\<forall>t. derefs_ok (f t) b)"
| "derefs_ok (Chain d i f) b = (\<forall>x. derefs_ok (f x) b)"
| "derefs_ok (Dump path ts p) b = derefs_ok p b"
| "derefs_ok (Own g f) b = (\<forall>rc rp. derefs_ok (f rc rp) b)"

lemma derefs_ok_parts [simp]:
  "derefs_ok (answer g) b"
  "derefs_ok (take_all ls m p) b = derefs_ok p b" "derefs_ok (release_all ls p) b = derefs_ok p b"
  by (simp add: answer_def) (induction ls; simp)+

lemma derefs_ok_scan_all: "(\<And>ts. derefs_ok (f ts) b) \<Longrightarrow> derefs_ok (scan_all ds ts f) b"
  by (induction ds arbitrary: ts) auto

lemma derefs_ok_count: "(\<And>n. derefs_ok (f n) b) \<Longrightarrow> derefs_ok (count_all d is n f) b"
  by (induction "is" arbitrary: n) auto

lemma derefs_ok_save: "derefs_ok p b \<Longrightarrow> derefs_ok (rdb_save_steps pathp p) b"
  unfolding rdb_save_steps_def Let_def by (auto intro!: derefs_ok_scan_all)

lemma handlers_derefs_ok:
  "get_steps w cmd k rp = Inr (w', p) \<Longrightarrow> derefs_ok p b" "set_steps w cmd k rp = Inr (w', p) \<Longrightarrow> derefs_ok p b"
  "del_steps w cmd k rp = Inr (w', p) \<Longrightarrow> derefs_ok p b" "incr_steps w cmd k rp = Inr (w', p) \<Longrightarrow> derefs_ok p b"
  "select_steps w cmd k rp = Inr (w', p) \<Longrightarrow> derefs_ok p b" "quit_steps w cmd k rp = Inr (w', p) \<Longrightarrow> derefs_ok p b"
  "save_steps w cmd k rp = Inr (w', p) \<Longrightarrow> derefs_ok p b" "load_steps w cmd k rp = Inr (w', p) \<Longrightarrow> derefs_ok p b"
  "info_steps w cmd k rp = Inr (w', p) \<Longrightarrow> derefs_ok p b"
  by (auto simp: get_steps_def set_steps_def del_steps_def incr_steps_def select_steps_def quit_steps_def
      save_steps_def load_steps_def info_steps_def wrong_args_steps_def res_bind_eq_Inr Let_def
      intro!: derefs_ok_count derefs_ok_save elim!: begun_cases split: if_splits option.splits)

lemma begin_line_ok:
  assumes "begin_line cmdp w k = (w', p)"
  shows "lock_ok p [] \<and> derefs_ok p b"
proof -
  have "dispatch_steps cmd w k = Inr (w', p) \<Longrightarrow> derefs_ok p b" for cmd
    by (auto simp: dispatch_steps_def split: prod.splits CmdCode.splits intro: handlers_derefs_ok)
  with assms show ?thesis
    using begin_lock_ok by (auto simp: begin_line_def begin_cmd_def split: option.splits if_splits sum.splits)
qed

text \<open>Crossing one node is one step of the run of the program.\<close>

lemma run_prog_advance:
  "\<not> halted p \<Longrightarrow> derefs_ok p (q \<noteq> Gone) \<Longrightarrow> run_prog p w = res_bind (advance w p h q) (\<lambda>(w, p, h, q). run_prog p w)"
  by (cases p) (simp_all add: res_bind_assoc Let_def del: not_None_eq, (rule res_bind_cong [OF refl], simp split: prod.split)+)

lemma advance_derefs_ok:
  assumes "advance w p h q = Inr (w', p', h', q')" and "derefs_ok p (q \<noteq> Gone)"
  shows "derefs_ok p' (q' \<noteq> Gone)"
proof (cases p)
  case (Find d key f)
  with assms obtain v where v: "p' = f v" "q' = (if v = None then Gone else Entry d key)" by (auto simp: res_bind_eq_Inr)
  have "derefs_ok (f v) (v \<noteq> None)" using assms(2) Find by (simp del: not_None_eq)
  with v show ?thesis by (cases v) simp_all
qed (use assms in \<open>auto simp: res_bind_eq_Inr Let_def split: if_splits\<close>)

text \<open>What the worker will do from where its thread stands: the rest of its program, of its line, of its buffer, of its input.\<close>

definition rest_of_lines :: "World \<Rightarrow> nat \<Rightarrow> Cmd \<Rightarrow> StringBuffer \<Rightarrow> recv list \<Rightarrow> ub + (thread \<times> World \<times> Cmd \<times> StringBuffer)" where
  "rest_of_lines w k cmd qb rs = res_bind (run_commands w k cmd qb) (\<lambda>(running, w, cmd, qb).
     if running then worker_loop w k cmd qb rs else Inr (Finished, w, cmd, qb))"

definition rest_of_line ::
    "World \<Rightarrow> nat \<Rightarrow> Cmd \<Rightarrow> StringBuffer \<Rightarrow> recv list \<Rightarrow> bool \<Rightarrow> (nat \<times> nat) option \<Rightarrow> ub + (thread \<times> World \<times> Cmd \<times> StringBuffer)" where
  "rest_of_line w k cmd qb rs finished cur =
     (if finished then Inr (Finished, w, cmd, qb)
      else (case cur of None \<Rightarrow> rest_of_lines w k cmd qb rs
        | Some (bid, n) \<Rightarrow> res_bind (end_line w k bid qb n) (\<lambda>(running, w, qb).
            if running then rest_of_lines w k cmd qb rs else Inr (Finished, w, cmd, qb))))"

definition rest_of_thread :: "World \<Rightarrow> Thread \<Rightarrow> ub + (thread \<times> World \<times> Cmd \<times> StringBuffer)" where
  "rest_of_thread w t =
     (case c_now (th_conn t) of None \<Rightarrow> rest_of_line w (c_slot (th_conn t)) (th_cmd t) (th_qb t) (th_in t) (th_done t) (th_cur t)
      | Some p \<Rightarrow> res_bind (run_prog p w) (\<lambda>(rc, rp, w).
          rest_of_line w (c_slot (th_conn t)) (th_cmd t) (th_qb t) (th_in t) (th_done t) (th_cur t)))"

lemmas rest_defs = rest_of_thread_def rest_of_line_def

definition alone_ok :: "Thread \<Rightarrow> bool" where
  "alone_ok t \<longleftrightarrow> c_todo (th_conn t) = [] \<and> conn_locked (th_conn t) \<and>
     (\<forall>p. c_now (th_conn t) = Some p \<longrightarrow> derefs_ok p (c_ptr (th_conn t) \<noteq> Gone))"

text \<open>The lines in the buffer: none, or the first one and the others after it.\<close>

lemma rest_no_line:
  assumes "find_crlf (sb_buf qb) (sb_len qb) = Inr 0"
  shows "rest_of_lines w k cmd qb rs = worker_loop w k cmd qb rs"
  using assms by (simp add: rest_of_lines_def run_commands.simps [of w k cmd qb])

lemma worker_loop_more:
  "worker_loop w k cmd qb (RecvData bytes # rs) =
     res_bind (strbuf_append_noterm (w_mem w) (Some qb) (Some bytes) (length bytes)) (\<lambda>(rc, qbp, m).
     rest_of_lines (w\<lparr>w_mem := m\<rparr>) k cmd (the qbp) rs)"
  by (simp add: rest_of_lines_def)

lemma rest_line:
  assumes "find_crlf (sb_buf qb) (sb_len qb) = Inr n" and "n \<noteq> 0"
  shows "rest_of_lines w k cmd qb rs =
    res_bind (parse_line w cmd qb n) (\<lambda>(parsed, w).
    case parsed of None \<Rightarrow> Inr (Finished, w, cmd, qb)
    | Some (bid, cmdp) \<Rightarrow> (case begin_line cmdp w k of (w, p) \<Rightarrow>
        res_bind (run_prog p w) (\<lambda>(rc, rp, w). rest_of_line w k (the cmdp) qb rs False (Some (bid, n)))))"
proof -
  have "rest_of_lines w k cmd qb rs = res_bind (run_command w k cmd qb n) (\<lambda>(running, w, cmd, qb).
      if running then rest_of_lines w k cmd qb rs else Inr (Finished, w, cmd, qb))"
    using assms by (simp add: rest_of_lines_def run_commands.simps [of w k cmd qb] res_bind_assoc)
      (auto simp: rest_of_lines_def intro!: res_bind_cong)
  also have "\<dots> = res_bind (parse_line w cmd qb n) (\<lambda>(parsed, w).
    case parsed of None \<Rightarrow> Inr (Finished, w, cmd, qb)
    | Some (bid, cmdp) \<Rightarrow> (case begin_line cmdp w k of (w, p) \<Rightarrow>
        res_bind (run_prog p w) (\<lambda>(rc, rp, w). rest_of_line w k (the cmdp) qb rs False (Some (bid, n)))))"
    by (auto simp: run_command_steps rest_of_line_def res_bind_assoc intro!: res_bind_cong split: option.split prod.split)
  finally show ?thesis .
qed

lemma own_step_alone:
  assumes "own_step w t = Inr (Some (w', t'))" and "alone_ok t"
  shows "rest_of_thread w' t' = rest_of_thread w t \<and> alone_ok t'"
proof -
  have g: "\<not> th_done t" "c_now (th_conn t) = None" using assms(1) by (auto simp: own_step_def Let_def split: if_splits)
  then have l: "c_todo (th_conn t) = []" "c_held (th_conn t) = []"
    using assms(2) by (simp_all add: alone_ok_def conn_locked_def)
  show ?thesis
  proof (cases "th_cur t")
    case (Some x)
    then obtain bid n where cur: "th_cur t = Some (bid, n)" by (cases x) auto
    from assms(1) g this obtain running u qb where e: "end_line w (c_slot (th_conn t)) bid (th_qb t) n = Inr (running, u, qb)"
        "w' = u" "t' = t\<lparr>th_qb := qb, th_cur := None, th_done := \<not> running\<rparr>"
      by (auto simp: own_step_def Let_def res_bind_eq_Inr)
    with cur g assms(2) show ?thesis by (simp add: rest_defs alone_ok_def)
  next
    case None
    from assms(1) g None obtain e where e: "find_crlf (sb_buf (th_qb t)) (sb_len (th_qb t)) = Inr e"
      by (auto simp: own_step_def Let_def res_bind_eq_Inr)
    show ?thesis
    proof (cases "e = 0")
      case True
      with assms g None e rest_no_line [of "th_qb t"] show ?thesis
        by (auto simp: own_step_def Let_def res_bind_eq_Inr rest_defs alone_ok_def worker_loop_more
          simp del: worker_loop.simps(4) split: list.splits recv.splits)
    next
      case False
      note rl = rest_line [OF e False]
      from assms(1) g None e False obtain parsed u where pl: "parse_line w (th_cmd t) (th_qb t) e = Inr (parsed, u)"
        by (auto simp: own_step_def Let_def res_bind_eq_Inr)
      show ?thesis
      proof (cases parsed)
        case None
        with assms g \<open>th_cur t = None\<close> e False pl rl show ?thesis
          by (auto simp: own_step_def Let_def rest_defs alone_ok_def)
      next
        case (Some x)
        obtain bid cmdp where x: "parsed = Some (bid, cmdp)" using Some by (cases x) auto
        obtain v p where bl: "begin_line cmdp u (c_slot (th_conn t)) = (v, p)" by force
        from assms(1) g None e False pl x bl have t': "w' = v"
            "t' = t\<lparr>th_conn := (th_conn t)\<lparr>c_now := Some p\<rparr>, th_cmd := the cmdp, th_cur := Some (bid, e)\<rparr>"
          by (simp_all add: own_step_def Let_def)
        have "rest_of_thread v t' = rest_of_thread w t"
          using g None pl x bl rl unfolding t'(2) by (simp add: rest_of_thread_def rest_of_line_def [of w])
        with t' l begin_line_ok [OF bl] show ?thesis by (simp add: alone_ok_def conn_locked_def)
      qed
    qed
  qed
qed

lemma res_bind_eq_Inl: "res_bind m f = Inl u \<longleftrightarrow> m = Inl u \<or> (\<exists>x. m = Inr x \<and> f x = Inl u)"
  by (cases m) auto

lemma own_step_ub:
  assumes "own_step w t = Inl u"
  shows "rest_of_thread w t = Inl u"
proof -
  have g: "\<not> th_done t" "c_now (th_conn t) = None" using assms by (auto simp: own_step_def Let_def split: if_splits)
  show ?thesis
  proof (cases "th_cur t")
    case (Some x)
    then obtain bid n where "th_cur t = Some (bid, n)" by (cases x) auto
    with assms g show ?thesis by (auto simp: own_step_def Let_def rest_defs res_bind_eq_Inl)
  next
    case None
    show ?thesis
    proof (cases "find_crlf (sb_buf (th_qb t)) (sb_len (th_qb t))")
      case (Inl u')
      with assms g None show ?thesis
        by (simp add: own_step_def Let_def rest_defs rest_of_lines_def run_commands.simps [of w _ _ "th_qb t"])
    next
      case (Inr n)
      show ?thesis
      proof (cases "n = 0")
        case True
        with assms g None Inr rest_no_line [of "th_qb t"] show ?thesis
          by (auto simp: own_step_def Let_def res_bind_eq_Inl rest_defs split: list.splits recv.splits)
      next
        case False
        with assms g None Inr rest_line [OF Inr False] show ?thesis
          by (auto simp: own_step_def Let_def res_bind_eq_Inl rest_defs split: option.splits prod.splits)
      qed
    qed
  qed
qed

lemma conn_step_alone:
  assumes "conn_step (w, [th_conn t]) (w', cs')" and "alone_ok t"
  obtains c where "cs' = [c]" "rest_of_thread w' (t\<lparr>th_conn := c\<rparr>) = rest_of_thread w t" "alone_ok (t\<lparr>th_conn := c\<rparr>)"
proof -
  note a = assms(2) [unfolded alone_ok_def]
  have "well_locked [th_conn t]"
    using a by (simp add: well_locked_def exclusive_def held_by_def)
  with conn_step_locked [OF assms(1)] have wl: "\<forall>c \<in> set cs'. conn_locked c" by (simp add: well_locked_def)
  show thesis
    using assms(1)
  proof (cases rule: conn_step.cases)
    case (begins i c cmd cmds p)
    with a show thesis by simp
  next
    case (ends i c rc rp)
    with a wl show thesis by (intro that) (auto simp: rest_of_thread_def alone_ok_def)
  next
    case (goes i c p p' h' q')
    then have n: "i = 0" "c_now (th_conn t) = Some p" "\<not> halted p" "derefs_ok p (c_ptr (th_conn t) \<noteq> Gone)"
      "advance w p (c_held (th_conn t)) (c_ptr (th_conn t)) = Inr (w', p', h', q')" using a by auto
    note r = run_prog_advance [OF n(3,4)] advance_derefs_ok [OF n(5,4)]
    let ?c = "(th_conn t)\<lparr>c_now := Some p', c_held := h', c_ptr := q'\<rparr>"
    show thesis
    proof (rule that [of ?c])
      show cs: "cs' = [?c]" using goes n(1) by simp
      show "alone_ok (t\<lparr>th_conn := ?c\<rparr>)" using r(2) a wl cs by (simp add: alone_ok_def)
      show "rest_of_thread w' (t\<lparr>th_conn := ?c\<rparr>) = rest_of_thread w t"
        using r(1) [of w "c_held (th_conn t)"] n(2,5) by (simp add: rest_of_thread_def)
    qed
  next
    case (breaks i c p u)
    then have n: "i = 0" "c_now (th_conn t) = Some p" "\<not> halted p" "derefs_ok p (c_ptr (th_conn t) \<noteq> Gone)"
      "advance w p (c_held (th_conn t)) (c_ptr (th_conn t)) = Inl u" using a by auto
    show thesis
      using breaks n a wl run_prog_advance [OF n(3,4), of w "c_held (th_conn t)"]
      by (intro that) (auto simp: rest_of_thread_def alone_ok_def)
  qed
qed

lemma run_alone:
  assumes "work_run r r'" and "r = (w, [t])" and "alone_ok t"
  shows "\<exists>w' t'. r' = (w', [t']) \<and> rest_of_thread w' t' = rest_of_thread w t \<and> alone_ok t'"
  using assms(1)
proof (induction rule: rtranclp_induct)
  case base
  with assms show ?case by blast
next
  case (step u v)
  then obtain w1 t1 where u: "u = (w1, [t1])" "rest_of_thread w1 t1 = rest_of_thread w t" "alone_ok t1" by blast
  from step(2) show ?case
  proof cases
    case (own i ts w1' w2 t2)
    with u own_step_alone [of w1 t1 w2 t2] show ?thesis by auto
  next
    case (own_ub i ts w1' e)
    then have o: "own_step w1 t1 = Inl e" "v = (w1, [t1\<lparr>th_conn := (th_conn t1)\<lparr>c_now := Some (Broken e)\<rparr>, th_done := True\<rparr>])"
      using u(1) by auto
    have "rest_of_thread w1 t1 = Inl e" using own_step_ub [OF o(1)] .
    with o u show ?thesis
      by (auto simp: rest_of_thread_def [of w1 "t1\<lparr>th_conn := c, th_done := d\<rparr>" for c d] alone_ok_def conn_locked_def)
  next
    case (runs w1' ts w2 cs')
    with u obtain c where "cs' = [c]" "rest_of_thread w2 (t1\<lparr>th_conn := c\<rparr>) = rest_of_thread w1 t1" "alone_ok (t1\<lparr>th_conn := c\<rparr>)"
      using conn_step_alone [of w1 t1 w2 cs'] by auto
    with runs u show ?thesis by (auto simp: set_conns_def)
  qed
qed

lemma thread_alone:
  assumes "work_run (w, [t]) r" and "\<And>r'. \<not> work_step r r'" and "alone_ok t"
  shows "\<exists>w' t'. r = (w', [t']) \<and>
    (case rest_of_thread w t of Inl u \<Rightarrow> c_now (th_conn t') = Some (Broken u)
     | Inr (th, v, cmd, qb) \<Rightarrow> w' = v \<and> th_cmd t' = cmd \<and> th_qb t' = qb \<and> idle (th_conn t') \<and> th_done t' = (th = Finished))"
proof -
  obtain w' t' where r: "r = (w', [t'])" "rest_of_thread w' t' = rest_of_thread w t" "alone_ok t'"
    using run_alone [OF assms(1) refl assms(3)] by blast
  have l: "conn_locked (th_conn t')" using r(3) by (simp add: alone_ok_def)
  then have "well_locked (map th_conn [t'])" by (simp add: well_locked_def exclusive_def held_by_def)
  from work_progress [OF this, of w'] assms(2) r(1)
  consider u where "c_now (th_conn t') = Some (Broken u)" | "c_now (th_conn t') = None" "own_step w' t' = Inr None"
    by (auto simp: crashed_def all_waiting_def)
  then show ?thesis
  proof cases
    case (1 u)
    then have "rest_of_thread w t = Inl u" unfolding r(2) [symmetric] by (simp add: rest_of_thread_def)
    with 1 r(1) show ?thesis by simp
  next
    case 2
    then have "idle (th_conn t')" using l by (simp add: conn_locked_def idle_def)
    moreover have "rest_of_thread w' t' = Inr (if th_done t' then Finished else Waiting, w', th_cmd t', th_qb t')"
    proof (cases "th_done t'")
      case False
      with 2 have "th_cur t' = None" "th_in t' = []" "find_crlf (sb_buf (th_qb t')) (sb_len (th_qb t')) = Inr 0"
        by (auto simp: own_step_def Let_def res_bind_eq_Inr split: option.splits prod.splits if_splits list.splits recv.splits)
      with False 2 rest_no_line show ?thesis by (simp add: rest_defs)
    qed (use 2 in \<open>simp add: rest_defs\<close>)
    ultimately show ?thesis using r by simp
  qed
qed

text \<open>
C15. A thread that is not interrupted is the worker.  Whatever bytes a new thread receives, in whatever world and with any
failures: its steps, which read, look for a line, parse it, cross the nodes of the handler's program one after the other and
remove the line, come to an end; and wherever they end, if \<open>worker_handle_client\<close>, which calls the handlers as
functions, runs into undefined behaviour, then so has the thread, into the same; and otherwise the world, with all messages and lock operations
in their order, is the one that \<open>worker_handle_client\<close> leaves, the thread is between two commands and holds no lock, and it has ended exactly if
\<open>worker_handle_client\<close> has.
\<close>
theorem steps_are_worker:
  "(\<exists>r. work_run (snd (worker_start w), [thread_of w (k, rs)]) r \<and> (\<forall>r'. \<not> work_step r r')) \<and>
   (\<forall>r. work_run (snd (worker_start w), [thread_of w (k, rs)]) r \<and> (\<forall>r'. \<not> work_step r r') \<longrightarrow>
      (\<exists>w' t. r = (w', [t]) \<and>
        (case worker_handle_client w k rs of
           Inl u \<Rightarrow> c_now (th_conn t) = Some (Broken u)
         | Inr (th, v) \<Rightarrow> w' = v \<and> idle (th_conn t) \<and> th_done t = (th = Finished))))"
proof -
  let ?t = "thread_of w (k, rs)"
  have ok: "alone_ok ?t"
    by (simp add: alone_ok_def conn_locked_def thread_of_def conn_for_def split: option.split)
  have "worker_handle_client w k rs = res_bind (rest_of_thread (snd (worker_start w)) ?t) (\<lambda>(th, w, cmd, qb). Inr (th, w))"
  proof (cases "worker_start w")
    case (Pair st u)
    show ?thesis
    proof (cases st)
      case None
      with Pair show ?thesis by (simp add: worker_handle_client_def thread_of_def rest_defs conn_for_def)
    next
      case (Some x)
      obtain cmd qb where x: "st = Some (cmd, qb)" using Some by (cases x) auto
      with Pair have "sb_len qb = 0" by (auto simp: worker_start_def Let_def split: prod.splits bool.splits option.splits)
      then have "find_crlf (sb_buf qb) (sb_len qb) = Inr 0" by (simp add: find_crlf_def find_crlf_from.simps)
      from rest_no_line [OF this] Pair x show ?thesis
        by (simp add: worker_handle_client_def thread_of_def rest_defs conn_for_def)
    qed
  qed
  then have "\<exists>w' t. r = (w', [t]) \<and>
        (case worker_handle_client w k rs of
           Inl u \<Rightarrow> c_now (th_conn t) = Some (Broken u)
         | Inr (th, v) \<Rightarrow> w' = v \<and> idle (th_conn t) \<and> th_done t = (th = Finished))"
    if "work_run (snd (worker_start w), [?t]) r" "\<forall>r'. \<not> work_step r r'" for r
    using thread_alone [OF that(1) _ ok] that(2)
    by (cases "rest_of_thread (snd (worker_start w)) ?t") (simp_all, auto)
  with work_run_ends show ?thesis by blast
qed

theorem steps_are_worker_witness:
  "\<exists>w' t. work_run (snd (worker_start sample_world),
        [thread_of sample_world (3, [RecvData (take 6 sample_stream), RecvData (drop 6 sample_stream)])]) (w', [t]) \<and>
    th_done t \<and> idle (th_conn t) \<and> sends (trace w') = [(0, bulk_msg (Some ''7'')), (0, ok_msg)]"
proof -
  let ?cs = "[take 6 sample_stream, drop 6 sample_stream]"
  have c: "client_of sample_world 3 = Inr zero_client" "concat ?cs = sample_stream" "length sample_stream < size_mod"
    by (simp_all add: client_of_sample MAX_CONN_def sample_stream_def CRLF_def size_mod_def)
  obtain v c' where v: "worker_handle_client sample_world 3 (map RecvData ?cs) = Inr (if sock c' = -1 then Finished else Waiting, v)"
      "client_of v 3 = Inr c'"
      "served sample_world 3 zero_client (spec_run (fst (lines_of sample_stream)) (abs_of sample_world zero_client)) v"
    using worker_serves [OF sample_world_wf(1,2) sample_small_values _ c(1), of ?cs] sample_line_ok c(3)
    unfolding c(2) by (auto simp: MAX_CONN_def zero_client_def)
  have "\<not> a_open (abs_of v c')" using v(2,3) unfolding sample_run by (auto simp: served_def)
  moreover have "sends (trace v) = [(0, bulk_msg (Some ''7'')), (0, ok_msg)]"
    using v(3) unfolding sample_run by (auto simp: served_def zero_client_def ok_msg_def sample_world_def)
  ultimately show ?thesis
    using steps_are_worker [of sample_world 3 "map RecvData ?cs"] v(1) by fastforce
qed

section \<open>From the start of the threads to the end of their input\<close>

text \<open>
  The slots of the threads with what they receive: connections with different sockets, on a well-formed
  server where nothing is going to fail, whose streams hold plain commands.
\<close>

type_synonym input = "nat \<times> recv list"

definition sock_at :: "World \<Rightarrow> input \<Rightarrow> int" where
  "sock_at w x = sock (client_at_slot w (conn_for (fst x) []))"

definition stream_ok :: "string \<Rightarrow> bool" where
  "stream_ok s \<longleftrightarrow> length s < size_mod \<and> short_lines s \<and> (\<forall>ws \<in> set (asks s). plain ws)"

definition opened :: "World \<Rightarrow> input list \<Rightarrow> bool" where
  "opened w ins \<longleftrightarrow> world_wf w \<and> calm w \<and> small_values w \<and> distinct (map fst ins) \<and> distinct (map (sock_at w) ins) \<and>
     (\<forall>x \<in> set ins. fst x < MAX_CONN \<and> sock_at w x \<noteq> -1 \<and> stream_ok (received (snd x)))"

definition asked :: "input list \<Rightarrow> string list list list" where
  "asked ins = map (\<lambda>x. asks (received (snd x))) ins"

definition server_of :: "World \<Rightarrow> input list \<Rightarrow> Ser" where
  "server_of w ins = ser_of w (map (\<lambda>x. conn_for (fst x) []) ins)"

definition streams_job :: "World \<Rightarrow> input list \<Rightarrow> Job" where
  "streams_job w ins = (job_of w (map (\<lambda>x. conn_for (fst x) []) ins) (map (\<lambda>_. []) ins))
     \<lparr>j_gets := (\<exists>ws \<in> set (concat (asked ins)). command_of ws = CMD_GET)\<rparr>"

lemma sim_gets:
  assumes "sim J w cs order" and "\<forall>c \<in> set cs. c_now c = None"
  shows "sim (J\<lparr>j_gets := b\<rparr>) w cs order"
proof -
  let ?J = "J\<lparr>j_gets := b\<rparr>"
  from assms(1) obtain rs s gs where st: "job_ok J cs" "well_locked cs" "serial order (j_start J) = (rs, s)" "world_sim w s"
      "\<And>j. j < length cs \<Longrightarrow> conn_sim J j w s order rs (cs ! j) (gs j)" "fst ` set order \<subseteq> {..<length cs}"
    unfolding sim_def by blast
  have "conn_sim ?J j w s order rs (cs ! j) (gs j)" if j: "j < length cs" for j
    using st(5) [OF j] assms(2) j by (cases "gs j") (simp_all add: conn_sim_def)
  moreover have "job_ok ?J cs" "serial order (j_start ?J) = (rs, s)" using st(1,3) by (simp_all add: job_ok_def)
  ultimately show ?thesis using st(2,4,6) unfolding sim_def by blast
qed

lemma conn_for_simps [simp]:
  "c_slot (conn_for k cmds) = k" "c_todo (conn_for k cmds) = cmds" "c_now (conn_for k cmds) = None" "idle (conn_for k cmds)"
  by (simp_all add: conn_for_def idle_def)

lemma opened_sim:
  assumes "opened w ins"
  shows "sim (streams_job w ins) w (map (\<lambda>x. conn_for (fst x) []) ins) []"
proof -
  let ?cs = "map (\<lambda>x. conn_for (fst x) []) ins"
  have m: "map (\<lambda>c. sock (client_at_slot w c)) ?cs = map (sock_at w) ins" "map c_slot ?cs = map fst ins"
    by (simp_all add: sock_at_def comp_def)
  have "connected w ?cs (map (\<lambda>_. []) ins)"
    unfolding connected_def m using assms by (auto simp: opened_def sock_at_def list_all2_conv_all_nth)
  from connected_sim [OF this] show ?thesis
    unfolding streams_job_def by (rule sim_gets) simp
qed

lemma thread_started:
  assumes "calm w"
  obtains cmd qb where "thread_of w (k, rs) = \<lparr>th_conn = conn_for k [], th_in = rs, th_qb = qb, th_cmd = cmd, th_cur = None, th_done = False\<rparr>"
    "toks_wf (tokens cmd)" "sb_holds_raw qb []"
proof -
  obtain cmd m where i: "cmd_init [] = (Some cmd, m)"
    by (simp add: cmd_init_def)
  let ?qb = "\<lparr>sb_buf = fresh_block BUFSIZ, sb_len = 0, sb_cap = BUFSIZ\<rparr>"
  have "worker_start w = (Some (cmd, ?qb), w\<lparr>w_mem := m\<rparr>)"
    using assms i by (simp add: worker_start_def Let_def)
  moreover have "sb_holds_raw ?qb []"
    by (simp add: sb_holds_raw_def sb_wf_def BUFSIZ_def size_mod_def)
  ultimately show thesis using that [of ?qb cmd] toks_wf_init [OF i] by (simp add: thread_of_def)
qed

lemma th_conn_start: "th_conn (thread_of w x) = conn_for (fst x) []"
  by (cases x) (simp add: thread_of_def split: option.split)

lemma opened_threads:
  assumes "opened w ins"
  shows "threads_sim (streams_job w ins) (asked ins) w (map (thread_of w) ins) []"
proof -
  let ?cs = "map (\<lambda>x. conn_for (fst x) []) ins"
  have cs: "map th_conn (map (thread_of w) ins) = ?cs" by (simp add: th_conn_start)
  have "no_derefs ?cs" by (simp add: no_derefs_def conn_for_def)
  moreover have "reads (thread_of w (ins ! i)) (asked ins ! i)" if i: "i < length ins" for i
  proof -
    obtain k rs where x: "ins ! i = (k, rs)" by force
    have "stream_ok (received rs)" "calm w" using assms nth_mem [OF i] x by (auto simp: opened_def)
    moreover obtain cmd qb where "thread_of w (ins ! i) =
        \<lparr>th_conn = conn_for k [], th_in = rs, th_qb = qb, th_cmd = cmd, th_cur = None, th_done = False\<rparr>"
        "toks_wf (tokens cmd)" "sb_holds_raw qb []"
      using thread_started [OF \<open>calm w\<close>, of k rs] unfolding x by metis
    ultimately show ?thesis
      using x i by (intro readsI [where s = "[]" and r = "[]"]) (simp_all add: conn_for_def asked_def stream_ok_def)
  qed
  moreover have "j_words (streams_job w ins) ! i = []" if "i < length ins" for i
    using that by (simp add: streams_job_def job_of_def)
  moreover have "\<not> j_gets (streams_job w ins) \<longrightarrow> (\<forall>ws \<in> set (concat (asked ins)). command_of ws \<noteq> CMD_GET)"
    by (auto simp: streams_job_def)
  ultimately show ?thesis
    using opened_sim [OF assms] unfolding threads_sim_def cs by (simp add: asked_def)
qed

lemma asked_plain: "opened w ins \<Longrightarrow> \<forall>ws \<in> set (concat (asked ins)). plain ws"
  by (auto simp: opened_def asked_def stream_ok_def)

lemma work_step_sim:
  assumes "work_step (w, ts) (w', ts')" and "threads_sim J all w ts order" and "\<forall>ws \<in> set (concat all). plain ws"
  shows "\<exists>J' more. threads_sim J' all w' ts' (order @ more) \<and> J' = J\<lparr>j_words := j_words J'\<rparr> \<and>
    (\<forall>j. c_now (th_conn (ts ! j)) \<noteq> None \<longrightarrow> j_words J' ! j = j_words J ! j)"
  using assms(1)
proof cases
  case (own i t')
  have "c_now (th_conn (ts ! i)) = None" using own(3) by (auto simp: own_step_def Let_def split: if_splits)
  with own own_sim [OF assms(2) own(2) _ assms(3)] show ?thesis by (metis Inr_inject option.distinct(1) option.inject prod.inject)
next
  case (own_ub i u)
  with own_sim [OF assms(2) own_ub(3) _ assms(3)] show ?thesis by auto
next
  case (runs cs')
  with runs_sim [OF assms(2) runs(2)] show ?thesis by (auto intro!: exI [of _ J])
qed

lemma work_run_sim:
  assumes "work_run r r'" and "threads_sim J all (fst r) (snd r) order" and "\<forall>ws \<in> set (concat all). plain ws"
  shows "\<exists>J' order'. threads_sim J' all (fst r') (snd r') order' \<and> J' = J\<lparr>j_words := j_words J'\<rparr>"
  using assms(1)
proof (induction rule: rtranclp_induct)
  case base
  with assms(2) show ?case by (auto intro!: exI [of _ J])
next
  case (step u v)
  then obtain J1 o1 where 1: "threads_sim J1 all (fst u) (snd u) o1" "J1 = J\<lparr>j_words := j_words J1\<rparr>" by blast
  obtain J2 o2 where 2: "threads_sim J2 all (fst v) (snd v) (o1 @ o2)" "J2 = J1\<lparr>j_words := j_words J2\<rparr>"
    using work_step_sim [of "fst u" "snd u" "fst v" "snd v", OF _ 1(1) assms(3)] step(2) by auto
  from 1(2) 2(2) have "J2 = J\<lparr>j_words := j_words J2\<rparr>" by (metis Job.update_convs(1) Job.surjective)
  with 2(1) show ?case by blast
qed

lemma waiting_reads_nothing:
  assumes "threads_sim J all w ts order" and i: "i < length ts" and "own_step w (ts ! i) = Inr None"
    and "c_now (th_conn (ts ! i)) = None" and "reads (ts ! i) wss"
  shows "wss = []"
proof (cases "th_done (ts ! i)")
  case True
  with assms(5) show ?thesis by (simp add: reads_def)
next
  case False
  let ?t = "ts ! i"
  obtain c where c: "client_of w (c_slot (th_conn ?t)) = Inr c" "sock c \<noteq> -1" "world_wf w" "calm w" "small_values w"
      "c_slot (th_conn ?t) < MAX_CONN"
    using sim_slot [of J w "map th_conn ts" order i] assms(1) i by (auto simp: threads_sim_def)
  show ?thesis
  proof (cases "th_cur ?t")
    case (Some bn)
    then show ?thesis using own_step_cleans [OF assms(5) False assms(4) _ c(1,2)] assms(3) by (cases bn) fastforce
  next
    case None
    obtain s where s: "sb_holds_raw (th_qb ?t) s" "length (s @ received (th_in ?t)) < size_mod"
        "wss = asks (s @ received (th_in ?t))" "short_lines (s @ received (th_in ?t))"
      using assms(5) None by (auto simp: reads_def)
    show ?thesis
    proof (cases "read_line s")
      case no: None
      then show ?thesis
        using own_step_reads [OF assms(5) False assms(4) None s(1) _ s(3,2) c(4) s(4)] assms(3)
        by (auto simp: read_line_None)
    next
      case (Some lx)
      obtain l x where "read_line s = Some (l, x)" using Some by (cases lx) auto
      from own_step_parses [OF assms(5) False assms(4) None s(1) this s(3,2,4) c(3-6,1,2)] assms(3)
      show ?thesis by auto
    qed
  qed
qed

text \<open>When all threads are at rest, the order that the simulation has found is an order of all lines.\<close>

lemma waiting_serial:
  assumes J: "threads_sim J all w ts order" and "all_waiting (w, ts)"
  shows "\<exists>rs s. serial order (j_start J) = (rs, s) \<and> fst ` set order \<subseteq> {..<length all} \<and> db_map w = s_dbs s \<and>
    (\<forall>i < length all. only i order = all ! i \<and> sent (j_fds J ! i) w = j_out J i @ map resp_encode (only i rs))"
proof -
  have l: "length ts = length all" using J by (simp add: threads_sim_def)
  from J obtain rs s gs where st: "serial order (j_start J) = (rs, s)" "world_sim w s"
      "\<And>i. i < length ts \<Longrightarrow> conn_sim J i w s order rs (th_conn (ts ! i)) (gs i)" "fst ` set order \<subseteq> {..<length ts}"
    unfolding threads_sim_def sim_def by auto
  have "only i order = all ! i \<and> sent (j_fds J ! i) w = j_out J i @ map resp_encode (only i rs)" if i: "i < length all" for i
  proof -
    have wt: "c_now (th_conn (ts ! i)) = None" "own_step w (ts ! i) = Inr None"
      using assms(2) i l by (auto simp: all_waiting_def)
    obtain wss where wss: "all ! i = j_words J ! i @ wss" "reads (ts ! i) wss"
      using J i l by (auto simp: threads_sim_def)
    have "wss = []" using waiting_reads_nothing [OF J _ wt(2,1) wss(2)] i l by simp
    moreover have c: "conn_sim J i w s order rs (th_conn (ts ! i)) (gs i)" using st(3) i l by simp
    then have "gs i = Idle" using wt(1) by (cases "gs i") (auto simp: conn_sim_def)
    moreover have "c_todo (th_conn (ts ! i)) = []" using wss(2) by (simp add: reads_def)
    ultimately show ?thesis
      using c wss(1) by (simp add: conn_sim_def)
  qed
  with st(1,2,4) l world_simD(4) [OF st(2)] show ?thesis by metis
qed

section \<open>The properties\<close>

lemma sim_no_crash:
  assumes "sim J w cs order" and "\<not> j_gets J"
  shows "well_locked cs \<and> \<not> crashed (w, cs)"
proof -
  have "c_now c \<noteq> Some (Broken u)" if c: "c \<in> set cs" for c u
  proof
    assume b: "c_now c = Some (Broken u)"
    obtain i where i: "i < length cs" "c = cs ! i" using c by (auto simp: in_set_conv_nth)
    then obtain s rs p where "conn_sim J i w s order rs c p"
      using assms(1) unfolding sim_def by auto
    with b assms(2) show False by (cases p) (auto simp: conn_sim_def not_broken)
  qed
  then show ?thesis using assms(1) by (auto simp: crashed_def sim_def)
qed

lemma streams_no_crash:
  assumes "opened w ins" and "\<forall>ws \<in> set (concat (asked ins)). command_of ws \<noteq> CMD_GET"
    and "work_run (w, map (thread_of w) ins) r"
  shows "\<not> crashed (conns_of r) \<and> well_locked (map th_conn (snd r))"
proof -
  obtain J order where J: "threads_sim J (asked ins) (fst r) (snd r) order" "J = (streams_job w ins)\<lparr>j_words := j_words J\<rparr>"
    using work_run_sim [OF assms(3), of "streams_job w ins" "asked ins" "[]"] opened_threads [OF assms(1)]
      asked_plain [OF assms(1)] by auto
  have "\<not> j_gets J" using assms(2) by (subst J(2)) (auto simp: streams_job_def)
  moreover have "sim J (fst r) (map th_conn (snd r)) order" using J(1) by (simp add: threads_sim_def)
  ultimately show ?thesis using sim_no_crash by blast
qed

lemma streams_finish:
  assumes "opened w ins" and "\<forall>ws \<in> set (concat (asked ins)). command_of ws \<noteq> CMD_GET"
    and "work_run (w, map (thread_of w) ins) r"
  shows "\<exists>r'. work_run r r' \<and> all_waiting r'"
proof -
  obtain r' where r': "work_run r r'" "\<And>u. \<not> work_step r' u" using work_run_ends by blast
  have "work_run (w, map (thread_of w) ins) r'" using assms(3) r'(1) by (rule rtranclp_trans)
  from streams_no_crash [OF assms(1,2) this] have "all_waiting r'"
    using work_progress [of "snd r'" "fst r'"] r'(2) by auto
  with r'(1) show ?thesis by blast
qed

text \<open>A sample stream.\<close>

lemma sample_incr_line: "fst (lines_of (''INCR k'' @ CRLF)) = [''INCR k'']" "words (''INCR k'' @ CRLF) = [''INCR'', ''k'']"
proof -
  have "read_line (''INCR k'' @ CRLF) = Some (''INCR k'', [])" "\<not> has_crlf []"
    by (simp_all add: CRLF_def char_consts)
  then show "fst (lines_of (''INCR k'' @ CRLF)) = [''INCR k'']" by (simp add: lines_of_simps)
qed (simp add: words_def CRLF_def is_delim_def char_consts cut_def)

lemma sample_asks: "asks (''INCR k'' @ CRLF) = [[''INCR'', ''k'']]"
  unfolding asks_def sample_incr_line(1) by (simp only: list.map sample_incr_line(2))

lemma sample_stream: "stream_ok (''INCR k'' @ CRLF)"
proof -
  have "short_lines (''INCR k'' @ CRLF)" unfolding short_lines_def sample_incr_line(1) by simp
  moreover have "\<forall>ws \<in> set (asks (''INCR k'' @ CRLF)). plain ws" unfolding sample_asks using plain_samples(1) by simp
  moreover have "length (''INCR k'' @ CRLF) < size_mod" by (simp add: size_mod_def CRLF_def)
  ultimately show ?thesis unfolding stream_ok_def by blast
qed

text \<open>
The streams of all connections are answered as one.  Whatever pieces \<open>recv\<close> delivers to the threads,
wherever each stream ends, and however the threads are interleaved, when they all wait for more input
or have ended there is an order of the complete lines of all streams, with the lines of each stream
in the order they came, such that executing them one after the other on the abstract server gives the
databases and, for each socket, exactly the replies that were sent to it.
\<close>
lemma streams_serialise:
  assumes "opened w ins" and "work_run (w, map (thread_of w) ins) (w', ts)" and "all_waiting (w', ts)"
  shows "\<exists>order rs s. serial order (server_of w ins) = (rs, s) \<and> fst ` set order \<subseteq> {..<length ins} \<and>
    db_map w' = s_dbs s \<and>
    (\<forall>i < length ins. only i order = asks (received (snd (ins ! i))) \<and>
       sent (sock_at w (ins ! i)) w' = sent (sock_at w (ins ! i)) w @ map resp_encode (only i rs))"
proof -
  obtain J order where J: "threads_sim J (asked ins) w' ts order" "J = (streams_job w ins)\<lparr>j_words := j_words J\<rparr>"
    using work_run_sim [OF assms(2), of "streams_job w ins" "asked ins" "[]"] opened_threads [OF assms(1)]
      asked_plain [OF assms(1)] by auto
  have jf: "j_start J = server_of w ins" "\<And>i. i < length ins \<Longrightarrow> j_fds J ! i = sock_at w (ins ! i)"
    "\<And>i. i < length ins \<Longrightarrow> j_out J i = sent (sock_at w (ins ! i)) w"
    by (subst J(2); simp add: streams_job_def job_of_def server_of_def sock_at_def)+
  from waiting_serial [OF J(1) assms(3)] show ?thesis
    unfolding jf(1) by (auto simp: jf(2,3) asked_def)
qed

text \<open>
The threads get through their input.  No run of threads goes on for ever, in any state of the server
and whatever fails; and threads whose streams hold no GET never run into undefined behaviour, and every
run of them can be continued until each thread waits for more input or has ended, so that no line is
left unanswered.
\<close>
lemma streams_complete:
  assumes "opened w ins" and "\<forall>ws \<in> set (concat (asked ins)). command_of ws \<noteq> CMD_GET"
    and "work_run (w, map (thread_of w) ins) r"
  shows "wfP (\<lambda>r' r. work_step r r') \<and> \<not> crashed (conns_of r) \<and> (\<exists>r'. work_run r r' \<and> all_waiting r')"
  using wf_work_step streams_no_crash [OF assms] streams_finish [OF assms] by blast

end
