(* ===== verification/Snapshots.thy ===== *)
theory Snapshots
  imports Concurrent Effects
begin

text \<open>
  What a \<open>SAVE\<close> writes while other connections go on.  The save takes the locks of all buckets for
  reading before it reads the first table and releases them after the last one, so no other
  connection can store or remove anything in between: the snapshot is the contents of all sixteen
  tables at one moment of the run.  The invariant says for every connection that whatever it
  will still write to a file is the tables of a past state, or that it holds all the locks and would
  write the present tables, or that it has not begun to read.
\<close>

section \<open>Who changes the tables\<close>

abbreviation same_tables :: "World \<Rightarrow> World \<Rightarrow> bool" where
  "same_tables w w' \<equiv> db_tables w' = db_tables w"

lemma db_tables_server: "server w' = server w \<Longrightarrow> db_tables w' = db_tables w"
  by (simp add: db_tables_def)

interpretation st: effect same_tables
  by unfold_locales (auto simp: sys_send_def sys_close_def split: list.splits option.splits bool.splits
      intro!: db_tables_server)

text \<open>Everything a program does of its own leaves the tables alone: only \<open>Store\<close>, \<open>Remove\<close> and \<open>Restore\<close> change them.\<close>

primrec keeps_tables :: "prog \<Rightarrow> bool" where
  "keeps_tables (Return rc rp) = True"
| "keeps_tables (Broken u) = True"
| "keeps_tables (Take l m p) = keeps_tables p"
| "keeps_tables (Release l p) = keeps_tables p"
| "keeps_tables (Find d key f) = (\<forall>v. keeps_tables (f v))"
| "keeps_tables (Deref d key p) = keeps_tables p"
| "keeps_tables (Free p) = keeps_tables p"
| "keeps_tables (Store d key v p) = keeps_tables p"
| "keeps_tables (Remove d key f) = (\<forall>v. keeps_tables (f v))"
| "keeps_tables (Restore path p) = keeps_tables p"
| "keeps_tables (Scan d f) = (\<forall>t. keeps_tables (f t))"
| "keeps_tables (Chain d i f) = (\<forall>b. keeps_tables (f b))"
| "keeps_tables (Dump path ts p) = keeps_tables p"
| "keeps_tables (Own g f) = ((\<forall>w. handled_ok same_tables w (g w)) \<and> (\<forall>rc rp. keeps_tables (f rc rp)))"

lemma keeps_answer:
  "keeps_tables (answer (\<lambda>w. reply_ok w rp k))" "keeps_tables (answer (\<lambda>w. reply_err w rp k m))"
  "keeps_tables (answer (\<lambda>w. reply_integer w rp k n))" "keeps_tables (answer (\<lambda>w. reply_bulk_str w rp cp k (v w)))"
  by (simp_all add: answer_def st.replies_R)

lemma keeps_lists [simp]:
  "keeps_tables (take_all ls m p) = keeps_tables p" "keeps_tables (release_all ls p) = keeps_tables p"
  by (induction ls) auto

lemma keeps_scan [simp]: "(\<And>ts. keeps_tables (f ts)) \<Longrightarrow> keeps_tables (scan_all ds ts f)"
  by (induction ds arbitrary: ts) auto

lemma keeps_save: "keeps_tables p \<Longrightarrow> keeps_tables (rdb_save_steps pathp p)"
  by (simp add: rdb_save_steps_def Let_def rdb_open_def handled_ok_def)

lemma keeps_count [simp]: "(\<And>n. keeps_tables (f n)) \<Longrightarrow> keeps_tables (count_all d is n f)"
  by (induction "is" arbitrary: n) auto

lemma keeps_info: "handled_ok same_tables w (info_size sel keys rp w)"
  by (auto simp: info_size_def handled_ok_def split: prod.splits bool.splits)

lemma keeps_quit:
  "handled_ok same_tables w (case sys_close w fd of (rc, w) \<Rightarrow> Inr (rc, rp, w))"
  "handled_ok same_tables w (Inr (rc, rp, put_client k c w))" "handled_ok same_tables w (Inr (rc, rp, add_clients n w))"
  using st.R_close by (auto simp: handled_ok_def split: prod.splits)

lemma begun_keeps:
  assumes "dispatch_steps cmd w k = Inr (w', p)"
  shows "same_tables w w' \<and> keeps_tables p"
proof -
  have n: "reply_new w = (r, u) \<Longrightarrow> \<exists>m. u = w\<lparr>w_mem := m\<rparr>" for r u
    by (auto simp: reply_new_def split: prod.splits bool.splits)
  show ?thesis
    using assms
    by (auto simp: dispatch_steps_def get_steps_def set_steps_def del_steps_def incr_steps_def select_steps_def
        quit_steps_def save_steps_def load_steps_def info_steps_def wrong_args_steps_def res_bind_eq_Inr Let_def keeps_save keeps_answer
        keeps_info keeps_quit st.replies_R intro!: keeps_count elim!: begun_cases dest!: n
        split: prod.splits CmdCode.splits if_splits option.splits)
qed


lemma begin_keeps: "begin_cmd cmd w k = (w', p) \<Longrightarrow> same_tables w w' \<and> keeps_tables p"
  using begun_keeps [of cmd w k] by (auto simp: begin_cmd_def split: if_splits sum.splits)

lemma advance_keeps: "advance w p h q = Inr (w', p', h', q') \<Longrightarrow> keeps_tables p \<Longrightarrow> keeps_tables p'"
  by (cases p) (auto simp: Let_def res_bind_eq_Inr split: if_splits)

text \<open>A node changes the tables only at a bucket that its connection has locked for writing.\<close>

definition changes_locked :: "World \<Rightarrow> held \<Rightarrow> World \<Rightarrow> bool" where
  "changes_locked w h w' \<longleftrightarrow> length (db_tables w') = length (db_tables w) \<and>
     (db_tables w' = db_tables w \<or>
        (\<exists>d key. d < length (db_tables w) \<and> (BucketLock d (hash_fn key), True) \<in> set h))"

lemma table_of_length: "table_of w d = Inr t \<Longrightarrow> d < length (db_tables w)"
  by (auto simp: table_of_def db_tables_def split: option.splits if_splits)

lemma advance_tables:
  assumes "advance w p h q = Inr (w', p', h', q')" and "keeps_tables p" and "lock_ok p h" and "length (db_tables w) = NUM_DBS"
  shows "changes_locked w h w'"
proof (cases "\<exists>path p0. p = Restore path p0")
  case True
  with assms have l: "load_keeps w w'" and "(BucketLock 0 (hash_fn []), True) \<in> set h"
    by (auto simp: res_bind_eq_Inr NUM_DBS_def dest!: rdb_load_keeps)
  moreover have "0 < length (db_tables w)" using assms(4) by (simp add: NUM_DBS_def)
  ultimately show ?thesis unfolding changes_locked_def load_keeps_def by blast
next
  case False
  with assms(1-3) show ?thesis
    by (cases p)
      (auto simp: changes_locked_def Let_def res_bind_eq_Inr find_key_def store_key_def remove_key_def scan_table_def
        walk_bucket_def write_dump_def dest: table_of_length dest!: handled_okD split: if_splits)
qed

section \<open>What a program may still write\<close>

text \<open>Every snapshot that the program can write, whatever it reads, satisfies \<open>P\<close>.\<close>

primrec dumps :: "(HashTable list \<Rightarrow> bool) \<Rightarrow> prog \<Rightarrow> bool" where
  "dumps P (Return rc rp) = True"
| "dumps P (Broken u) = True"
| "dumps P (Take l m p) = dumps P p"
| "dumps P (Release l p) = dumps P p"
| "dumps P (Find d key f) = (\<forall>v. dumps P (f v))"
| "dumps P (Deref d key p) = dumps P p"
| "dumps P (Free p) = dumps P p"
| "dumps P (Store d key v p) = dumps P p"
| "dumps P (Remove d key f) = (\<forall>v. dumps P (f v))"
| "dumps P (Restore path p) = dumps P p"
| "dumps P (Scan d f) = (\<forall>t. dumps P (f t))"
| "dumps P (Chain d i f) = (\<forall>b. dumps P (f b))"
| "dumps P (Dump path ts p) = (P ts \<and> dumps P p)"
| "dumps P (Own g f) = (\<forall>rc rp. dumps P (f rc rp))"

text \<open>The program changes nothing, and writes \<open>T\<close> if the tables are \<open>T\<close> until it releases its first lock.\<close>

primrec snaps :: "HashTable list \<Rightarrow> prog \<Rightarrow> bool" where
  "snaps T (Return rc rp) = True"
| "snaps T (Broken u) = True"
| "snaps T (Take l m p) = snaps T p"
| "snaps T (Release l p) = dumps (\<lambda>ts. ts = T) p"
| "snaps T (Find d key f) = False"
| "snaps T (Deref d key p) = snaps T p"
| "snaps T (Free p) = snaps T p"
| "snaps T (Store d key v p) = False"
| "snaps T (Remove d key f) = False"
| "snaps T (Restore path p) = False"
| "snaps T (Scan d f) = (d < length T \<and> snaps T (f (T ! d)))"
| "snaps T (Chain d i f) = (\<forall>b. snaps T (f b))"
| "snaps T (Dump path ts p) = (ts = T \<and> snaps T p)"
| "snaps T (Own g f) = (\<forall>rc rp. snaps T (f rc rp))"

text \<open>A program that neither looks up nor changes a key, as that of a save: it has no effect on the databases.\<close>

primrec settled :: "prog \<Rightarrow> bool" where
  "settled (Return rc rp) = True"
| "settled (Broken u) = True"
| "settled (Take l m p) = settled p"
| "settled (Release l p) = settled p"
| "settled (Find d key f) = False"
| "settled (Deref d key p) = settled p"
| "settled (Free p) = settled p"
| "settled (Store d key v p) = False"
| "settled (Remove d key f) = False"
| "settled (Restore path p) = False"
| "settled (Scan d f) = (\<forall>t. settled (f t))"
| "settled (Chain d i f) = (\<forall>b. settled (f b))"
| "settled (Dump path ts p) = settled p"
| "settled (Own g f) = (\<forall>rc rp. settled (f rc rp))"

lemma settled_lists [simp]:
  "settled (take_all ls m p) = settled p" "settled (release_all ls p) = settled p" "settled (answer g)"
  by (induction ls) (auto simp: answer_def)

lemma settled_scan: "(\<And>ts. settled (f ts)) \<Longrightarrow> settled (scan_all ds ts f)"
  by (induction ds arbitrary: ts) auto

lemma settled_save: "settled p \<Longrightarrow> settled (rdb_save_steps pathp p)"
  by (simp add: rdb_save_steps_def Let_def settled_scan)

lemma dumps_mono: "dumps P p \<Longrightarrow> (\<And>ts. P ts \<Longrightarrow> Q ts) \<Longrightarrow> dumps Q p"
  by (induction p) auto

lemma dumps_lists [simp]:
  "dumps P (take_all ls m p) = dumps P p" "dumps P (release_all ls p) = dumps P p" "dumps P (answer g)"
  by (induction ls) (auto simp: answer_def)

lemma snaps_take_all [simp]: "snaps T (take_all ls m p) = snaps T p"
  by (induction ls) auto

lemma snaps_scan_all:
  "n \<le> length T \<Longrightarrow> snaps T (f T) \<Longrightarrow> snaps T (scan_all [n..<length T] (take n T) f)"
proof (induction n rule: inc_induct)
  case (step n)
  then show ?case by (simp add: upt_conv_Cons take_Suc_conv_app_nth)
qed simp

lemma snaps_save:
  assumes "length T = NUM_DBS" and "snaps T p" and "dumps (\<lambda>ts. ts = T) p"
  shows "snaps T (rdb_save_steps pathp p)"
proof -
  obtain l ls where l: "bucket_locks = l # ls"
  proof -
    have "BucketLock 0 0 \<in> set bucket_locks" by (simp add: NUM_DBS_def NUM_BUCKETS_def)
    with that show ?thesis by (cases bucket_locks) auto
  qed
  have "snaps T (release_all bucket_locks (Dump path T p))" for path
    unfolding l using assms(3) by simp
  then have "snaps T (scan_all [0..<NUM_DBS] [] (\<lambda>ts. release_all bucket_locks (Dump path ts p)))" for path
    using snaps_scan_all [of 0 T "\<lambda>ts. release_all bucket_locks (Dump path ts p)"] assms(1) by simp
  with assms(2) show ?thesis
    by (auto simp: rdb_save_steps_def Let_def)
qed

lemma snaps_answer [simp]: "snaps T (answer g)"
  by (simp add: answer_def)

lemma dumps_count: "(\<And>n. dumps P (f n)) \<Longrightarrow> dumps P (count_all d is n f)"
  by (induction "is" arbitrary: n) auto

lemma info_dumps: "info_steps w cmd k rp = Inr (w', p) \<Longrightarrow> dumps P p"
  by (auto simp: info_steps_def wrong_args_steps_def res_bind_eq_Inr Let_def intro!: dumps_count elim!: begun_cases split: if_splits)

lemma begun_dumps:
  assumes "begin_cmd cmd w k = (w', p)"
  shows "(\<forall>P. dumps P p) \<or> (settled p \<and> (\<forall>T. length T = NUM_DBS \<longrightarrow> snaps T p))"
  using assms
  by (auto simp: begin_cmd_def dispatch_steps_def get_steps_def set_steps_def del_steps_def incr_steps_def
      select_steps_def quit_steps_def save_steps_def load_steps_def wrong_args_steps_def res_bind_eq_Inr Let_def snaps_save settled_save
      dest: info_dumps elim!: begun_cases split: prod.splits CmdCode.splits if_splits option.splits sum.splits)

lemma advance_dumps: "advance w p h q = Inr (w', p', h', q') \<Longrightarrow> dumps P p \<Longrightarrow> dumps P p'"
  by (cases p) (auto simp: Let_def res_bind_eq_Inr split: if_splits)

lemma advance_settled: "advance w p h q = Inr (w', p', h', q') \<Longrightarrow> settled p \<Longrightarrow> settled p'"
  by (cases p) (auto simp: Let_def res_bind_eq_Inr split: if_splits)

lemma advance_snaps:
  assumes "advance w p h q = Inr (w', p', h', q')" and "snaps T p" and "db_tables w = T"
  shows "dumps (\<lambda>ts. ts = T) p' \<or> (snaps T p' \<and> fst ` set h \<subseteq> fst ` set h')"
proof -
  have "table_of w d = Inr t \<Longrightarrow> d < length T \<Longrightarrow> t = T ! d" for d t
    using assms(3) by (auto simp: table_of_def db_tables_def split: option.splits if_splits)
  with assms show ?thesis
    by (cases p) (auto simp: Let_def res_bind_eq_Inr scan_table_def walk_bucket_def split: if_splits)
qed


section \<open>The invariant\<close>

text \<open>The tables of a state between the start and the present one.\<close>

definition past :: "conf \<Rightarrow> conf \<Rightarrow> HashTable list \<Rightarrow> bool" where
  "past r0 r ts \<longleftrightarrow> (\<exists>r1. conn_run r0 r1 \<and> conn_run r1 r \<and> ts = db_tables (fst r1))"

text \<open>
  A connection never dumps, or has no effect on the databases and is at one of three points: it will only write what satisfies \<open>P\<close>, or
  it holds all locks and would write the present tables, or it has not begun to read.
\<close>

definition conn_snap :: "(HashTable list \<Rightarrow> bool) \<Rightarrow> World \<Rightarrow> Conn \<Rightarrow> bool" where
  "conn_snap P w c \<longleftrightarrow>
     (\<forall>p. c_now c = Some p \<longrightarrow> keeps_tables p \<and>
        ((\<forall>P'. dumps P' p) \<or>
         settled p \<and> (dumps P p \<or> (all_locked (c_held c) \<and> snaps (db_tables w) p) \<or>
           (\<forall>T. length T = NUM_DBS \<longrightarrow> snaps T p))))"

text \<open>\<open>P i\<close> are the states of the tables that the connection \<open>i\<close> may have seen.\<close>

definition snap_inv :: "(nat \<Rightarrow> HashTable list \<Rightarrow> bool) \<Rightarrow> conf \<Rightarrow> bool" where
  "snap_inv P r \<longleftrightarrow> well_locked (snd r) \<and> length (db_tables (fst r)) = NUM_DBS \<and>
     (\<forall>i < length (snd r). conn_snap (P i) (fst r) (snd r ! i))"

text \<open>A connection that saves may have seen in \<open>Q\<close> what it may have seen in \<open>P\<close>, and the present tables.\<close>

definition sees :: "(nat \<Rightarrow> HashTable list \<Rightarrow> bool) \<Rightarrow> conf \<Rightarrow> (nat \<Rightarrow> HashTable list \<Rightarrow> bool) \<Rightarrow> bool" where
  "sees P r Q \<longleftrightarrow> (\<forall>i < length (snd r). \<forall>p. c_now (snd r ! i) = Some p \<longrightarrow> settled p \<longrightarrow>
     Q i (db_tables (fst r)) \<and> (\<forall>ts. P i ts \<longrightarrow> Q i ts))"

lemma past_now: "conn_run r0 r \<Longrightarrow> past r0 r (db_tables (fst r))"
  unfolding past_def by blast

lemma past_step: "past r0 r ts \<Longrightarrow> conn_step r r' \<Longrightarrow> past r0 r' ts"
  by (auto simp: past_def intro: rtranclp.rtrancl_into_rtrancl)

text \<open>A connection that does not move keeps its part of the invariant.\<close>

lemma conn_snap_frame:
  assumes "conn_snap P w c" and "\<And>p ts. c_now c = Some p \<Longrightarrow> settled p \<Longrightarrow> P ts \<Longrightarrow> Q ts"
    and "all_locked (c_held c) \<longrightarrow> db_tables w' = db_tables w"
  shows "conn_snap Q w' (dangle q c)"
proof -
  have "dumps P p \<Longrightarrow> dumps Q p" if "c_now c = Some p" "settled p" for p
    by (erule dumps_mono) (rule assms(2) [OF that])
  with assms(1,3) show ?thesis unfolding conn_snap_def by (metis dangle_simps(3,4))
qed

lemma locked_tables_same:
  assumes "well_locked cs" and "i < length cs" and "j < length cs" and "i \<noteq> j" and "length (db_tables w) = NUM_DBS"
    and "changes_locked w (c_held (cs ! i)) w'" and "all_locked (c_held (cs ! j))"
  shows "db_tables w' = db_tables w"
proof (rule ccontr)
  assume "db_tables w' \<noteq> db_tables w"
  then obtain d key where d: "d < NUM_DBS" "(BucketLock d (hash_fn key), True) \<in> set (c_held (cs ! i))"
    using assms(5,6) by (auto simp: changes_locked_def)
  then have "BucketLock d (hash_fn key) \<in> fst ` set (c_held (cs ! j))"
    using assms(7) by (auto simp: all_locked_def)
  with d(2) assms(1-4) show False
    by (force simp: well_locked_def exclusive_def held_by_def)
qed

lemma snap_inv_update:
  assumes inv: "snap_inv P (w, cs)" and PQ: "sees P (w, cs) Q" and wl: "well_locked ((map (dangle q) cs)[i := c'])"
    and i: "i < length cs" and "changes_locked w (c_held (cs ! i)) w'" and "conn_snap (Q i) w' c'"
  shows "snap_inv Q (w', (map (dangle q) cs)[i := c'])"
proof -
  have "conn_snap (Q j) w' ((map (dangle q) cs)[i := c'] ! j)" if j: "j < length cs" for j
  proof (cases "j = i")
    case False
    have "all_locked (c_held (cs ! j)) \<longrightarrow> db_tables w' = db_tables w"
      using locked_tables_same [OF _ i j _ _ assms(5)] inv False by (auto simp: snap_inv_def)
    moreover have "conn_snap (P j) w (cs ! j)" using inv j by (simp add: snap_inv_def)
    moreover have "c_now (cs ! j) = Some p \<Longrightarrow> settled p \<Longrightarrow> P j ts \<Longrightarrow> Q j ts" for p ts
      using PQ j by (simp add: sees_def)
    ultimately show ?thesis
      using conn_snap_frame [of "P j" w "cs ! j" "Q j" w' q] False j by simp
  qed (use assms(6) i in simp)
  moreover have "length (db_tables w') = NUM_DBS" using assms(5) inv by (simp add: changes_locked_def snap_inv_def)
  ultimately show ?thesis
    using wl by (simp add: snap_inv_def)
qed

text \<open>A connection begins a command, or changes in a way that has nothing to do with the tables.\<close>

lemma snap_inv_still:
  assumes "snap_inv P (w, cs)" and "sees P (w, cs) Q" and "well_locked (cs[i := c'])" and "i < length cs"
    and "db_tables w' = db_tables w" and "conn_snap (Q i) w' c'"
  shows "snap_inv Q (w', cs[i := c'])"
  using snap_inv_update [OF assms(1,2), where q = "\<lambda>q. q" and i = i and c' = c' and w' = w'] assms(3-6)
  by (simp add: changes_locked_def)

lemma conn_snap_begins:
  assumes "begin_cmd cmd w k = (w', p)"
  shows "conn_snap P u (c\<lparr>c_now := Some p\<rparr>)"
  using begin_keeps [OF assms] begun_dumps [OF assms] by (auto simp: conn_snap_def)

text \<open>A node is crossed.\<close>

lemma snap_advance:
  assumes "conn_snap P w c" and "c_now c = Some p" and PQ: "settled p \<Longrightarrow> Q (db_tables w) \<and> (\<forall>ts. P ts \<longrightarrow> Q ts)"
    and len: "length (db_tables w) = NUM_DBS" and lock: "lock_ok p (c_held c)"
    and adv: "advance w p (c_held c) (c_ptr c) = Inr (w', p', h', q')"
  shows "conn_snap Q w' (c\<lparr>c_now := Some p', c_held := h', c_ptr := q'\<rparr>)"
proof -
  have k: "keeps_tables p" using assms(1,2) by (simp add: conn_snap_def)
  show ?thesis
  proof (cases "\<forall>P'. dumps P' p")
    case True
    then show ?thesis using advance_keeps [OF adv k] advance_dumps [OF adv] by (simp add: conn_snap_def)
  next
    case False
    then have s: "settled p" using assms(1,2) by (auto simp: conn_snap_def)
    have pn: "dumps (\<lambda>ts. ts = db_tables w) p' \<Longrightarrow> dumps Q p'"
      using PQ [OF s] by (auto elim!: dumps_mono)
    have moving: "dumps Q p' \<or> (all_locked h' \<and> snaps (db_tables w') p')"
      if "all_locked (c_held c)" "snaps (db_tables w) p"
    proof -
      have "db_tables w' = db_tables w"
        using adv that(2) k by (cases p) (auto simp: Let_def res_bind_eq_Inr scan_table_def walk_bucket_def
          write_dump_def dest!: handled_okD split: if_splits)
      with advance_snaps [OF adv that(2) refl] that(1) pn show ?thesis by (auto simp: all_locked_def)
    qed
    from assms(1,2) False consider "dumps P p" | "all_locked (c_held c)" "snaps (db_tables w) p"
      | "\<forall>T. length T = NUM_DBS \<longrightarrow> snaps T p"
      by (auto simp: conn_snap_def)
    then have "dumps Q p' \<or> (all_locked h' \<and> snaps (db_tables w') p') \<or> (\<forall>T. length T = NUM_DBS \<longrightarrow> snaps T p')"
    proof cases
      case 1
      have "dumps Q p'" using dumps_mono [OF advance_dumps [OF adv 1], of Q] PQ [OF s] by blast
      then show ?thesis ..
    next
      case 2
      with moving show ?thesis by blast
    next
      case 3
      show ?thesis
      proof (cases "all_locked (c_held c)")
        case True
        with moving 3 len show ?thesis by blast
      next
        case False
        then show ?thesis
          using adv 3 lock len pn by (cases p) (auto simp: Let_def res_bind_eq_Inr split: if_splits)
      qed
    qed
    then show ?thesis
      using advance_keeps [OF adv k] advance_settled [OF adv s] by (simp add: conn_snap_def)
  qed
qed

lemma snap_inv_step:
  assumes "conn_step r r'" and "snap_inv P r" and "sees P r Q"
  shows "snap_inv Q r'"
proof -
  have wl: "well_locked (snd r')"
    using conn_step_locked [OF assms(1)] assms(2) by (simp add: snap_inv_def)
  from assms(1,2,3) wl show ?thesis
  proof (induction rule: conn_step.induct)
    case (begins i cs c cmd cmds w w' p)
    have "conn_snap (Q i) w' (c\<lparr>c_now := Some p, c_todo := cmds\<rparr>)"
      using conn_snap_begins [OF begins(5)] by (simp add: conn_snap_def)
    with snap_inv_still [OF begins(6,7), where i = i and w' = w'] begins(1,8) begin_keeps [OF begins(5)] show ?case
      by simp
  next
    case (ends i cs c rc rp w)
    with snap_inv_still [OF ends(4,5), where i = i and c' = "c\<lparr>c_now := None\<rparr>" and w' = w] show ?case
      by (simp add: conn_snap_def)
  next
    case (breaks i cs c p w u)
    with snap_inv_still [OF breaks(6,7), where i = i and c' = "c\<lparr>c_now := Some (Broken u)\<rparr>" and w' = w] show ?case
      by (simp add: conn_snap_def)
  next
    case (goes i cs c p w w' p' h' q')
    have c: "conn_snap (P i) w c" "lock_ok p (c_held c)" "length (db_tables w) = NUM_DBS"
      using goes(1-3,7) well_lockedD [of cs i] by (auto simp: snap_inv_def conn_locked_def)
    then have "keeps_tables p" using goes(3) by (simp add: conn_snap_def)
    then have "changes_locked w (c_held c) w'" using advance_tables [OF goes(6) _ c(2,3)] by blast
    moreover have "settled p \<Longrightarrow> Q i (db_tables w) \<and> (\<forall>ts. P i ts \<longrightarrow> Q i ts)"
      using goes(1-3,8) by (simp add: sees_def)
    ultimately show ?case
      using snap_inv_update [OF goes(7,8) _ goes(1), where q = "loses i p" and w' = w'] goes(2,9)
        snap_advance [where Q = "Q i", OF c(1) goes(3) _ c(3,2) goes(6)]
      by auto
  qed
qed

lemma snap_inv_run:
  assumes "conn_run r0 r" and "snap_inv (\<lambda>_. past r0 r0) r0"
  shows "snap_inv (\<lambda>_. past r0 r) r"
  using assms(1)
proof (induction rule: rtranclp_induct)
  case (step r r')
  have "sees (\<lambda>_. past r0 r) r (\<lambda>_. past r0 r')"
    using past_step [OF _ step(2)] past_now [OF step(1)] by (simp add: sees_def)
  with snap_inv_step [OF step(2,3)] show ?case .
qed (use assms(2) in simp)

text \<open>What is about to be written has been seen.\<close>

lemma snap_inv_dump:
  assumes "snap_inv P r" and "i < length (snd r)" and "c_now (snd r ! i) = Some (Dump path ts p)"
    and "settled (Dump path ts p) \<Longrightarrow> P i (db_tables (fst r))"
  shows "P i ts"
proof -
  have c: "conn_snap (P i) (fst r) (snd r ! i)" "length (db_tables (fst r)) = NUM_DBS" using assms(1,2) by (simp_all add: snap_inv_def)
  show ?thesis
  proof (cases "\<forall>P'. dumps P' (Dump path ts p)")
    case True
    then have "dumps (P i) (Dump path ts p)" ..
    then show ?thesis by simp
  next
    case False
    with c(1) assms(3) have "settled (Dump path ts p)"
      "ts = db_tables (fst r) \<or> P i ts \<or> (\<forall>T. length T = NUM_DBS \<longrightarrow> ts = T)"
      by (auto simp: conn_snap_def)
    with assms(4) c(2) show ?thesis by metis
  qed
qed

lemma snap_inv_start:
  assumes "\<forall>c \<in> set cs. idle c" and "length (db_tables w) = NUM_DBS"
  shows "snap_inv P (w, cs)"
  using assms idle_locked [of cs] by (auto simp: snap_inv_def conn_snap_def idle_def)

section \<open>A save that runs alone\<close>

lemma lone_step:
  assumes "c_now (c :: Conn) = Some p" and "\<not> halted p" and "advance w p (c_held c) (c_ptr c) = Inr (w', p', h', q')"
    and "\<forall>c \<in> set cs. c_held c = []" and "\<And>i. loses i p = (\<lambda>q. q)"
  shows "conn_step (w, cs @ [c]) (w', cs @ [c\<lparr>c_now := Some p', c_held := h', c_ptr := q'\<rparr>])"
proof -
  have "may_go p []" by (cases p) auto
  then have "may_go p (c_held ((cs @ [c]) ! j))" if "j < length (cs @ [c])" "j \<noteq> length cs" for j
    using that assms(4) by (simp add: nth_append)
  then show ?thesis
    using goes [of "length cs" "cs @ [c]" c p w w' p' h' q'] assms(1-3,5) by (simp add: list_update_append)
qed

text \<open>
  The last connection comes from the program \<open>p\<close> to the program \<open>p'\<close> while the others, which hold no
  lock, do nothing; and the tables stay as they are.
\<close>

definition lone_run :: "World \<Rightarrow> prog \<Rightarrow> prog \<Rightarrow> bool" where
  "lone_run w p p' \<longleftrightarrow> (\<forall>(cs :: Conn list) (c :: Conn) u. (\<forall>c \<in> set cs. c_held c = []) \<and> c_now c = Some p \<and> db_tables u = db_tables w \<longrightarrow>
     (\<exists>c' u'. conn_run (u, cs @ [c]) (u', cs @ [c']) \<and> c_now c' = Some p' \<and> db_tables u' = db_tables w))"

lemma lone_refl: "lone_run w p p"
  unfolding lone_run_def by blast

lemma lone_trans: "lone_run w p p' \<Longrightarrow> lone_run w p' p'' \<Longrightarrow> lone_run w p p''"
  unfolding lone_run_def by (meson rtranclp_trans)

lemma lone_next:
  assumes "\<not> halted p" and "\<And>i. loses i p = (\<lambda>q. q)"
    and "\<And>u h q. db_tables u = db_tables w \<Longrightarrow> \<exists>u' h' q'. advance u p h q = Inr (u', p', h', q') \<and> db_tables u' = db_tables w"
  shows "lone_run w p p'"
  unfolding lone_run_def
proof (intro allI impI)
  fix cs :: "Conn list" and c :: Conn and u assume c: "(\<forall>c \<in> set cs. c_held c = []) \<and> c_now c = Some p \<and> db_tables u = db_tables w"
  then obtain u' h' q' where "advance u p (c_held c) (c_ptr c) = Inr (u', p', h', q')" "db_tables u' = db_tables w"
    using assms(3) by blast
  with lone_step [OF _ assms(1) _ _ assms(2)] c
  show "\<exists>c' u'. conn_run (u, cs @ [c]) (u', cs @ [c']) \<and> c_now c' = Some p' \<and> db_tables u' = db_tables w"
    by (intro exI [of _ "c\<lparr>c_now := Some p', c_held := h', c_ptr := q'\<rparr>"] exI [of _ u']) auto
qed

lemma lone_take_all: "lone_run w (take_all ls m p) p"
proof (induction ls)
  case (Cons l ls)
  have "lone_run w (take_all (l # ls) m p) (take_all ls m p)"
    by (rule lone_next) (simp_all add: Let_def fun_eq_iff)
  with Cons show ?case by (rule lone_trans [rotated])
qed (simp add: lone_refl)

lemma lone_release_all: "lone_run w (release_all ls p) p"
proof (induction ls)
  case (Cons l ls)
  have "lone_run w (release_all (l # ls) p) (release_all ls p)"
    by (rule lone_next) (simp_all add: fun_eq_iff)
  with Cons show ?case by (rule lone_trans [rotated])
qed (simp add: lone_refl)

lemma table_of_tables: "d < length (db_tables w) \<Longrightarrow> db_tables u = db_tables w \<Longrightarrow> \<exists>t. table_of u d = Inr t \<and> t = db_tables w ! d"
  by (auto simp: table_of_def db_tables_def split: option.splits)

lemma lone_scan_all: "\<forall>d \<in> set ds. d < length (db_tables w) \<Longrightarrow> \<exists>us. lone_run w (scan_all ds ts f) (f us)"
proof (induction ds arbitrary: ts)
  case (Cons d ds)
  have "lone_run w (scan_all (d # ds) ts f) (scan_all ds (ts @ [db_tables w ! d]) f)"
    by (rule lone_next) (use table_of_tables [of d w] Cons.prems in \<open>auto simp: scan_table_def fun_eq_iff\<close>)
  with Cons.IH [of "ts @ [db_tables w ! d]"] Cons.prems show ?case by (auto intro: lone_trans)
qed (auto intro: lone_refl)

lemma lone_save:
  assumes "rdb_open path w = Inr (0, None, w')" and "length (db_tables w) = NUM_DBS"
    and "c_now (c :: Conn) = Some (rdb_save_steps (Some path) p)" and cs: "\<forall>c \<in> set cs. c_held c = []"
  shows "\<exists>ts u c'. conn_run (w, cs @ [c]) (u, cs @ [c']) \<and> c_now c' = Some (Dump path ts p)"
proof -
  let ?rest = "take_all bucket_locks False (scan_all [0..<NUM_DBS] [] (\<lambda>ts. release_all bucket_locks (Dump path ts p)))"
  have t: "db_tables w' = db_tables w" using assms(1) by (auto simp: rdb_open_def split: if_splits)
  obtain ts where "lone_run w' (scan_all [0..<NUM_DBS] [] (\<lambda>ts. release_all bucket_locks (Dump path ts p)))
      (release_all bucket_locks (Dump path ts p))"
    using lone_scan_all [of "[0..<NUM_DBS]" w' "[]" "\<lambda>ts. release_all bucket_locks (Dump path ts p)"] assms(2) t by auto
  then have l: "lone_run w' ?rest (Dump path ts p)"
    by (rule lone_trans [OF lone_take_all lone_trans [OF _ lone_release_all]])
  let ?c = "c\<lparr>c_now := Some ?rest, c_held := c_held c, c_ptr := c_ptr c\<rparr>"
  have st: "conn_step (w, cs @ [c]) (w', cs @ [?c])"
    by (rule lone_step [OF assms(3) _ _ cs]) (use assms(1) in \<open>simp_all add: rdb_save_steps_def Let_def fun_eq_iff\<close>)
  from l cs have "\<exists>c' u'. conn_run (w', cs @ [?c]) (u', cs @ [c']) \<and> c_now c' = Some (Dump path ts p) \<and> db_tables u' = db_tables w'"
    unfolding lone_run_def by simp
  then obtain c' u where u: "conn_run (w', cs @ [?c]) (u, cs @ [c'])" "c_now c' = Some (Dump path ts p)" by blast
  from st u(1) have "conn_run (w, cs @ [c]) (u, cs @ [c'])" by (rule converse_rtranclp_into_rtranclp)
  with u(2) show ?thesis by blast
qed

section \<open>The property\<close>

text \<open>
C6. A snapshot is consistent.  Whatever the other connections do while a SAVE runs, and in whatever
order, the bytes it writes to its file are those of the sixteen tables as they all were at one moment
between the start of the run and the write.
\<close>
theorem snapshot_consistent:
  assumes "\<forall>c \<in> set cs. idle c"
    and "length (db_tables w) = NUM_DBS" and "conn_run (w, cs) r"
    and "c \<in> set (snd r)" and "c_now c = Some (Dump path ts p)"
  shows "\<exists>r1. conn_run (w, cs) r1 \<and> conn_run r1 r \<and>
    files (write_dump (fst r) path ts) path = Some (snapshot (db_tables (fst r1)))"
proof -
  obtain i where i: "i < length (snd r)" "c = snd r ! i" using assms(4) by (metis in_set_conv_nth)
  have "snap_inv (\<lambda>_. past (w, cs) r) r" using snap_inv_run [OF assms(3) snap_inv_start [OF assms(1,2)]] .
  then have "past (w, cs) r ts"
    using snap_inv_dump [of "\<lambda>_. past (w, cs) r" r i] i assms(5) past_now [OF assms(3)] by simp
  then show ?thesis by (auto simp: past_def write_dump_def)
qed

theorem snapshot_consistent_witness:
  "\<exists>r r1 c ts p. conn_run (sample_in [''SAVE'', ''f''], [conn_for 3 [sample_cmd [''SAVE'', ''f''] [0, 5]]]) r1 \<and>
    conn_run r1 r \<and> snd r = [c] \<and> c_now c = Some (Dump ''f'' ts p) \<and>
    files (write_dump (fst r) ''f'' ts) ''f'' = Some (snapshot (db_tables (fst r1)))"
proof -
  let ?w = "sample_in [''SAVE'', ''f'']" and ?c = "conn_for 3 [sample_cmd [''SAVE'', ''f''] [0, 5]]"
  let ?a = "answer (\<lambda>w. reply_ok w (Some r_init) 3)"
  have n: "length (db_tables ?w) = NUM_DBS"
    by (simp add: sample_in_def sample_world_def db_tables_def put_table_def zero_server_def)
  have e: "entry (sample_cmd [''SAVE'', ''f''] [0, 5]) = CMD_SAVE" "ready (sample_cmd [''SAVE'', ''f''] [0, 5]) \<noteq> 0"
    by (simp_all add: sample_cmd_def command_of_def)
  have "path_arg ?w (sample_cmd [''SAVE'', ''f''] [0, 5]) = Inr (Some ''f'')"
    by (simp add: path_arg_def sample_cmd_def tok_at_def sample_in_def block_cstr_at_def TOKENS_INIT_CAP_def NUL_def less_Suc_eq)
  then have "begin_cmd (sample_cmd [''SAVE'', ''f''] [0, 5]) ?w 3 = (?w, rdb_save_steps (Some ''f'') ?a)"
    using e by (simp add: begin_cmd_def dispatch_steps_def reply_new_calm save_steps_def)
  then have st: "conn_step (?w, [?c]) (?w, [?c\<lparr>c_now := Some (rdb_save_steps (Some ''f'') ?a), c_todo := []\<rparr>])"
    using begins [of 0 "[?c]" ?c] by (simp add: conn_for_def)
  have "rdb_open ''f'' ?w = Inr (0, None, ?w\<lparr>files := (files ?w)(''f'' := Some [])\<rparr>)"
    by (simp add: rdb_open_def) (simp add: sample_world_def put_table_def zero_server_def)
  from lone_save [OF this n, of "?c\<lparr>c_now := Some (rdb_save_steps (Some ''f'') ?a), c_todo := []\<rparr>" ?a "[]"]
  obtain ts u c' where r: "conn_run (?w, [?c\<lparr>c_now := Some (rdb_save_steps (Some ''f'') ?a), c_todo := []\<rparr>]) (u, [c'])"
      "c_now c' = Some (Dump ''f'' ts ?a)"
    by auto
  have u: "conn_run (?w, [?c]) (u, [c'])"
    by (rule converse_rtranclp_into_rtranclp [of conn_step, OF st r(1)])
  have "\<forall>c \<in> set [?c]. idle c"
    by (simp add: conn_for_def idle_def sample_cmd_def command_of_def)
  then obtain r1 where "conn_run (?w, [?c]) r1" "conn_run r1 (u, [c'])"
      "files (write_dump u ''f'' ts) ''f'' = Some (snapshot (db_tables (fst r1)))"
    using snapshot_consistent [OF _ n u _ r(2)] by auto
  with r(2) show ?thesis by (metis fst_conv snd_conv)
qed

end
