(* ===== verification/SaveThread.thy ===== *)
theory SaveThread
  imports Workers Snapshots ServerLife
begin

text \<open>
  The thread of the periodic snapshot, \<^verbatim>\<open>worker_save\<close> of \<^verbatim>\<open>server.c\<close>, next to the threads of the
  connections.  It runs the program of \<open>rdb_save\<close> with the default path, node by node, between and
  during the commands of the clients; it reads no input and sends nothing.  The lemmas split a step of all
  threads into one of the connections, which the snapshot leaves as it would be without it, and
  one of the snapshot, which the connections do not notice.
\<close>

section \<open>The thread\<close>

text \<open>One round of the loop: what comes after \<open>sleep\<close>, whose result is ignored.\<close>

definition worker_save_steps :: prog where
  "worker_save_steps = rdb_save_steps None (Return 0 None)"

text \<open>It has no socket, so its slot, which none of its nodes uses, is past the end of the array.\<close>

definition saver_conn :: "prog option \<Rightarrow> Conn" where
  "saver_conn now = \<lparr>c_slot = MAX_CONN, c_todo = [], c_now = now, c_held = [], c_ptr = Gone\<rparr>"

definition saver_thread :: "Conn \<Rightarrow> Thread" where
  "saver_thread v = \<lparr>th_conn = v, th_in = [], th_qb = \<lparr>sb_buf = [], sb_len = 0, sb_cap = 0\<rparr>,
     th_cmd = \<lparr>tokens = \<lparr>t_buf = [], t_count = 0, t_cap = 0\<rparr>, entry = CMD_UNKNOWN, ready = 0\<rparr>,
     th_cur = None, th_done = True\<rparr>"

lemma saver_thread_simps [simp]:
  "th_conn (saver_thread v) = v" "own_step w (saver_thread v) = Inr None" "(saver_thread v)\<lparr>th_conn := u\<rparr> = saver_thread u"
  by (simp_all add: saver_thread_def own_step_def Let_def)

text \<open>A round that is not interrupted is a round of \<open>worker_save\<close>.\<close>

lemma worker_save_round: "run_prog worker_save_steps w = res_bind (worker_save 1 w) (\<lambda>w. Inr (0, None, w))"
  by (simp add: worker_save_steps_def run_save_steps res_bind_assoc case_prod_unfold)

section \<open>A program that only saves\<close>

inductive saves :: "prog \<Rightarrow> bool" where
  saves_return: "saves (Return rc rp)"
| saves_files: "only_files g \<Longrightarrow> (\<And>rc rp. saves (f rc rp)) \<Longrightarrow> saves (Own g f)"
| saves_take: "saves p \<Longrightarrow> saves (Take l m p)"
| saves_release: "saves p \<Longrightarrow> saves (Release l p)"
| saves_scan: "d < NUM_DBS \<Longrightarrow> (\<And>t. saves (f t)) \<Longrightarrow> saves (Scan d f)"
| saves_dump: "saves p \<Longrightarrow> saves (Dump path ts p)"

lemma saves_lists:
  "saves p \<Longrightarrow> saves (take_all ls m p)" "saves p \<Longrightarrow> saves (release_all ls p)"
  "\<forall>d \<in> set ds. d < NUM_DBS \<Longrightarrow> (\<And>ts. saves (f ts)) \<Longrightarrow> saves (scan_all ds ts f)"
proof -
  show "saves p \<Longrightarrow> saves (take_all ls m p)" "saves p \<Longrightarrow> saves (release_all ls p)"
    by (induction ls) (auto intro: saves.intros)
  show "\<forall>d \<in> set ds. d < NUM_DBS \<Longrightarrow> (\<And>ts. saves (f ts)) \<Longrightarrow> saves (scan_all ds ts f)"
    by (induction ds arbitrary: ts) (auto intro: saves.intros)
qed

lemma saves_worker_save: "saves worker_save_steps"
  unfolding worker_save_steps_def rdb_save_steps_def Let_def
  by (intro saves_files only_files_open) (auto intro!: saves.intros saves_lists)

lemma saves_step:
  assumes "saves p" and "world_wf w" and "\<not> halted p"
  shows "\<exists>w' p' h'. advance w p h q = Inr (w', p', h', q) \<and> quiet w w' \<and> saves p'"
  using assms(1)
proof cases
  case (saves_files g f)
  then obtain rc rp fs where "g w = Inr (rc, rp, w\<lparr>files := fs\<rparr>)" unfolding only_files_def by blast
  with saves_files show ?thesis by (auto simp: quiet_def intro!: exI [of _ "[]"])
next
  case (saves_take p l m)
  then show ?thesis by (cases m) (auto simp: Let_def intro!: quiet_emit)
next
  case (saves_release p l)
  then show ?thesis by (auto intro!: quiet_emit)
next
  case (saves_dump p path ts)
  then show ?thesis by (auto simp: write_dump_def quiet_def intro!: exI [of _ "[]"])
next
  case (saves_scan d f)
  then obtain t where "table_of w d = Inr t" using table_of_wf [OF assms(2)] by blast
  with saves_scan show ?thesis by (auto simp: scan_table_def intro!: quiet_emit)
qed (use assms(3) in simp)

lemma saves_loses [simp]: "saves p \<Longrightarrow> loses i p = (\<lambda>q. q)"
  by (induction rule: saves.induct) auto

definition saver_ok :: "Conn \<Rightarrow> bool" where
  "saver_ok v \<longleftrightarrow> c_todo v = [] \<and> c_ptr v = Gone \<and> (\<forall>p. c_now v = Some p \<longrightarrow> saves p)"

lemma loses_Gone [simp]: "loses i p Gone = Gone"
  by (cases p) auto

lemma dangle_saver: "saver_ok v \<Longrightarrow> dangle (loses i p) v = v"
  by (cases v) (simp add: dangle_def saver_ok_def)

section \<open>A step of all is a step of the connections or of the snapshot\<close>

lemma conn_step_split:
  assumes "conn_step (w, cs @ [v]) (w', ds)" and v: "saver_ok v" and wf: "world_wf w"
  shows "(\<exists>cs'. ds = cs' @ [v] \<and> conn_step (w, cs) (w', cs')) \<or> (\<exists>v'. ds = cs @ [v'] \<and> quiet w w' \<and> saver_ok v')"
  using assms(1)
proof (cases rule: conn_step.cases)
  case (begins i c cmd cmds p)
  show ?thesis
  proof (cases "i < length cs")
    case True
    then show ?thesis
      using begins conn_step.begins [of i cs c cmd cmds w w' p] by (auto simp: nth_append list_update_append)
  next
    case False
    then have "i = length cs" using begins(2) by simp
    then show ?thesis using begins(3,5) v by (simp add: saver_ok_def)
  qed
next
  case (ends i c rc rp)
  show ?thesis
  proof (cases "i < length cs")
    case True
    then show ?thesis
      using ends conn_step.ends [of i cs c rc rp w] by (auto simp: nth_append list_update_append)
  next
    case False
    then have "i = length cs" using ends(3) by simp
    then show ?thesis using ends v quiet_emit [of "[]" w] by (auto simp: saver_ok_def list_update_append)
  qed
next
  case (goes i c p p' h' q')
  show ?thesis
  proof (cases "i < length cs")
    case True
    have "may_go p (c_held (cs ! j))" if "j < length cs" "j \<noteq> i" for j
      using goes(6) [of j] that by (simp add: nth_append)
    then show ?thesis
      using True goes conn_step.goes [of i cs c p w w' p' h' q'] dangle_saver [OF v]
      by (auto simp: nth_append list_update_append)
  next
    case False
    then have i: "i = length cs" using goes(2) by simp
    then have p: "saves p" "c = v" "c_ptr c = Gone" using goes(3,4) v by (auto simp: saver_ok_def)
    from saves_step [OF p(1) wf goes(5), of "c_held c" "c_ptr c"] goes(7)
    have "quiet w w'" "saves p'" "q' = Gone" using p(3) by auto
    then show ?thesis using goes i p v by (auto simp: saver_ok_def list_update_append)
  qed
next
  case (breaks i c p u)
  show ?thesis
  proof (cases "i < length cs")
    case True
    then show ?thesis
      using breaks conn_step.breaks [of i cs c p w u] by (auto simp: nth_append list_update_append)
  next
    case False
    then have "i = length cs" using breaks(3) by simp
    then have "saves p" using breaks(4,5) v by (auto simp: saver_ok_def)
    from saves_step [OF this wf breaks(6), of "c_held c" "c_ptr c"] breaks(7) show ?thesis by auto
  qed
qed

lemma set_conns_split:
  "length cs = length ts \<Longrightarrow> set_conns (ts @ [saver_thread v]) (cs @ [u]) = set_conns ts cs @ [saver_thread u]"
  by (simp add: set_conns_def)

lemma set_conns_same [simp]: "set_conns ts (map th_conn ts) = ts"
  by (intro nth_equalityI) simp_all

lemma conn_step_length: "conn_step (w, cs) (w', cs') \<Longrightarrow> length cs' = length cs"
  by (cases rule: conn_step.cases) auto

lemma runs_work: "conn_run (w, map th_conn ts) r \<Longrightarrow> length (snd r) = length ts \<and> work_run (w, ts) (fst r, set_conns ts (snd r))"
proof (induction rule: rtranclp_induct)
  case (step r r')
  then have l: "length (snd r) = length ts" "length (snd r') = length ts" 
    using conn_step_length [of "fst r" "snd r" "fst r'" "snd r'"] by simp_all
  have "work_step (fst r, set_conns ts (snd r)) (fst r', set_conns (set_conns ts (snd r)) (snd r'))"
    using step(2) l by (intro runs) simp
  moreover have "set_conns (set_conns ts (snd r)) (snd r') = set_conns ts (snd r')"
    using l by (intro nth_equalityI) simp_all
  ultimately show ?case using step(3) l by (simp add: rtranclp.rtrancl_into_rtrancl)
qed simp

lemma work_step_split:
  assumes "work_step (w, ts @ [saver_thread v]) (w', us)" and v: "saver_ok v" and wf: "world_wf w"
  shows "(\<exists>ts'. us = ts' @ [saver_thread v] \<and> work_step (w, ts) (w', ts')) \<or>
    (\<exists>v'. us = ts @ [saver_thread v'] \<and> quiet w w' \<and> saver_ok v')"
  using assms(1)
proof cases
  case (own i t')
  then have "i < length ts" by (auto simp: nth_append less_Suc_eq)
  with own show ?thesis using work_step.own [of i ts w w' t'] by (auto simp: nth_append list_update_append)
next
  case (own_ub i u)
  then have "i < length ts" by (auto simp: nth_append less_Suc_eq)
  with own_ub show ?thesis using work_step.own_ub [of i ts w u] by (auto simp: nth_append list_update_append)
next
  case (runs cs')
  from runs(2) have "conn_step (w, map th_conn ts @ [v]) (w', cs')" by simp
  from conn_step_split [OF this v wf] show ?thesis
  proof (elim disjE exE conjE)
    fix cs1 assume "cs' = cs1 @ [v]" and s: "conn_step (w, map th_conn ts) (w', cs1)"
    moreover have "length cs1 = length ts" using conn_step_length [OF s] by simp
    ultimately show ?thesis using runs(1) work_step.runs [OF s] by (simp add: set_conns_split)
  next
    fix v' assume "cs' = map th_conn ts @ [v']" "quiet w w'" "saver_ok v'"
    then show ?thesis using runs(1) by (intro disjI2) (auto simp: set_conns_split)
  qed
qed

section \<open>What the snapshots of all threads will write\<close>

lemma begin_line_snap:
  assumes "begin_line cmdp w k = (w', p)"
  shows "db_tables w' = db_tables w" "lock_ok p []" "conn_snap P u (c\<lparr>c_now := Some p\<rparr>)"
proof -
  have "(cmdp = None \<and> w' = w \<and> p = Return (-1) None) \<or> (\<exists>cmd. begin_cmd cmd w k = (w', p))"
    using assms by (auto simp: begin_line_def split: option.splits)
  then show "db_tables w' = db_tables w" "lock_ok p []" "conn_snap P u (c\<lparr>c_now := Some p\<rparr>)"
    using begin_keeps begin_lock_ok by (auto intro: conn_snap_begins) (simp add: conn_snap_def)
qed

lemma conn_snap_None: "c_now c = None \<Longrightarrow> conn_snap P u c"
  by (simp add: conn_snap_def)

lemma own_step_conn:
  assumes "own_step w t = Inr (Some (w', t'))"
  shows "c_now (th_conn t) = None \<and> db_tables w' = db_tables w \<and> c_held (th_conn t') = c_held (th_conn t) \<and>
    (\<forall>p. c_now (th_conn t') = Some p \<longrightarrow> lock_ok p []) \<and> conn_snap P u (th_conn t')"
proof -
  have e: "db_tables v = db_tables w" if "end_line w k bid qb n = Inr (r, v, qb')" for k bid qb n r v qb'
    using that by (auto simp: end_line_def res_bind_eq_Inr Let_def intro!: db_tables_server)
  have p: "db_tables v = db_tables w" if "parse_line w cmd qb n = Inr (r, v)" for cmd qb n r v
    using that by (cases "malloc (w_mem w)"; cases "fst (malloc (w_mem w))")
      (auto simp: parse_line_def res_bind_eq_Inr Let_def intro!: db_tables_server)
  note b = begin_line_snap [OF prod.collapse [symmetric]]
  show ?thesis
    using assms by (auto simp: own_step_def Let_def res_bind_eq_Inr split_beta b conn_snap_None split: if_splits option.splits list.splits recv.splits
      dest!: e p)
qed

text \<open>The invariant of the snapshots for threads, of which the connections move by steps of their own too.\<close>

lemma snap_step:
  assumes "work_step (w, ts) (w', ts')" and inv: "snap_inv P (w, map th_conn ts)" and PQ: "sees P (w, map th_conn ts) Q"
  shows "snap_inv Q (w', map th_conn ts')"
  using assms(1)
proof cases
  case (own i t')
  let ?cs = "map th_conn ts"
  note o = own_step_conn [OF own(3), of "Q i" w']
  have wl: "well_locked ?cs" "conn_locked (th_conn (ts ! i))"
    using inv own(2) well_lockedD [of ?cs i] by (auto simp: snap_inv_def)
  then have h: "c_held (th_conn (ts ! i)) = []" using o by (simp add: conn_locked_def)
  have "conn_locked (th_conn t') \<and> c_held (th_conn t') = c_held (th_conn (ts ! i)) \<and> conn_snap (Q i) w' (th_conn t')"
    using o wl(2) h by (auto simp: conn_locked_def split: option.splits)
  then have "snap_inv Q (w', ?cs[i := th_conn t'])"
    using own(2) o wl(1) by (intro snap_inv_still [OF inv PQ] well_locked_same) auto
  then show ?thesis using own(1) by (simp add: map_update)
next
  case (own_ub i u)
  let ?cs = "map th_conn ts" and ?c = "(th_conn (ts ! i))\<lparr>c_now := Some (Broken u)\<rparr>"
  have "well_locked ?cs" "conn_locked (th_conn (ts ! i))"
    using inv own_ub(3) well_lockedD [of ?cs i] by (auto simp: snap_inv_def)
  then have "snap_inv Q (w', ?cs[i := ?c])"
    using own_ub(1,3) by (intro snap_inv_still [OF inv PQ] well_locked_same) (auto simp: conn_locked_def conn_snap_def)
  then show ?thesis using own_ub(2) by (simp add: map_update)
next
  case (runs cs')
  have "length cs' = length ts" using conn_step_length [OF runs(2)] by simp
  with snap_inv_step [OF runs(2) inv PQ] runs(1) show ?thesis by simp
qed

text \<open>The snapshot thread wakes up.\<close>

lemma snap_wakes:
  assumes inv: "snap_inv P (w, cs @ [v])" and "c_now v = None" and "saver_ok v" and PP: "sees P (w, cs @ [v]) P"
  shows "snap_inv P (w, cs @ [v\<lparr>c_now := Some worker_save_steps\<rparr>])"
    "saver_ok (v\<lparr>c_now := Some worker_save_steps\<rparr>)"
proof -
  let ?v = "v\<lparr>c_now := Some worker_save_steps\<rparr>"
  have wl: "well_locked (cs @ [v])" "conn_locked v" using inv by (auto simp: snap_inv_def well_locked_def)
  then have l: "conn_locked ?v" using assms(2) lock_ok_save [of "Return 0 None" None] by (simp add: conn_locked_def worker_save_steps_def)
  have "keeps_tables worker_save_steps" unfolding worker_save_steps_def by (rule keeps_save) simp
  moreover have "length T = NUM_DBS \<Longrightarrow> snaps T worker_save_steps" for T
    unfolding worker_save_steps_def by (rule snaps_save) simp_all
  moreover have "settled worker_save_steps" unfolding worker_save_steps_def by (rule settled_save) simp
  ultimately have "conn_snap (P (length cs)) w ?v" by (simp add: conn_snap_def)
  moreover have "well_locked ((cs @ [v])[length cs := ?v])"
    using wl(1) l by (intro well_locked_same) auto
  ultimately have "snap_inv P (w, (cs @ [v])[length cs := ?v])"
    by (intro snap_inv_still [OF inv PP]) auto
  then show "snap_inv P (w, cs @ [?v])" by (simp add: list_update_append)
  show "saver_ok ?v" using assms(3) saves_worker_save by (simp add: saver_ok_def)
qed

text \<open>A connection joins, and the world changes around the tables.\<close>

lemma well_locked_insert: "well_locked (cs @ [v]) \<Longrightarrow> well_locked (cs @ [conn_for k [], v])"
proof -
  assume wl: "well_locked (cs @ [v])"
  with wl show ?thesis
    by (auto simp: well_locked_def exclusive_def held_by_def nth_append conn_locked_def conn_for_def less_Suc_eq)
qed

lemma snap_joins:
  assumes inv: "snap_inv P (w, cs @ [v])" and "db_tables w' = db_tables w"
  shows "snap_inv P (w', cs @ [v])" "P (Suc (length cs)) = P (length cs) \<Longrightarrow> snap_inv P (w', cs @ [conn_for k [], v])"
proof -
  have c: "conn_snap (P i) w' ((cs @ [v]) ! i)" if "i < Suc (length cs)" for i
    using inv assms(2) that by (simp add: snap_inv_def conn_snap_def)
  then show "snap_inv P (w', cs @ [v])" using inv assms(2) by (simp add: snap_inv_def)
  assume "P (Suc (length cs)) = P (length cs)"
  then have "conn_snap (P i) w' ((cs @ [conn_for k [], v]) ! i)" if "i < Suc (Suc (length cs))" for i
    using c [of i] c [of "length cs"] that by (auto simp: nth_append less_Suc_eq conn_snap_None)
  then show "snap_inv P (w', cs @ [conn_for k [], v])"
    using inv assms(2) well_locked_insert [of cs v k] by (simp add: snap_inv_def)
qed

section \<open>A save has taken its place in the order\<close>

text \<open>A program that has no effect is not waiting to take effect, so its connection has no command outside the order.\<close>

lemma settled_not_pending: "pending k ws d key K p \<Longrightarrow> \<not> settled p"
  by (induction rule: pending.induct) auto

lemma sim_settled:
  assumes "sim J w cs order" and "i < length cs" and "c_now (cs ! i) = Some p" and "settled p" and "c_todo (cs ! i) = []"
  shows "only i order = j_words J ! i"
proof -
  obtain s rs g where c: "conn_sim J i w s order rs (cs ! i) g"
    using assms(1,2) unfolding sim_def by blast
  have "waits_for g = []" using c assms(3,4) settled_not_pending by (cases g) (auto simp: conn_sim_def)
  with c assms(5) show ?thesis by (auto simp: conn_sim_def)
qed

lemma sim_prefix: "sim J w cs order \<Longrightarrow> i < length cs \<Longrightarrow> \<exists>later. j_words J ! i = only i order @ later"
  unfolding sim_def conn_sim_def by blast

end
