(* ===== verification/ServerRuns.thy ===== *)
theory ServerRuns
  imports ServerLife
begin

text \<open>
  Runs of the server process: what holds in every reachable state, how a run ends after \<open>SIGINT\<close>,
  what a restart brings back, and the runs that show where the bookkeeping of the connections goes
  wrong: slots are given out by the number of connections alone, so that a connection that leaves
  by \<open>QUIT\<close> makes the next one take over the slot of one that is still there, and a connection that
  just disconnects keeps its slot for ever.
\<close>

section \<open>Runs without failures\<close>

text \<open>
  A state in which nothing is failing and every thread is new: the sockets of the slots, the threads
  of the slots, the count, the id and slot of each running thread, and the next thread id.
\<close>

definition up :: "Life \<Rightarrow> int list \<Rightarrow> nat option list \<Rightarrow> nat \<Rightarrow> (nat \<times> nat) list \<Rightarrow> nat \<Rightarrow> bool" where
  "up L socks ths n ws nx \<longleftrightarrow> reachable L \<and> lf_phase L = Serving \<and> lf_running L \<and>
     calm (lf_world L) \<and> small_values (lf_world L) \<and> conns (lf_world L) = Some (socks, ths, int n) \<and>
     map (\<lambda>t. (wt_id t, wt_slot t)) (lf_threads L) = ws \<and> lf_next L = nx \<and>
     (\<forall>t \<in> set (lf_threads L). toks_wf (tokens (wt_cmd t)) \<and> sb_holds_raw (wt_buf t) [])"

lemma reachable_step: "reachable L \<Longrightarrow> life_step L L' \<Longrightarrow> reachable L'"
  unfolding reachable_def by (meson rtranclp.rtrancl_into_rtrancl)

lemma reachable_steps: "reachable L \<Longrightarrow> life_step\<^sup>*\<^sup>* L L' \<Longrightarrow> reachable L'"
  unfolding reachable_def by (meson rtranclp_trans)

lemma small_values_simps [simp]:
  "small_values (emit es w) = small_values w" "small_values (put_client k c w) = small_values w"
  "small_values (add_clients n w) = small_values w" "small_values (put_thread k t w) = small_values w"
  "small_values (w\<lparr>w_mem := m\<rparr>) = small_values w"
  by (auto simp: small_values_def db_map_def put_thread_def split: option.split)

lemma calm_put_thread [simp]: "calm (put_thread n t w) = calm w"
  by (simp add: calm_def put_thread_def)

lemma db_map_put_thread [simp]: "db_map (put_thread n t w) = db_map w"
  by (auto simp: db_map_def put_thread_def fun_eq_iff split: option.split)

lemma registered_simps:
  "w_mem w = [] \<Longrightarrow> calm (registered w n c t) = calm w" "db_map (registered w n c t) = db_map w"
  by (simp_all add: registered_def)

lemma sock_conns: "conns w = Some (socks, ths, n) \<Longrightarrow> i < length socks \<Longrightarrow> sock (client_at w i) = socks ! i"
  by (auto simp: conns_def client_at_def client_of_def)

lemma worker_start_calm:
  assumes "calm w"
  shows "\<exists>cmd qb. worker_start w = (Some (cmd, qb), w) \<and> toks_wf (tokens cmd) \<and> sb_holds_raw qb []"
proof -
  obtain cmd m where i: "cmd_init [] = (Some cmd, m)" by (simp add: cmd_init_def)
  have "sb_holds_raw \<lparr>sb_buf = fresh_block BUFSIZ, sb_len = 0, sb_cap = BUFSIZ\<rparr> []"
    by (simp add: sb_holds_raw_def sb_wf_def BUFSIZ_def size_mod_def)
  with assms i toks_wf_init [OF i] show ?thesis by (simp add: worker_start_def Let_def)
qed

lemma up_accept:
  assumes "up L socks ths n ws nx" and "n < MAX_CONN"
  shows "\<exists>L'. up L' (socks[n := fd]) (ths[n := Some nx]) (Suc n) (ws @ [(nx, n)]) (Suc nx)"
proof -
  let ?w = "lf_world L"
  have u: "reachable L" "lf_phase L = Serving" "lf_running L" "calm ?w" "small_values ?w"
      "conns ?w = Some (socks, ths, int n)" "lf_next L = nx"
    using assms(1) by (simp_all add: up_def)
  obtain s where s: "server ?w = Some s" "server_wf s" "clients_count s = int n"
    using reachable_inv [OF u(1)] u(6) by (auto simp: life_inv_def world_wf_def conns_def)
  let ?w' = "registered ?w n ((clients_array s ! n)\<lparr>sock := fd, ip := [], port := 0\<rparr>) nx"
  have a: "server_accept_client ?w (Accepted fd [] 0) (lf_next L) = Inr (0, Some n, ?w')"
    using accept_cases [OF s(1,2)] s(3) assms(2) u(4,7) by simp
  have w': "calm ?w'" "small_values ?w'"
    using u(4,5) by (simp_all add: registered_def)
  obtain cmd qb where st: "worker_start ?w' = (Some (cmd, qb), ?w')" "toks_wf (tokens cmd)" "sb_holds_raw qb []"
    using worker_start_calm [OF w'(1)] by blast
  let ?L = "L\<lparr>lf_world := ?w', lf_threads := lf_threads L @ new_thread (lf_next L) n (Some (cmd, qb)), lf_next := Suc (lf_next L)\<rparr>"
  have "life_step L ?L" by (rule accept_start [OF u(2,3) a st(1)])
  then have "reachable ?L" using u(1) by (rule reachable_step [rotated])
  then have "up ?L (socks[n := fd]) (ths[n := Some nx]) (Suc n) (ws @ [(nx, n)]) (Suc nx)"
    using assms(1) w' st u(6) by (auto simp: up_def new_thread_def conns_registered)
  then show ?thesis by blast
qed

lemma up_eof:
  assumes "up L socks ths n ws nx" and "i < length ws"
  shows "\<exists>L'. up L' socks ths n (take i ws @ drop (Suc i) ws) nx"
proof -
  let ?t = "lf_threads L ! i"
  have i: "i < length (lf_threads L)" using assms by (auto simp: up_def)
  let ?L = "L\<lparr>lf_world := lf_world L, lf_threads := after_recv (lf_threads L) i Finished (wt_cmd ?t) (wt_buf ?t)\<rparr>"
  have "life_step L ?L"
    using assms i by (intro work [where r = RecvEof and t = ?t]) (simp_all add: up_def)
  then have "reachable ?L" using assms reachable_step by (auto simp: up_def)
  then have "up ?L socks ths n (take i ws @ drop (Suc i) ws) nx"
    using assms(1) by (auto simp: up_def after_recv_def take_map drop_map dest!: in_set_takeD in_set_dropD)
  then show ?thesis by blast
qed

lemma up_quit:
  assumes "up L socks ths n ws nx" and "i < length ws" and "socks ! snd (ws ! i) \<noteq> -1"
  shows "\<exists>L'. up L' (socks[snd (ws ! i) := -1]) ths (n - 1) (take i ws @ drop (Suc i) ws) nx"
proof -
  let ?t = "lf_threads L ! i" and ?w = "lf_world L"
  let ?k = "wt_slot ?t"
  have i: "i < length (lf_threads L)" "snd (ws ! i) = ?k" using assms by (auto simp: up_def)
  have u: "reachable L" "calm ?w" "small_values ?w" "conns ?w = Some (socks, ths, int n)"
      "toks_wf (tokens (wt_cmd ?t))" "sb_holds_raw (wt_buf ?t) []"
    using assms(1) i by (auto simp: up_def)
  have inv: "life_inv L" by (rule reachable_inv [OF u(1)])
  have k: "?k < MAX_CONN" using inv i(1) nth_mem by (auto simp: life_inv_def)
  let ?c = "client_at ?w ?k"
  have c: "client_of ?w ?k = Inr ?c" "world_wf ?w"
    using client_at k inv by (simp_all add: life_inv_def)
  have "sock ?c \<noteq> -1"
    using c(1) u(4) assms(3) i(2) by (auto simp: conns_def client_of_def split: if_splits)
  moreover have cn: "conn ?w ?k ?c (wt_cmd ?t)"
    using u c k by (simp add: conn_def)
  moreover have rl: "read_line (''QUIT'' @ CRLF) = Some (''QUIT'', [])"
    by (simp add: CRLF_def char_consts)
  then have ls: "fst (lines_of (''QUIT'' @ CRLF)) = [''QUIT'']"
    using lines_of_simps(2) [OF rl] lines_of_simps(1) [of "[]"] by simp
  ultimately obtain w' c' cmd' qb' where R:
    "worker_loop ?w ?k (wt_cmd ?t) (wt_buf ?t) [RecvData (''QUIT'' @ CRLF)] =
       Inr (if sock c' = -1 then Finished else Waiting, w', cmd', qb')"
    "conn w' ?k c' cmd'" "served ?w ?k ?c (spec_run [''QUIT''] (abs_of ?w ?c)) w'"
    using worker_loop_serves [of ?w ?k ?c "wt_cmd ?t" "wt_buf ?t" "[]" "[''QUIT'' @ CRLF]"] u(6) ls
      sample_words_simps
    by (auto simp: line_ok_def data_command_def command_of_def size_mod_def CRLF_def)
  have c'1: "client_of w' ?k = Inr c'" using R(2) by (simp add: conn_def)
  then have "\<not> a_open (abs_of w' c')"
    using R(3) sample_words_simps by (auto simp: served_def spec_step_def Let_def command_of_def)
  with c'1 have c': "client_of w' ?k = Inr c'" "sock c' = -1" by simp_all
  let ?L = "L\<lparr>lf_world := w', lf_threads := after_recv (lf_threads L) i Finished cmd' qb'\<rparr>"
  from R(1) c'(2) have loop: "worker_loop ?w ?k (wt_cmd ?t) (wt_buf ?t) [RecvData (''QUIT'' @ CRLF)] = Inr (Finished, w', cmd', qb')"
    by (simp only: if_True simp_thms)
  have "lf_phase L \<noteq> Exited" using assms(1) by (simp add: up_def)
  then have "life_step L ?L" by (rule work [OF _ i(1) refl loop])
  then have "reachable ?L" using u(1) reachable_step by blast
  moreover have "left ?w ?k w'"
    using worker_recv_worked [OF R(1)] c' \<open>sock ?c \<noteq> -1\<close> c(1)
    by (auto simp: worked_def same_conns_def conns_def client_of_def split: option.splits if_splits)
      (metis nth_map)+
  then have "conns w' = Some (socks[?k := -1], ths, int n - 1)" using u(4) by (auto simp: left_def)
  moreover have "0 < n" using inv u(4) i(1) by (auto simp: life_inv_def)
  ultimately have "up ?L (socks[?k := -1]) ths (n - 1) (take i ws @ drop (Suc i) ws) nx"
    using assms(1) R(2) by (auto simp: up_def conn_def after_recv_def take_map drop_map dest!: in_set_takeD in_set_dropD)
  then show ?thesis using i(2) by auto
qed

lemma up_start: "\<exists>L. up L (replicate MAX_CONN 0) (replicate MAX_CONN None) 0 [] 0"
proof -
  let ?w = "boot_world (zero_server\<lparr>srv_port := 0, srv_addr := 0, restore := 0, srv_sock := 3\<rparr>)"
  have "boot (boot_world zero_server) ?w"
    unfolding boot_def server_create_def server_setup_def
    by (intro exI [of _ 3] exI [of _ 0] exI [of _ ?w]) (simp add: boot_world_def)
  then have "reachable (started ?w)" unfolding reachable_def by blast
  moreover have "small_values ?w"
    by (simp add: small_values_def db_map_def zero_server_def ht_lookup_empty short_value_def)
  ultimately have "up (started ?w) (replicate MAX_CONN 0) (replicate MAX_CONN None) 0 [] 0"
    by (simp add: up_def started_def conns_def) (simp add: zero_server_def zero_client_def)
  then show ?thesis by blast
qed

section \<open>The properties\<close>

text \<open>
C10. The invariant of the running server.  In every state that can be reached from a start, through
any accepts, any bytes the connections send, failures, snapshots, \<open>SIGINT\<close> and the exit: the server is
well-formed, there are at most as many threads as the connection count says and at most 512, every
thread serves a slot of the array, and accepting one more connection stays inside the arrays (its only
undefined behaviour is the unchecked \<open>malloc\<close> of the argument of the thread).
\<close>
theorem server_invariant:
  assumes "reachable L"
  shows "world_wf (lf_world L) \<and> (\<forall>t \<in> set (lf_threads L). wt_slot t < MAX_CONN) \<and>
    (\<exists>s. server (lf_world L) = Some s \<and> int (length (lf_threads L)) \<le> clients_count s \<and>
      clients_count s \<le> int MAX_CONN) \<and>
    (\<forall>acc tid. (\<exists>r. server_accept_client (lf_world L) acc tid = Inr r) \<or>
      server_accept_client (lf_world L) acc tid = Inl NullDeref \<and> \<not> fst (malloc (w_mem (lf_world L))))"
proof -
  have inv: "life_inv L" by (rule reachable_inv [OF assms])
  then obtain s where s: "server (lf_world L) = Some s" "server_wf s" "int (length (lf_threads L)) \<le> clients_count s"
      "clients_count s \<le> int MAX_CONN" "0 \<le> clients_count s"
    by (auto simp: life_inv_def world_wf_def conns_def)
  have "(\<exists>r. server_accept_client (lf_world L) acc tid = Inr r) \<or>
      server_accept_client (lf_world L) acc tid = Inl NullDeref \<and> \<not> fst (malloc (w_mem (lf_world L)))" for acc tid
    using accept_cases [OF s(1,2,5)] by (cases acc) (auto simp: server_accept_client_def [of _ AcceptIntr]
      server_accept_client_def [of _ AcceptErr])
  with inv s show ?thesis by (auto simp: life_inv_def)
qed

theorem server_invariant_witness:
  "\<exists>L. reachable L \<and> length (lf_threads L) = 1 \<and>
    (\<exists>s. server (lf_world L) = Some s \<and> 1 \<le> clients_count s \<and> clients_count s \<le> 512)"
proof -
  obtain L0 where "up L0 (replicate MAX_CONN 0) (replicate MAX_CONN None) 0 [] 0" using up_start by blast
  from up_accept [OF this, of 5] obtain L socks ths where "up L socks ths 1 [(0, 0)] 1"
    by (auto simp: MAX_CONN_def)
  then have "reachable L" "length (lf_threads L) = 1" by (auto simp: up_def)
  with server_invariant [OF this(1)] show ?thesis by (auto simp: MAX_CONN_def)
qed

text \<open>
C20. The exit comes to its end.  From every reachable state in which the server is serving and nothing
fails, every slot below the connection count has a thread recorded, and \<open>SIGINT\<close> can be followed by a run that ends
with the process exited and no thread left: after reading the count under its lock it shuts down the sockets of these
slots, joins the thread recorded in each of them, closes these sockets, all in the order of the slots, and last the socket
the server listens on, and marks these slots as closed; it does nothing else that shows.
\<close>
theorem exit_finishes:
  assumes "reachable L" and "lf_phase L = Serving" and "calm (lf_world L)" and "server (lf_world L) = Some s"
  shows "(\<forall>i < nat (clients_count s). clients_threads s ! i \<noteq> None) \<and>
    (\<exists>L'. life_step\<^sup>*\<^sup>* L L' \<and> lf_phase L' = Exited \<and> lf_threads L' = [] \<and>
    trace (lf_world L') = trace (lf_world L) @ [RdLock ServerLock, Unlock ServerLock] @
      map (\<lambda>i. Shutdown (sock (client_at (lf_world L) i))) [0..<nat (clients_count s)] @
      map (\<lambda>i. Join (the (clients_threads s ! i))) [0..<nat (clients_count s)] @
      map (\<lambda>i. Close (sock (client_at (lf_world L) i))) [0..<nat (clients_count s)] @ [Close (srv_sock s)] \<and>
    (\<forall>i < nat (clients_count s). sock (client_at (lf_world L') i) = -1))"
proof -
  let ?w = "lf_world L" and ?n = "nat (clients_count s)"
  have inv: "life_inv L" by (rule reachable_inv [OF assms(1)])
  then have wf: "world_wf ?w" and n: "?n \<le> MAX_CONN" using assms(4) by (auto simp: life_inv_def conns_def)
  let ?w1 = "emit (RdLock ServerLock # Unlock ServerLock # map (\<lambda>i. Shutdown (sock (client_at ?w i))) [0..<?n]) ?w"
  let ?L1 = "L\<lparr>lf_running := False\<rparr>" and ?L2 = "L\<lparr>lf_running := False, lf_world := ?w1, lf_phase := Draining ?n\<rparr>"
  let ?L3 = "?L2\<lparr>lf_threads := []\<rparr>"
  have "life_step L ?L1" by (rule sigint)
  moreover have "life_step ?L1 ?L2"
    using assms(2) exit_shutdown_eq [OF wf assms(4) n] by (intro exit_begin) simp_all
  moreover have "life_step\<^sup>*\<^sup>* ?L2 ?L3" by (rule drain) simp
  ultimately have run: "life_step\<^sup>*\<^sup>* L ?L3"
    by (meson converse_rtranclp_into_rtranclp)
  obtain ts where ts: "exit_join ?w ?n = Inr ts" using exit_join_total [OF inv assms(4)] by blast
  note joined = exit_join_threads [OF ts assms(4)]
  have "client_at (emit es ?w) = client_at ?w" for es
    by (simp add: client_at_def fun_eq_iff)
  then obtain w2 where w2: "fold_res close_client (emit (map Join ts) ?w1) [0..<?n] = Inr w2" "calm w2"
      "\<forall>i < MAX_CONN. client_of w2 i = Inr (if i < ?n then (client_at ?w i)\<lparr>sock := -1\<rparr> else client_at ?w i)"
      "trace w2 = trace (emit (map Join ts) ?w1) @ map (\<lambda>i. Close (sock (client_at ?w i))) [0..<?n]"
    using close_clients_calm [of "emit (map Join ts) ?w1" ?n] wf assms(3) n by auto
  let ?w3 = "emit [Close (srv_sock s)] w2" and ?L4 = "?L3\<lparr>lf_world := emit [Close (srv_sock s)] w2, lf_phase := Exited\<rparr>"
  have "exit_close (emit (map Join ts) ?w1) ?n = Inr ?w3"
    unfolding exit_close_def emit_simps assms(4) option.case w2(1) res_bind_Inr sys_close_calm [OF w2(2)] by simp
  then have "life_step ?L3 ?L4"
    using ts assms(4) by (intro exit_end [where n = ?n and ts = ts]) (simp_all add: exit_join_def)
  with run have "life_step\<^sup>*\<^sup>* L ?L4" by (rule rtranclp.rtrancl_into_rtrancl)
  moreover have "\<forall>i < ?n. sock (client_at ?w3 i) = -1"
    using w2(3) n by (auto simp: client_at_def)
  ultimately show ?thesis
    using w2(4) joined by (intro conjI exI [of _ ?L4]) (simp_all add: comp_def)
qed

theorem exit_finishes_witness:
  "\<exists>L L'. reachable L \<and> length (lf_threads L) = 1 \<and> life_step\<^sup>*\<^sup>* L L' \<and> lf_phase L' = Exited \<and>
    (\<exists>es fd. trace (lf_world L') = trace (lf_world L) @ es \<and>
       es = [RdLock ServerLock, Unlock ServerLock, Shutdown 5, Join (wt_id (lf_threads L ! 0)), Close 5, Close fd])"
proof -
  obtain L0 where "up L0 (replicate MAX_CONN 0) (replicate MAX_CONN None) 0 [] 0" using up_start by blast
  from up_accept [OF this, of 5] obtain L
    where L: "up L ((replicate MAX_CONN 0)[0 := 5]) ((replicate MAX_CONN None)[0 := Some 0]) 1 [(0, 0)] 1"
    by (auto simp: MAX_CONN_def)
  then obtain s where s: "reachable L" "lf_phase L = Serving" "calm (lf_world L)" "length (lf_threads L) = 1"
      "server (lf_world L) = Some s" "clients_count s = 1"
    by (auto simp: up_def conns_def)
  from L have th: "wt_id (lf_threads L ! 0) = 0" "clients_threads s ! 0 = Some 0" using s(5) by (auto simp: up_def conns_def)
      (simp add: MAX_CONN_def)
  have "sock (client_at (lf_world L) 0) = 5"
    using sock_conns [of "lf_world L" _ _ _ 0] L by (auto simp: up_def MAX_CONN_def)
  with exit_finishes [OF s(1-3,5)] s(1,4,6) th obtain L' where "life_step\<^sup>*\<^sup>* L L'" "lf_phase L' = Exited"
      "trace (lf_world L') = trace (lf_world L) @
        [RdLock ServerLock, Unlock ServerLock, Shutdown 5, Join (wt_id (lf_threads L ! 0)), Close 5, Close (srv_sock s)]"
    by auto
  with s(1,4) show ?thesis by blast
qed

text \<open>A new server over a file system, before and after its start-up.\<close>

lemma create_fresh:
  assumes "w_mem w = []" and "fd \<noteq> -1"
  shows "\<exists>u. server_create w fd 0 prt addr rst = Go u \<and> world_wf u \<and> w_mem u = [] \<and> files u = files w \<and>
    (\<forall>d. db_map u d = Map.empty) \<and> (\<exists>s. server u = Some s \<and> restore s = rst) \<and> (calm w \<longrightarrow> calm u) \<and>
    (\<exists>socks ths. conns u = Some (socks, ths, 0)) \<and> (\<forall>k < MAX_CONN. client_of u k = Inr zero_client) \<and>
    writable u = writable w"
  using assms zero_server_wf
  by (simp add: server_create_def Let_def world_wf_def db_map_def calm_def conns_def client_of_def)
    (simp add: zero_server_def ht_lookup_empty)

lemma db_map_beyond: "world_wf w \<Longrightarrow> \<not> d < NUM_DBS \<Longrightarrow> db_map w d = Map.empty"
  by (auto simp: db_map_def world_wf_def server_wf_def)

lemma restored_start:
  assumes "world_wf w" and "\<forall>t \<in> set (db_tables w). saveable t" and "writable w RDB_PATH" and "fd \<noteq> -1"
  shows "\<exists>w1 u w2. worker_save 1 w = Inr w1 \<and> db_map w1 = db_map w \<and>
    server_create (w1\<lparr>server := None, w_mem := []\<rparr>) fd 0 prt addr 1 = Go u \<and> server_setup u 0 = Inr (Go w2) \<and>
    world_wf w2 \<and> db_map w2 = db_map w \<and> (calm w \<longrightarrow> calm w2) \<and>
    (\<exists>socks ths. conns w2 = Some (socks, ths, 0)) \<and> (\<forall>k < MAX_CONN. client_of w2 k = Inr zero_client) \<and>
    writable w2 = writable w"
proof -
  note tb = db_tables_wf [OF assms(1)]
  obtain w1 where w1: "worker_save 1 w = Inr w1" "db_map w1 = db_map w" "files w1 RDB_PATH = Some (snapshot (db_tables w))"
      "calm w1 = calm w" "writable w1 = writable w"
    using rdb_save_snapshot [OF assms(1), of None] assms(3) by simp
  let ?p = "w1\<lparr>server := None, w_mem := []\<rparr>"
  obtain u s where u: "server_create ?p fd 0 prt addr 1 = Go u" "world_wf u" "w_mem u = []" "files u = files w1"
      "\<forall>d. db_map u d = Map.empty" "server u = Some s" "restore s = 1" "calm ?p \<longrightarrow> calm u"
      "\<exists>socks ths. conns u = Some (socks, ths, 0)" "\<forall>k < MAX_CONN. client_of u k = Inr zero_client" "writable u = writable w1"
    using create_fresh [of ?p fd prt addr 1] assms(4) by auto
  let ?w2 = "restored (db_tables w) u"
  have l: "rdb_load u None = Inr (0, ?w2)"
    using u(2-4) w1(3) assms(2) tb(1) by (intro rdb_load_snapshot) simp_all
  have wf: "world_wf ?w2" using u(2) tb by (intro wf_intros) auto
  have "db_map ?w2 d = db_map w d" for d
    using db_map_restored [OF u(2) tb(1), of d] u(5) tb(2,4) db_map_beyond [OF wf] db_map_beyond [OF assms(1)]
    by (cases "d < NUM_DBS") auto
  then have "db_map ?w2 = db_map w" by (rule ext)
  moreover have "(calm w \<longrightarrow> calm ?w2) \<and> conns ?w2 = conns u \<and> client_of ?w2 = client_of u"
    using rdb_load_keeps [OF l] u(8) w1(4) by (auto simp: load_keeps_def calm_def)
  moreover have "server_setup u 0 = Inr (Go ?w2)" using u(6,7) l by (simp add: server_setup_def)
  moreover have "writable ?w2 = writable w" using u(11) w1(5) by simp
  ultimately show ?thesis using w1(1,2) u(1,9,10) wf by (intro exI [of _ w1] exI [of _ u] exI [of _ ?w2]) simp
qed

text \<open>
C21. A restart brings the last snapshot back.  If the snapshot thread has run on a well-formed server
whose entries fit the format, with a writable path, then it has changed no database, and a new process
over the same files that is started with the restore option has every database as it was at the
snapshot, whereas one that is started without it has all of them empty.
\<close>
theorem restart_restores:
  assumes "world_wf w" and "\<forall>t \<in> set (db_tables w). saveable t" and "writable w RDB_PATH" and "fd \<noteq> -1"
  shows "\<exists>w1 u w2 u' w3. worker_save 1 w = Inr w1 \<and> db_map w1 = db_map w \<and>
    server_create (w1\<lparr>server := None, w_mem := []\<rparr>) fd 0 prt addr 1 = Go u \<and> server_setup u 0 = Inr (Go w2) \<and>
    world_wf w2 \<and> (\<forall>d < NUM_DBS. db_map w2 d = db_map w d) \<and>
    server_create (w1\<lparr>server := None, w_mem := []\<rparr>) fd 0 prt addr 0 = Go u' \<and> server_setup u' 0 = Inr (Go w3) \<and>
    world_wf w3 \<and> (\<forall>d < NUM_DBS. db_map w3 d = Map.empty)"
proof -
  obtain w1 u w2 where r: "worker_save 1 w = Inr w1" "db_map w1 = db_map w"
      "server_create (w1\<lparr>server := None, w_mem := []\<rparr>) fd 0 prt addr 1 = Go u" "server_setup u 0 = Inr (Go w2)"
      "world_wf w2" "db_map w2 = db_map w"
    using restored_start [OF assms, of prt addr] by blast
  obtain u' s' where u': "server_create (w1\<lparr>server := None, w_mem := []\<rparr>) fd 0 prt addr 0 = Go u'" "world_wf u'"
      "\<forall>d. db_map u' d = Map.empty" "server u' = Some s'" "restore s' = 0"
    using create_fresh [of "w1\<lparr>server := None, w_mem := []\<rparr>" fd prt addr 0] assms(4) by auto
  then have "server_setup u' 0 = Inr (Go u')" by (simp add: server_setup_def)
  with r u' show ?thesis by simp
qed

theorem restart_restores_witness:
  "\<exists>w1 u w2. worker_save 1 sample_world = Inr w1 \<and>
    server_create (w1\<lparr>server := None, w_mem := []\<rparr>) 3 0 5050 0 1 = Go u \<and> server_setup u 0 = Inr (Go w2) \<and>
    db_map w2 0 = [''k'' \<mapsto> ''7'']"
  using restart_restores [OF sample_world_wf(1) saveable_sample sample_world_wf(4), of 3 5050 0]
  by (fastforce simp: db_map_sample NUM_DBS_def)

text \<open>
C23. What accepting a connection does.  On a well-formed server with the array full, the new socket is
closed and nothing else changes.  Otherwise the connection gets the slot whose index is the number of
connections: this slot has the new socket and address but the database that its previous occupant had
selected, the thread is recorded in the same slot, the count goes up by one under the lock of the
server, and no other slot and no database changes.
\<close>
theorem accept_assigns_slot:
  assumes "world_wf w" and "calm w" and "server w = Some s" and "0 \<le> clients_count s"
  shows "(int MAX_CONN \<le> clients_count s \<longrightarrow>
      server_accept_client w (Accepted fd a p) tid = Inr (0, None, emit [Close fd] w)) \<and>
    (clients_count s < int MAX_CONN \<longrightarrow>
      (\<exists>w' s'. server_accept_client w (Accepted fd a p) tid = Inr (0, Some (nat (clients_count s)), w') \<and>
        client_of w' (nat (clients_count s)) = Inr \<lparr>sock = fd, ip = a, port = p, db = db (client_at w (nat (clients_count s)))\<rparr> \<and>
        (\<forall>j. j \<noteq> nat (clients_count s) \<longrightarrow> client_of w' j = client_of w j) \<and> db_map w' = db_map w \<and>
        server w' = Some s' \<and> clients_count s' = clients_count s + 1 \<and>
        clients_threads s' = (clients_threads s)[nat (clients_count s) := Some tid] \<and>
        trace w' = trace w @ [WrLock ServerLock, Unlock ServerLock]))"
proof (intro conjI impI)
  have wf: "server_wf s" using assms(1,3) by (simp add: world_wf_def)
  note ac = accept_cases [OF assms(3) wf assms(4), of fd a p tid]
  show "server_accept_client w (Accepted fd a p) tid = Inr (0, None, emit [Close fd] w)" if "int MAX_CONN \<le> clients_count s"
    using ac that sys_close_calm [OF assms(2), of fd] by simp
  assume n: "clients_count s < int MAX_CONN"
  let ?n = "nat (clients_count s)"
  have nl: "?n < length (clients_array s)" using n wf by (simp add: server_wf_def nat_less_iff assms(4))
  show "\<exists>w' s'. server_accept_client w (Accepted fd a p) tid = Inr (0, Some ?n, w') \<and>
        client_of w' ?n = Inr \<lparr>sock = fd, ip = a, port = p, db = db (client_at w ?n)\<rparr> \<and>
        (\<forall>j. j \<noteq> ?n \<longrightarrow> client_of w' j = client_of w j) \<and> db_map w' = db_map w \<and>
        server w' = Some s' \<and> clients_count s' = clients_count s + 1 \<and>
        clients_threads s' = (clients_threads s)[?n := Some tid] \<and>
        trace w' = trace w @ [WrLock ServerLock, Unlock ServerLock]"
    using ac n nl assms(2,3)
    by (auto simp: registered_def client_of_def client_at_def add_clients_def put_thread_def put_client_def db_map_def)
qed

theorem accept_assigns_slot_witness:
  "\<exists>w'. server_accept_client (put_client 0 (zero_client\<lparr>db := 9\<rparr>) sample_world) (Accepted 7 ''ip'' 80) 0 = Inr (0, Some 0, w') \<and>
    client_of w' 0 = Inr \<lparr>sock = 7, ip = ''ip'', port = 80, db = 9\<rparr>"
proof -
  let ?w = "put_client 0 (zero_client\<lparr>db := 9\<rparr>) sample_world"
  have wf: "world_wf ?w" "calm ?w"
    using sample_world_wf by (auto simp: client_wf_def NUM_DBS_def intro!: wf_intros)
  obtain s where s: "server ?w = Some s" "clients_count s = 0"
    by (auto simp: sample_world_def put_client_def put_table_def zero_server_def)
  have "client_of ?w 0 = Inr (zero_client\<lparr>db := 9\<rparr>)"
    using client_of_put_any [of sample_world 0 zero_client 0] client_of_sample by (simp add: MAX_CONN_def)
  then show ?thesis
    using accept_assigns_slot [OF wf s(1), of 7 "''ip''" 80 0] s(2) by (auto simp: client_at_def MAX_CONN_def)
qed

lemma up_leak: "n \<le> MAX_CONN \<Longrightarrow> \<exists>L socks ths. up L socks ths n [] n"
proof (induction n)
  case 0
  then show ?case using up_start by blast
next
  case (Suc n)
  then obtain L socks ths where "up L socks ths n [] n" by auto
  from up_accept [OF this, of 5] Suc.prems
  obtain L1 where "up L1 (socks[n := 5]) (ths[n := Some n]) (Suc n) [(n, n)] (Suc n)" by auto
  from up_eof [OF this, of 0] show ?case by auto
qed

text \<open>
C29. Slots are lost.  A connection that ends without QUIT is not taken off the count, so there is a
reachable state of a serving server that has no connection left but takes its array to be full: it
closes every new connection.
\<close>
theorem disconnects_fill_server:
  "\<exists>L. reachable L \<and> lf_phase L = Serving \<and> lf_running L \<and> lf_threads L = [] \<and>
    (\<forall>fd a p tid. server_accept_client (lf_world L) (Accepted fd a p) tid = Inr (0, None, emit [Close fd] (lf_world L)))"
proof -
  obtain L socks ths where L: "up L socks ths MAX_CONN [] MAX_CONN" using up_leak [of MAX_CONN] by blast
  then have "reachable L" "calm (lf_world L)" by (simp_all add: up_def)
  moreover obtain s where s: "server (lf_world L) = Some s" "clients_count s = int MAX_CONN" "server_wf s"
    using L reachable_inv [OF \<open>reachable L\<close>] by (auto simp: up_def conns_def life_inv_def world_wf_def)
  ultimately show ?thesis
    using L accept_cases [OF s(1,3)] s(2)
    by (intro exI [of _ L]) (simp add: up_def sys_close_calm)
qed

text \<open>A server with the connections 5 and 6, of which the first has left by QUIT.\<close>

lemma up_one_left:
  "\<exists>L. up L ((replicate MAX_CONN 0)[0 := -1, 1 := 6]) ((replicate MAX_CONN None)[0 := Some 0, 1 := Some 1]) 1 [(1, 1)] 2"
proof -
  obtain L0 where "up L0 (replicate MAX_CONN 0) (replicate MAX_CONN None) 0 [] 0" using up_start by blast
  from up_accept [OF this, of 5] obtain L1 where
    "up L1 ((replicate MAX_CONN 0)[0 := 5]) ((replicate MAX_CONN None)[0 := Some 0]) 1 [(0, 0)] 1"
    by (auto simp: MAX_CONN_def)
  from up_accept [OF this, of 6] obtain L2 where
    "up L2 ((replicate MAX_CONN 0)[0 := 5, 1 := 6]) ((replicate MAX_CONN None)[0 := Some 0, 1 := Some 1]) 2 [(0, 0), (1, 1)] 2"
    by (auto simp: MAX_CONN_def numeral_2_eq_2)
  from up_quit [OF this, of 0] show ?thesis
    by (auto simp: MAX_CONN_def list_update_swap)
qed

text \<open>
C28. Slots are shared.  QUIT takes one off the count without moving the other connections, so the next
connection can be given the slot of one that is still served: there is a reachable state in which two
different threads serve the same slot, with the socket of the newer connection, while the socket 6 of
the older one is in no slot any more.
\<close>
theorem quit_shares_slot:
  "\<exists>L t t'. reachable L \<and> lf_threads L = [t, t'] \<and> wt_id t \<noteq> wt_id t' \<and> wt_slot t = wt_slot t' \<and>
    sock (client_at (lf_world L) (wt_slot t)) = 7 \<and> 6 \<notin> (\<lambda>i. sock (client_at (lf_world L) i)) ` {..<MAX_CONN}"
proof -
  obtain L0 where "up L0 ((replicate MAX_CONN 0)[0 := -1, 1 := 6]) ((replicate MAX_CONN None)[0 := Some 0, 1 := Some 1]) 1 [(1, 1)] 2"
    using up_one_left by blast
  from up_accept [OF this, of 7] obtain L ths where
    L: "up L ((replicate MAX_CONN 0)[0 := -1, 1 := 7]) ths 2 [(1, 1), (2, 1)] 3"
    by (auto simp: MAX_CONN_def numeral_2_eq_2 numeral_3_eq_3)
  then obtain t t' where t: "lf_threads L = [t, t']" "wt_id t = 1" "wt_id t' = 2" "wt_slot t = 1" "wt_slot t' = 1"
    by (auto simp: up_def map_eq_Cons_conv)
  have "conns (lf_world L) = Some ((replicate MAX_CONN 0)[0 := -1, 1 := 7], ths, 2)" using L by (simp add: up_def)
  from sock_conns [OF this] have k: "sock (client_at (lf_world L) i) = ((replicate MAX_CONN 0)[0 := -1, 1 := 7]) ! i"
    if "i < MAX_CONN" for i using that by simp
  have "sock (client_at (lf_world L) i) \<noteq> 6" if "i < MAX_CONN" for i
    using k [OF that] that by (cases "i = 1"; cases "i = 0") simp_all
  moreover have "sock (client_at (lf_world L) 1) = 7" using k [of 1] by (simp add: MAX_CONN_def)
  ultimately show ?thesis
    using L t by (intro exI [of _ L] exI [of _ t] exI [of _ t']) (auto simp: up_def)
qed

text \<open>
C30. The exit can miss a connection.  After such a QUIT the count is below the slot of a connection that
is still served.  From a reachable state of the serving server, in which one thread serves the socket 6, there is a
run that ends with the process exited although the thread is still there: the exit shuts down and closes only the slot below the
count, whose socket is already -1, and joins only the thread recorded there, which has ended; the socket 6 is not
shut down, its thread is not joined, and its slot is not marked as closed.
\<close>
theorem exit_misses_connection:
  "\<exists>L0 L t s es. reachable L0 \<and> lf_phase L0 = Serving \<and> lf_threads L0 = [t] \<and> server (lf_world L0) = Some s \<and>
    sock (client_at (lf_world L0) (wt_slot t)) = 6 \<and>
    life_step\<^sup>*\<^sup>* L0 L \<and> lf_phase L = Exited \<and> lf_threads L = [t] \<and> trace (lf_world L) = trace (lf_world L0) @ es \<and>
    es = [RdLock ServerLock, Unlock ServerLock, Shutdown (-1), Join 0, Close (-1), Close (srv_sock s)] \<and>
    Shutdown 6 \<notin> set es \<and> Join (wt_id t) \<notin> set es \<and> sock (client_at (lf_world L) (wt_slot t)) = 6"
proof -
  obtain L where L: "up L ((replicate MAX_CONN 0)[0 := -1, 1 := 6]) ((replicate MAX_CONN None)[0 := Some 0, 1 := Some 1]) 1 [(1, 1)] 2"
    using up_one_left by blast
  let ?w = "lf_world L"
  have r: "reachable L" and cw: "calm ?w" using L by (simp_all add: up_def)
  then have wf: "world_wf ?w" using reachable_inv by (simp add: life_inv_def)
  obtain s where s: "server ?w = Some s" "clients_count s = 1"
      "clients_threads s = (replicate MAX_CONN None)[0 := Some 0, 1 := Some 1]"
    using L by (auto simp: up_def conns_def)
  obtain t where t: "lf_threads L = [t]" "wt_id t = 1" "wt_slot t = 1"
    using L by (auto simp: up_def map_eq_Cons_conv)
  have k: "sock (client_at ?w 1) = 6" "sock (client_at ?w 0) = -1"
    using sock_conns [of ?w _ _ _ 1] sock_conns [of ?w _ _ _ 0] L by (auto simp: up_def MAX_CONN_def)
  let ?w1 = "emit [RdLock ServerLock, Unlock ServerLock, Shutdown (-1)] ?w"
  have sh: "exit_shutdown ?w = Inr (1, ?w1)"
    using exit_shutdown_eq [OF wf s(1)] s(2) k(2) by (simp add: MAX_CONN_def)
  have same: "client_at (emit es ?w) = client_at ?w" for es by (simp add: client_at_def fun_eq_iff)
  obtain w2 where w2: "fold_res close_client (emit [Join 0] ?w1) [0..<1] = Inr w2" "calm w2"
      "client_of w2 1 = Inr (client_at ?w 1)" "trace w2 = trace (emit [Join 0] ?w1) @ [Close (-1)]"
    using close_clients_calm [of "emit [Join 0] ?w1" 1] wf cw k(2) same by (auto simp: MAX_CONN_def)
  let ?w3 = "emit [Close (srv_sock s)] w2"
  let ?L1 = "L\<lparr>lf_running := False\<rparr>" and ?L2 = "L\<lparr>lf_running := False, lf_world := ?w1, lf_phase := Draining 1\<rparr>"
  let ?L3 = "?L2\<lparr>lf_world := ?w3, lf_phase := Exited\<rparr>"
  have close: "exit_close (emit (map Join [0]) ?w1) 1 = Inr ?w3"
    unfolding exit_close_def emit_simps s(1) option.case list.map w2(1) res_bind_Inr sys_close_calm [OF w2(2)] by simp
  have join: "exit_join ?w1 1 = Inr [0]"
    using s by (simp add: exit_join_def MAX_CONN_def)
  have "life_step L ?L1" by (rule sigint)
  moreover have "life_step ?L1 ?L2"
    using L sh by (intro exit_begin) (simp_all add: up_def)
  moreover have "life_step ?L2 ?L3"
    using join close t by (intro exit_end [where n = 1 and ts = "[0]"]) simp_all
  ultimately have run: "life_step\<^sup>*\<^sup>* L ?L3" by (meson converse_rtranclp_into_rtranclp r_into_rtranclp)
  moreover have "sock (client_at ?w3 1) = 6"
    using w2(3) k by (simp add: client_at_def)
  moreover have "lf_phase L = Serving" using L by (simp add: up_def)
  ultimately show ?thesis using r t s(1) k(1) w2(4) by (intro exI [of _ L] exI [of _ ?L3] exI [of _ t] exI [of _ s]) simp
qed

end
