(* ===== verification/Accepting.thy ===== *)
theory Accepting
  imports SaveThread ServerRuns
begin

text \<open>
  The running server: the main thread accepts connections while the threads of those it has accepted
  read, parse and execute their lines and the thread of the periodic snapshot saves.  A step of the system
  (\<open>sys_step\<close>) is one return of \<open>accept\<close> with all that \<open>server_accept_client\<close> does with it, one step of
  the threads, or the end of the \<open>sleep\<close> of the snapshot thread.  Sockets are what the kernel gives: \<open>accept\<close>
  returns a descriptor that no connection of the process has.

  A new connection extends the simulation by one more stream (\<open>sim_join\<close>), so that what holds of a fixed set of
  connections holds of a process from its start, whenever its clients come.
\<close>

section \<open>Accepting while others are served\<close>

text \<open>
  The threads of the connections in the order in which they were started, for each the socket and the results of its
  \<open>recv\<close>, and what the snapshot thread is doing.
\<close>

record Sys =
  sys_world :: World
  sys_threads :: "Thread list"
  sys_saver :: Conn
  sys_log :: "(int \<times> recv list) list"

definition fresh_fd :: "World \<Rightarrow> Thread list \<Rightarrow> int \<Rightarrow> bool" where
  "fresh_fd w ts fd \<longleftrightarrow> 0 \<le> fd \<and> (\<forall>t \<in> set ts. \<forall>c. client_of w (c_slot (th_conn t)) = Inr c \<longrightarrow> sock c \<noteq> fd)"

text \<open>The new thread makes its allocations (\<open>worker_start\<close>) when it is started.\<close>

definition join_thread :: "nat \<Rightarrow> int \<Rightarrow> recv list \<Rightarrow> World \<Rightarrow> Sys \<Rightarrow> Sys" where
  "join_thread k fd rs w S =
     S\<lparr>sys_world := snd (worker_start w), sys_threads := sys_threads S @ [thread_of w (k, rs)],
       sys_log := sys_log S @ [(fd, rs)]\<rparr>"

abbreviation sys_all :: "Sys \<Rightarrow> Thread list" where
  "sys_all S \<equiv> sys_threads S @ [saver_thread (sys_saver S)]"

inductive sys_step :: "Sys \<Rightarrow> Sys \<Rightarrow> bool" where
  accepts: "fresh_fd (sys_world S) (sys_threads S) fd \<Longrightarrow>
    server_accept_client (sys_world S) (Accepted fd a p) tid = Inr (0, Some k, w) \<Longrightarrow>
    sys_step S (join_thread k fd rs w S)"
| refuses: "server_accept_client (sys_world S) acc tid = Inr (0, None, w) \<Longrightarrow>
    (\<And>fd a p. acc = Accepted fd a p \<Longrightarrow> fresh_fd (sys_world S) (sys_threads S) fd) \<Longrightarrow>
    sys_step S (S\<lparr>sys_world := w\<rparr>)"
| works: "work_step (sys_world S, sys_all S) (w, ts @ [saver_thread v]) \<Longrightarrow>
    sys_step S (S\<lparr>sys_world := w, sys_threads := ts, sys_saver := v\<rparr>)"
| wakes: "c_now (sys_saver S) = None \<Longrightarrow>
    sys_step S (S\<lparr>sys_saver := (sys_saver S)\<lparr>c_now := Some worker_save_steps\<rparr>\<rparr>)"

abbreviation sys_run :: "Sys \<Rightarrow> Sys \<Rightarrow> bool" where
  "sys_run \<equiv> sys_step\<^sup>*\<^sup>*"

text \<open>A server that has just been set up; the snapshot thread sleeps.\<close>

definition sys_start :: "World \<Rightarrow> Sys" where
  "sys_start w = \<lparr>sys_world = w, sys_threads = [], sys_saver = saver_conn None, sys_log = []\<rparr>"

definition sys_waiting :: "Sys \<Rightarrow> bool" where
  "sys_waiting S \<longleftrightarrow> all_waiting (sys_world S, sys_all S)"

text \<open>The serial server that starts with the databases of the world, each client in database 0.\<close>

abbreviation serial_start :: "World \<Rightarrow> Ser" where
  "serial_start w \<equiv> \<lparr>s_dbs = db_map w, s_sel = (\<lambda>_. 0)\<rparr>"

text \<open>The words of the complete lines of each stream.\<close>

abbreviation sys_asked :: "Sys \<Rightarrow> string list list list" where
  "sys_asked S \<equiv> map (\<lambda>x. asks (received (snd x))) (sys_log S)"

section \<open>What the steps of the threads leave alone\<close>

definition spares :: "int set \<Rightarrow> nat set \<Rightarrow> World \<Rightarrow> World \<Rightarrow> bool" where
  "spares fds ks w w' \<longleftrightarrow> conns w' = conns w \<and> (\<forall>fd. fd \<notin> fds \<longrightarrow> sent fd w' = sent fd w) \<and>
     (\<forall>k. k \<notin> ks \<longrightarrow> client_of w' k = client_of w k)"

lemma spares_same:
  "conns w' = conns w \<Longrightarrow> client_of w' = client_of w \<Longrightarrow> trace w' = trace w \<Longrightarrow> spares fds ks w w'"
  by (simp add: spares_def sent_trace [of w' w])

lemma spares_conn: "same_conn w w' \<Longrightarrow> spares fds ks w w'"
  by (simp add: spares_def same_conn_def)

lemma spares_mem [simp]: "spares fds ks w w" "spares fds ks w (w\<lparr>w_mem := m\<rparr>)"
  by (rule spares_same; simp add: client_of_def)+

lemma spares_trans: "spares fds ks w u \<Longrightarrow> spares fds ks u v \<Longrightarrow> spares fds ks w v"
  by (simp add: spares_def)

lemma spares_select:
  "client_of w k = Inr c \<Longrightarrow> k \<in> ks \<Longrightarrow> spares fds ks w (put_client k (c\<lparr>db := n\<rparr>) w)"
  by (auto simp: spares_def conns_put_client sent_trace [of "put_client k (c\<lparr>db := n\<rparr>) w" w]) (auto simp: client_of_def put_client_def split: option.split intro!: nth_list_update_neq)

lemma handlers_spare:
  assumes "k \<in> ks"
  shows "get_steps w cmd k rp = Inr (w', p) \<Longrightarrow> spares fds ks w w'"
    "set_steps w cmd k rp = Inr (w', p) \<Longrightarrow> spares fds ks w w'"
    "del_steps w cmd k rp = Inr (w', p) \<Longrightarrow> spares fds ks w w'"
    "incr_steps w cmd k rp = Inr (w', p) \<Longrightarrow> spares fds ks w w'"
    "select_steps w cmd k rp = Inr (w', p) \<Longrightarrow> spares fds ks w w'"
    "quit_steps w cmd k rp = Inr (w', p) \<Longrightarrow> spares fds ks w w'"
    "save_steps w cmd k rp = Inr (w', p) \<Longrightarrow> spares fds ks w w'"
    "load_steps w cmd k rp = Inr (w', p) \<Longrightarrow> spares fds ks w w'"
    "info_steps w cmd k rp = Inr (w', p) \<Longrightarrow> spares fds ks w w'"
  using assms
  by (auto simp: get_steps_def set_steps_def del_steps_def incr_steps_def select_steps_def quit_steps_def
      save_steps_def load_steps_def info_steps_def wrong_args_steps_def res_bind_eq_Inr Let_def intro: spares_select elim!: begun_cases
      split: if_splits option.splits)

lemma begin_spares:
  assumes "begin_cmd cmd w k = (w', p)" and "k \<in> ks"
  shows "spares fds ks w w'"
proof -
  have n: "spares fds ks w u" if "reply_new w = (rp, u)" for rp u
    using that by (cases "malloc (w_mem w)"; cases "fst (malloc (w_mem w))") (auto simp: reply_new_def)
  have "spares fds ks w w'" if "dispatch_steps cmd w k = Inr (w', p)"
    using that n handlers_spare [OF assms(2)]
    by (auto simp: dispatch_steps_def split: prod.splits CmdCode.splits intro: spares_trans)
  with assms(1) show ?thesis by (auto simp: begin_cmd_def split: if_splits sum.splits)
qed

lemma conn_step_spares:
  assumes "conn_step (w, cs) (w', cs')" and "sim J w cs order"
  shows "spares (set (j_fds J)) (set (map c_slot cs)) w w'"
proof -
  from assms(2) obtain rs s gs where st: "job_ok J cs" "well_locked cs" "world_sim w s"
      "\<And>j. j < length cs \<Longrightarrow> conn_sim J j w s order rs (cs ! j) (gs j)"
    unfolding sim_def by blast
  from assms(1) show ?thesis
  proof (cases rule: conn_step.cases)
    case (begins i c cmd cmds p)
    then show ?thesis using begin_spares [OF begins(6)] by auto
  next
    case (goes i c p p' h' q')
    from st(4) [of i] goes obtain cl where cl: "client_of w (c_slot c) = Inr cl" "sock cl = j_fds J ! i" "db cl = s_sel s i"
        "phase_ok (j_gets J) (c_slot c) (s_sel s i) (s_dbs s) (gs i) (Some p)"
      by (auto simp: conn_sim_def)
    have "conn_locked (cs ! i)" using well_lockedD [OF st(2), of i] goes by simp
    then have lock: "lock_ok p (c_held c)" using goes by (simp add: conn_locked_def)
    have d: "s_sel s i < NUM_DBS" using client_of_in [OF cl(1) world_simD(1) [OF st(3)]] cl(3) by simp
    have fd: "j_fds J ! i \<in> set (j_fds J)" using st(1) goes by (simp add: job_ok_def)
    show ?thesis
    proof (cases "gs i")
      case (Owes r)
      with cl(4) goes have "answers (c_slot c) r p" by auto
      from answers_step [OF this world_simD(2) [OF st(3)] cl(1) goes(7)] show ?thesis
        using spares_conn [OF quiet_same_conn] cl(2) fd by (auto simp: spares_def)
    next
      case (Waits ws)
      with cl(4) obtain key K where "pending (c_slot c) ws (s_sel s i) key K p"
          "\<forall>v. K = Some v \<longrightarrow> s_dbs s (s_sel s i) key = v" by auto
      from pending_step [OF this(1) st(3) d this(2) goes(7) lock] show ?thesis
        using spares_conn quiet_same_conn by (auto simp: effect_at_def)
    qed (use cl(4) goes in auto)
  qed (simp_all add: spares_same)
qed

lemma own_step_spares:
  assumes "own_step w t = Inr (Some (w', t'))" and "c_slot (th_conn t) \<in> ks"
  shows "spares fds ks w w'"
proof -
  have bufs: "spares fds ks w (w\<lparr>w_bufs := b\<rparr>)" "spares fds ks w (w\<lparr>w_mem := m, w_bufs := b\<rparr>)"
    "spares fds ks w (w\<lparr>w_mem := m, w_next := n, w_bufs := b\<rparr>)" "spares fds ks w (w\<lparr>w_next := n, w_mem := m, w_bufs := b\<rparr>)" for b m n
    by (rule spares_same; simp add: client_of_def)+
  have e: "spares fds ks w u" if "end_line w k bid qb n = Inr (r, u, qb')" for k bid qb n r u qb'
    using that bufs by (auto simp: end_line_def res_bind_eq_Inr Let_def)
  have p: "spares fds ks w u" if "parse_line w cmd qb n = Inr (r, u)" for cmd qb n r u
    using that bufs
    by (cases "malloc (w_mem w)"; cases "fst (malloc (w_mem w))") (auto simp: parse_line_def res_bind_eq_Inr Let_def)
  have b: "spares fds ks u (fst (begin_line cmdp u (c_slot (th_conn t))))" for cmdp u
    using begin_spares [OF prod.collapse [symmetric] assms(2)] by (auto simp: begin_line_def split: option.splits)
  show ?thesis
    using assms(1) by (auto simp: own_step_def Let_def res_bind_eq_Inr split_beta split: if_splits option.splits list.splits recv.splits
      dest!: e p intro: spares_trans [OF _ b])
qed

lemma work_step_spares:
  assumes "work_step (w, ts) (w', ts')" and "threads_sim J all w ts order"
  shows "spares (set (j_fds J)) (set (map (\<lambda>t. c_slot (th_conn t)) ts)) w w'"
  using assms(1)
proof cases
  case (own i t')
  then show ?thesis using own_step_spares by fastforce
next
  case (runs cs')
  moreover have "sim J w (map th_conn ts) order" using assms(2) by (simp add: threads_sim_def)
  ultimately show ?thesis using conn_step_spares [of w "map th_conn ts" w' cs' J order] by (simp add: image_image)
qed (simp add: spares_same)

section \<open>A connection joins\<close>

lemma serial_sel: "serial order s0 = (rs, s) \<Longrightarrow> i \<notin> fst ` set order \<Longrightarrow> s_sel s i = s_sel s0 i \<and> only i order = [] \<and> only i rs = []"
proof (induction order arbitrary: rs s rule: rev_induct)
  case (snoc x order)
  obtain j ws rs1 s1 where x: "x = (j, ws)" "serial order s0 = (rs1, s1)" by (cases x; cases "serial order s0") auto
  with snoc show ?case by (auto simp: serve_def split: prod.splits)
qed simp

lemma well_locked_join: "well_locked cs \<Longrightarrow> well_locked (cs @ [conn_for k []])"
  by (auto simp: well_locked_def exclusive_def held_by_def nth_append conn_locked_def conn_for_def less_Suc_eq)

definition more_conns :: "Job \<Rightarrow> int \<Rightarrow> string list \<Rightarrow> Job" where
  "more_conns J fd out = J\<lparr>j_words := j_words J @ [[]], j_fds := j_fds J @ [fd], j_out := (j_out J)(length (j_fds J) := out)\<rparr>"

lemma sim_join:
  assumes "sim J w cs order" and w': "world_wf w'" "calm w'" "small_values w'" "db_map w' = db_map w" "w_bufs w' = w_bufs w"
    and "\<And>fd. sent fd w' = sent fd w" and "\<And>j. j \<noteq> k \<Longrightarrow> client_of w' j = client_of w j"
    and c: "client_of w' k = Inr c" "sock c = fd" "db c = s_sel (j_start J) (length cs)"
    and "k \<notin> set (map c_slot cs)" and "fd \<notin> set (j_fds J)" and "fd \<noteq> -1"
  shows "sim (more_conns J fd (sent fd w)) w' (cs @ [conn_for k []]) order"
proof -
  let ?J = "more_conns J fd (sent fd w)" and ?cs = "cs @ [conn_for k []]"
  from assms(1) obtain rs s gs where st: "job_ok J cs" "well_locked cs" "serial order (j_start J) = (rs, s)" "world_sim w s"
      "\<And>j. j < length cs \<Longrightarrow> conn_sim J j w s order rs (cs ! j) (gs j)" "fst ` set order \<subseteq> {..<length cs}"
    unfolding sim_def by blast
  have l: "length (j_words J) = length cs" "length (j_fds J) = length cs" using st(1) by (simp_all add: job_ok_def)
  have n: "s_sel s (length cs) = s_sel (j_start J) (length cs) \<and> only (length cs) order = [] \<and> only (length cs) rs = []"
    using serial_sel [OF st(3)] st(6) by auto
  have "conn_sim ?J j w' s order rs (?cs ! j) ((gs(length cs := Idle)) j)" if "j < length ?cs" for j
  proof (cases "j = length cs")
    case True
    then show ?thesis using n c l assms(7) by (simp add: conn_sim_def more_conns_def nth_append)
  next
    case False
    then have j: "j < length cs" using that by simp
    have "c_slot (cs ! j) \<noteq> k" using assms(12) j by (metis length_map nth_map nth_mem)
    with st(5) [OF j] j l assms(7,8) show ?thesis
      by (cases "gs j") (simp_all add: conn_sim_def more_conns_def nth_append cmd_holds_bufs [OF w'(5)])
  qed
  moreover have "job_ok ?J ?cs" using st(1) assms(12,13,14) by (auto simp: job_ok_def more_conns_def)
  moreover have "world_sim w' s" using st(4) w' by (simp add: world_sim_def)
  moreover have "serial order (j_start ?J) = (rs, s)" using st(3) by (simp add: more_conns_def)
  moreover have "fst ` set order \<subseteq> {..<length ?cs}" using st(6) by auto
  ultimately show ?thesis using well_locked_join [OF st(2)] unfolding sim_def by blast
qed

section \<open>Every step of the system is simulated\<close>

lemma client_of_registered:
  "world_wf w \<Longrightarrow> n < MAX_CONN \<Longrightarrow> client_of (registered w n c tid) k = (if k = n then Inr c else client_of w k)"
  by (auto simp: registered_def client_of_def put_thread_def put_client_def add_clients_def world_wf_def server_wf_def)

lemma registered_same:
  "sent fd (registered w n c tid) = sent fd w" "w_bufs (registered w n c tid) = w_bufs w"
  "small_values (registered w n c tid) = small_values w" "calm w \<Longrightarrow> calm (registered w n c tid)"
proof -
  show "calm w \<Longrightarrow> calm (registered w n c tid)"
    using registered_simps(1) [of w n c tid] by (simp add: calm_def)
  show "small_values (registered w n c tid) = small_values w"
    by (simp add: small_values_def registered_simps)
qed (simp_all add: registered_def sent_def put_thread_def put_client_def add_clients_def)

lemma sim_quietly:
  assumes "sim J w cs order" and q: "quiet w w'"
  shows "sim J w' cs order"
proof -
  from assms(1) obtain rs s gs where st: "job_ok J cs" "well_locked cs" "serial order (j_start J) = (rs, s)" "world_sim w s"
      "\<And>j. j < length cs \<Longrightarrow> conn_sim J j w s order rs (cs ! j) (gs j)" "fst ` set order \<subseteq> {..<length cs}"
    unfolding sim_def by blast
  have "conn_sim J j w' s order rs (cs ! j) (gs j)" if "j < length cs" for j
    using st(5) [OF that] quiet_same [OF q] cmd_holds_bufs [of w' w] by (simp add: conn_sim_def)
  with st quiet_same(1) [OF q] show ?thesis unfolding sim_def by blast
qed

lemma conn_step_slots: "conn_step (w, cs) (w', cs') \<Longrightarrow> map c_slot cs' = map c_slot cs"
  by (cases rule: conn_step.cases) (auto simp: map_update list_update_same_conv comp_def)

lemma own_step_slot: "own_step w t = Inr (Some (w', t')) \<Longrightarrow> c_slot (th_conn t') = c_slot (th_conn t)"
  by (auto simp: own_step_def Let_def res_bind_eq_Inr split_beta split: if_splits option.splits list.splits recv.splits)

abbreviation slots :: "Thread list \<Rightarrow> nat list" where
  "slots ts \<equiv> map (\<lambda>t. c_slot (th_conn t)) ts"

lemma work_step_slots:
  assumes "work_step (w, ts) (w', ts')"
  shows "slots ts' = slots ts"
  using assms
proof cases
  case (own i t')
  then show ?thesis using own_step_slot [OF own(3)] by (simp add: map_update list_update_same_conv)
next
  case (runs cs')
  have "length cs' = length ts" using conn_step_slots [OF runs(2)] by (metis length_map)
  then have "map c_slot (map th_conn ts') = map c_slot (map th_conn ts)"
    using conn_step_slots [OF runs(2)] runs(1) by (simp only: set_conns_simps)
  then show ?thesis by (simp add: comp_def)
qed (simp add: map_update list_update_same_conv)

text \<open>
  The simulation of a system that was started in the world \<open>w0\<close>: the \<open>i\<close>-th connection has the slot \<open>i\<close>, and
  the slots from the count on have never been used.
\<close>

definition sys_sim :: "World \<Rightarrow> Sys \<Rightarrow> Job \<Rightarrow> (nat \<times> string list) list \<Rightarrow> bool" where
  "sys_sim w0 S J order \<longleftrightarrow> threads_sim J (sys_asked S) (sys_world S) (sys_threads S) order \<and>
     j_fds J = map fst (sys_log S) \<and> j_start J = serial_start w0 \<and>
     (\<forall>i < length (sys_log S). j_out J i = sent (j_fds J ! i) w0) \<and>
     slots (sys_threads S) = [0..<length (sys_log S)] \<and>
     (\<exists>socks ths. conns (sys_world S) = Some (socks, ths, int (length (sys_log S)))) \<and>
     (\<forall>fd. fd \<notin> set (j_fds J) \<longrightarrow> sent fd (sys_world S) = sent fd w0) \<and>
     (\<forall>k. length (sys_log S) \<le> k \<longrightarrow> k < MAX_CONN \<longrightarrow> (\<exists>c. client_of (sys_world S) k = Inr c \<and> db c = 0))"

lemma works_sim:
  assumes "sys_sim w0 S J order" and "work_step (sys_world S, sys_threads S) (w, ts)"
    and "\<forall>ws \<in> set (concat (sys_asked S)). plain ws"
  shows "\<exists>J' more. sys_sim w0 (S\<lparr>sys_world := w, sys_threads := ts\<rparr>) J' (order @ more) \<and> j_gets J' = j_gets J \<and>
    (\<forall>j < length (sys_threads S). \<forall>p. c_now (th_conn (sys_threads S ! j)) = Some p \<longrightarrow> settled p \<longrightarrow> only j more = [])"
proof -
  have sm: "threads_sim J (sys_asked S) (sys_world S) (sys_threads S) order" using assms(1) by (simp add: sys_sim_def)
  obtain J' more where J': "threads_sim J' (sys_asked S) w ts (order @ more)" "J' = J\<lparr>j_words := j_words J'\<rparr>"
      "\<And>j. c_now (th_conn (sys_threads S ! j)) \<noteq> None \<Longrightarrow> j_words J' ! j = j_words J ! j"
    using work_step_sim [OF assms(2) sm assms(3)] by blast
  have e: "j_fds J' = j_fds J" "j_start J' = j_start J" "j_out J' = j_out J" "j_gets J' = j_gets J"
    by (subst J'(2); simp)+
  have "set (slots (sys_threads S)) = {..<length (sys_log S)}" using assms(1) by (auto simp: sys_sim_def)
  with work_step_spares [OF assms(2) sm] have s: "conns w = conns (sys_world S)"
      "\<And>fd. fd \<notin> set (j_fds J) \<Longrightarrow> sent fd w = sent fd (sys_world S)"
      "\<And>k. length (sys_log S) \<le> k \<Longrightarrow> client_of w k = client_of (sys_world S) k"
    by (simp_all add: spares_def)
  have "only j more = []"
    if j: "j < length (sys_threads S)" "c_now (th_conn (sys_threads S ! j)) = Some p" "settled p" for j p
  proof -
    have "sim J (sys_world S) (map th_conn (sys_threads S)) order" "c_todo (th_conn (sys_threads S ! j)) = []"
      using sm j(1) by (auto simp: threads_sim_def reads_def)
    then have "only j order = j_words J ! j" using sim_settled [of J _ "map th_conn (sys_threads S)" order j p] j by simp
    moreover have "sim J' w (map th_conn ts) (order @ more)" "length ts = length (sys_threads S)"
      using J'(1) sm by (simp_all add: threads_sim_def)
    then obtain later where "j_words J' ! j = only j (order @ more) @ later"
      using sim_prefix [of J' w "map th_conn ts" "order @ more" j] j(1) by auto
    ultimately show ?thesis using J'(3) [of j] j(2) by simp
  qed
  moreover have "sys_sim w0 (S\<lparr>sys_world := w, sys_threads := ts\<rparr>) J' (order @ more)"
    using assms(1) J'(1) s work_step_slots [OF assms(2)] unfolding sys_sim_def e by simp
  ultimately show ?thesis using e(4) by blast
qed

text \<open>What the snapshot thread does, and what closes a socket that is refused.\<close>

lemma quiet_sim:
  assumes "sys_sim w0 S J order" and "quiet (sys_world S) w"
  shows "sys_sim w0 (S\<lparr>sys_world := w\<rparr>) J order"
proof -
  have "sim J (sys_world S) (map th_conn (sys_threads S)) order"
    using assms(1) by (simp add: sys_sim_def threads_sim_def)
  from sim_quietly [OF this assms(2)] have "threads_sim J (sys_asked S) w (sys_threads S) order"
    using assms(1) unfolding sys_sim_def threads_sim_def by blast
  with assms(1) quiet_same_conn [OF assms(2)] show ?thesis by (simp add: sys_sim_def same_conn_def)
qed

lemma saver_sim [simp]: "sys_sim w0 (S\<lparr>sys_saver := v\<rparr>) = sys_sim w0 S"
  by (intro ext) (simp add: sys_sim_def)

lemma refuses_quiet:
  assumes "calm u" and "server_accept_client u acc tid = Inr (rc, None, w)"
  shows "quiet u w"
proof -
  have "sys_close u fd = (0, emit [Close fd] u)" "w_mem u = []" for fd
    using assms(1) by (simp_all add: sys_close_def calm_def)
  then have "\<exists>es. w = emit es u \<and> sends es = []"
    using assms(2) by (cases acc) (auto simp: server_accept_client_def Let_def res_bind_eq_Inr
      intro: exI [of _ "[]"] exI [of _ "[Close x]" for x] split: option.splits if_splits prod.splits bool.splits)
  then show ?thesis using quiet_emit by blast
qed

lemma sim_socks:
  assumes "sim J w (map th_conn ts) order" and "i < length ts"
  shows "\<exists>c. client_of w (c_slot (th_conn (ts ! i))) = Inr c \<and> sock c = j_fds J ! i"
  using assms by (auto simp: sim_def conn_sim_def)

lemma accepts_sim:
  assumes inv: "sys_sim w0 S J order" and "fresh_fd (sys_world S) (sys_threads S) fd"
    and acc: "server_accept_client (sys_world S) (Accepted fd a p) tid = Inr (rc, Some k, w)" and "stream_ok (received rs)"
    and "\<not> j_gets J \<longrightarrow> (\<forall>ws \<in> set (asks (received rs)). command_of ws \<noteq> CMD_GET)"
  shows "\<exists>J'. sys_sim w0 (join_thread k fd rs w S) J' order \<and> j_gets J' = j_gets J \<and>
    db_tables (sys_world (join_thread k fd rs w S)) = db_tables (sys_world S)"
proof -
  let ?W = "sys_world S" and ?ts = "sys_threads S" and ?n = "length (sys_log S)" and ?J = "more_conns J fd (sent fd (sys_world S))"
  have sm1: "threads_sim J (sys_asked S) ?W ?ts order" using inv by (simp add: sys_sim_def)
  then have "sim J ?W (map th_conn ?ts) order" unfolding threads_sim_def by blast
  note sm = sm1 this
  have W: "world_wf ?W" "calm ?W" "small_values ?W" using sm(2) by (auto simp: sim_def world_sim_def)
  have "length (sys_asked S) = length ?ts" using sm(1) unfolding threads_sim_def by blast
  then have l: "length ?ts = ?n" "length (j_fds J) = ?n" using inv by (simp_all add: sys_sim_def)
  obtain s where s: "server ?W = Some s" "clients_count s = int k" "k < MAX_CONN"
      "w = registered ?W k ((clients_array s ! k)\<lparr>sock := fd, ip := a, port := p\<rparr>) tid" "world_wf w"
    using accept_outcome [OF acc W(1)] by auto
  let ?c = "(clients_array s ! k)\<lparr>sock := fd, ip := a, port := p\<rparr>"
  have k: "k = ?n" using inv s(1,2) by (auto simp: sys_sim_def conns_def)
  obtain c0 where "client_of ?W k = Inr c0" "db c0 = 0" using inv s(3) k by (auto simp: sys_sim_def)
  then have d: "db ?c = 0" using s(1) by (auto simp: client_of_def split: if_splits)
  have w: "calm w" "small_values w" "db_map w = db_map ?W" "w_bufs w = w_bufs ?W" "\<And>fd. sent fd w = sent fd ?W"
    "client_of w j = (if j = k then Inr ?c else client_of ?W j)"
    "conns w = map_option (\<lambda>(socks, ths, m). (socks[k := fd], ths[k := Some tid], m + 1)) (conns ?W)" for j
    using W s(3,4) by (simp_all add: registered_simps registered_same client_of_registered conns_registered)
  have "fd \<noteq> j_fds J ! i" if "i < ?n" for i
    using sim_socks [OF sm(2), of i] assms(2) that l(1) nth_mem [of i ?ts] by (auto simp: fresh_fd_def)
  then have fd: "fd \<notin> set (j_fds J)" "fd \<noteq> -1" using l(2) assms(2) by (auto simp: in_set_conv_nth fresh_fd_def)
  have slots: "map c_slot (map th_conn ?ts) = [0..<?n]" using inv by (simp add: sys_sim_def comp_def)
  obtain cmd qb where st: "worker_start w = (Some (cmd, qb), w)" "toks_wf (tokens cmd)" "sb_holds_raw qb []"
    using worker_start_calm [OF w(1)] by blast
  then have t: "thread_of w (k, rs) =
      \<lparr>th_conn = conn_for k [], th_in = rs, th_qb = qb, th_cmd = cmd, th_cur = None, th_done = False\<rparr>"
    by (simp add: thread_of_def)
  have r: "reads (thread_of w (k, rs)) (asks (received rs))"
    unfolding t using st assms(4) by (intro readsI [where s = "[]" and r = "[]"]) (simp_all add: conn_for_def stream_ok_def)
  have "sim ?J w (map th_conn ?ts @ [conn_for k []]) order"
    using W s(5) w d fd slots l(1) inv k
    by (intro sim_join [OF sm(2), where c = ?c]) (auto simp: sys_sim_def)
  moreover have "no_derefs [conn_for k []]" by (simp add: no_derefs_def conn_for_def)
  moreover have "length (j_words J) = ?n" using sm(2) l(1) by (simp add: sim_def job_ok_def)
  then have "\<exists>wss. (sys_asked S @ [asks (received rs)]) ! i = j_words ?J ! i @ wss \<and> reads ((?ts @ [thread_of w (k, rs)]) ! i) wss"
    if "i < Suc ?n" for i
    using that sm(1) l(1) r by (cases "i = ?n") (auto simp: threads_sim_def more_conns_def nth_append)
  ultimately have "threads_sim ?J (sys_asked S @ [asks (received rs)]) w (?ts @ [thread_of w (k, rs)]) order"
    using sm(1) l assms(5)
    by (auto simp: threads_sim_def th_conn_start no_derefs_def) (simp_all add: more_conns_def)
  then have "sys_sim w0 (join_thread k fd rs w S) ?J order"
    using inv w k st(1) fd l(2)
    by (auto simp: sys_sim_def join_thread_def th_conn_start more_conns_def nth_append less_Suc_eq)
  moreover have "j_gets ?J = j_gets J" by (simp add: more_conns_def)
  moreover have "db_tables w = db_tables ?W"
    using s(4) registered_simps(1) [of ?W k ?c tid] by (simp add: db_tables_def registered_def put_thread_def put_client_def add_clients_def split: option.splits)
  ultimately show ?thesis using st(1) by (auto simp: join_thread_def)
qed

section \<open>The invariant of the system\<close>

text \<open>The tables \<open>ts\<close> hold the databases \<open>dbs\<close>.\<close>

definition holds_dbs :: "HashTable list \<Rightarrow> (nat \<Rightarrow> string \<Rightarrow> string option) \<Rightarrow> bool" where
  "holds_dbs ts dbs \<longleftrightarrow> length ts = NUM_DBS \<and> (\<forall>t \<in> set ts. ht_wf t) \<and> (\<forall>d < NUM_DBS. ht_lookup (ts ! d) = dbs d)"

text \<open>
  They hold the databases as they are after some first commands of the order, among them all those of
  the connection \<open>i\<close>.
\<close>

definition seen_by :: "Ser \<Rightarrow> (nat \<times> string list) list \<Rightarrow> nat \<Rightarrow> HashTable list \<Rightarrow> bool" where
  "seen_by s0 order i ts \<longleftrightarrow> (\<exists>m \<le> length order. only i (take m order) = only i order \<and>
     holds_dbs ts (s_dbs (snd (serial (take m order) s0))))"

lemma seen_by_more:
  assumes "seen_by s0 order i ts" and "only i ys = []"
  shows "seen_by s0 (order @ ys) i ts"
proof -
  from assms(1) obtain m where m: "m \<le> length order" "only i (take m order) = only i order"
      "holds_dbs ts (s_dbs (snd (serial (take m order) s0)))"
    unfolding seen_by_def by blast
  then have "take m (order @ ys) = take m order" "m \<le> length (order @ ys)" "only i (take m order) = only i (order @ ys)"
    using assms(2) by simp_all
  with m(3) show ?thesis unfolding seen_by_def by metis
qed

lemma seen_now:
  assumes "sim J w cs order"
  shows "seen_by (j_start J) order i (db_tables w)"
proof -
  obtain rs s where "serial order (j_start J) = (rs, s)" "world_sim w s" using assms by (auto simp: sim_def)
  then have "holds_dbs (db_tables w) (s_dbs (snd (serial (take (length order) order) (j_start J))))"
    using db_tables_wf [of w] by (simp add: holds_dbs_def world_sim_def)
  then show ?thesis unfolding seen_by_def by (intro exI [of _ "length order"]) simp
qed

lemma only_out: "i \<notin> fst ` set order \<Longrightarrow> only i order = []"
  by (induction order) (auto simp: only_def)

lemma seen_by_out:
  assumes "i \<notin> fst ` set order" and "j \<notin> fst ` set order"
  shows "seen_by s0 order i = seen_by s0 order j"
proof -
  have "only i (take m order) = []" "only j (take m order) = []" for m
    using assms by (auto intro!: only_out dest: in_set_takeD)
  with only_out [OF assms(1)] only_out [OF assms(2)] show ?thesis by (intro ext) (simp add: seen_by_def)
qed

definition sys_inv :: "World \<Rightarrow> Sys \<Rightarrow> Job \<Rightarrow> (nat \<times> string list) list \<Rightarrow> bool" where
  "sys_inv w0 S J order \<longleftrightarrow> sys_sim w0 S J order \<and> saver_ok (sys_saver S) \<and>
     snap_inv (seen_by (j_start J) order) (sys_world S, map th_conn (sys_threads S) @ [sys_saver S])"

lemma sys_invD:
  assumes "sys_inv w0 S J order"
  shows "sys_sim w0 S J order" "sim J (sys_world S) (map th_conn (sys_threads S)) order" "world_wf (sys_world S)" "calm (sys_world S)"
    "j_start J = serial_start w0" "saver_ok (sys_saver S)"
    "snap_inv (seen_by (j_start J) order) (sys_world S, map th_conn (sys_all S))" "length (sys_threads S) = length (sys_log S)"
    "fst ` set order \<subseteq> {..<length (sys_log S)}"
proof -
  show s: "sys_sim w0 S J order" "saver_ok (sys_saver S)"
    "snap_inv (seen_by (j_start J) order) (sys_world S, map th_conn (sys_all S))"
    using assms by (simp_all add: sys_inv_def)
  show sm: "sim J (sys_world S) (map th_conn (sys_threads S)) order" "j_start J = serial_start w0"
    "length (sys_threads S) = length (sys_log S)"
    using s(1) by (simp_all add: sys_sim_def threads_sim_def)
  then show "fst ` set order \<subseteq> {..<length (sys_log S)}" by (simp add: sim_def)
  from sm(1) show "world_wf (sys_world S)" "calm (sys_world S)" by (auto simp: sim_def world_sim_def)
qed

lemma sees_more:
  assumes "sim J w cs order" and "\<And>j p. j < length ds \<Longrightarrow> c_now (ds ! j) = Some p \<Longrightarrow> settled p \<Longrightarrow> only j ys = []"
  shows "sees (seen_by (j_start J) order) (w, ds) (seen_by (j_start J) (order @ ys))"
  using assms(2) seen_now [OF assms(1)] seen_by_more by (simp add: sees_def)

lemma works_inv:
  assumes inv: "sys_inv w0 S J order" and st: "work_step (sys_world S, sys_all S) (w, ts @ [saver_thread v])"
    and "\<forall>ws \<in> set (concat (sys_asked S)). plain ws"
  shows "\<exists>J' more. sys_inv w0 (S\<lparr>sys_world := w, sys_threads := ts, sys_saver := v\<rparr>) J' (order @ more) \<and> j_gets J' = j_gets J"
proof -
  note i = sys_invD [OF inv]
  note snap = snap_step [OF st i(7) sees_more [OF i(2)]]
  from work_step_split [OF st i(6,3)] show ?thesis
  proof (elim disjE exE conjE)
    fix ts' assume u: "ts @ [saver_thread v] = ts' @ [saver_thread (sys_saver S)]" "work_step (sys_world S, sys_threads S) (w, ts')"
    then have v: "v = sys_saver S" "ts' = ts" by (simp_all add: saver_thread_def)
    have st: "sys_sim w0 U K order' \<Longrightarrow> j_start K = j_start J" for U K order'
      using i(5) by (simp add: sys_sim_def)
    from works_sim [OF i(1) u(2) assms(3)] v st obtain J' more where
      w: "sys_sim w0 (S\<lparr>sys_world := w, sys_threads := ts\<rparr>) J' (order @ more)" "j_gets J' = j_gets J" "j_start J' = j_start J"
        "\<And>j p. j < length (sys_threads S) \<Longrightarrow> c_now (th_conn (sys_threads S ! j)) = Some p \<Longrightarrow> settled p \<Longrightarrow> only j more = []"
      by blast
    have "fst ` set (order @ more) \<subseteq> {..<length ts}" using w(1) by (simp add: sys_sim_def threads_sim_def sim_def)
    moreover have "length ts = length (sys_threads S)" using w(1) i(8) by (simp add: sys_sim_def threads_sim_def)
    ultimately have "only (length (sys_threads S)) more = []" by (auto intro!: only_out)
    then have "snap_inv (seen_by (j_start J) (order @ more)) (w, map th_conn (ts @ [saver_thread v]))"
      using w(4) by (intro snap) (auto simp: nth_append less_Suc_eq split: if_splits)
    then show ?thesis
      using w i(6) v by (intro exI [of _ J'] exI [of _ more]) (simp add: sys_inv_def)
  next
    fix v' assume u: "ts @ [saver_thread v] = sys_threads S @ [saver_thread v']" "quiet (sys_world S) w" "saver_ok v'"
    then have "v' = v" "ts = sys_threads S" by (simp_all add: saver_thread_def)
    then show ?thesis
      using quiet_sim [OF i(1) u(2)] u(3) snap [of "[]"] by (intro exI [of _ J] exI [of _ "[]"]) (simp add: sys_inv_def)
  qed
qed

section \<open>From the start of the process\<close>

definition good_input :: "bool \<Rightarrow> int \<times> recv list \<Rightarrow> bool" where
  "good_input gets x \<longleftrightarrow> stream_ok (received (snd x)) \<and>
     (\<not> gets \<longrightarrow> (\<forall>ws \<in> set (asks (received (snd x))). command_of ws \<noteq> CMD_GET))"

lemma boot_fresh:
  assumes "boot w0 w"
  shows "world_wf w" "\<exists>socks ths. conns w = Some (socks, ths, 0)" "k < MAX_CONN \<Longrightarrow> client_of w k = Inr zero_client"
proof -
  from assms obtain fd prt addr rst u where b: "server_create w0 fd 0 prt addr rst = Go u" "server_setup u 0 = Inr (Go w)"
    by (auto simp: boot_def)
  obtain m where u: "u = w0\<lparr>w_mem := m, server := Some (zero_server\<lparr>srv_port := prt, srv_addr := addr, restore := rst, srv_sock := fd\<rparr>)\<rparr>"
    using b(1) by (cases "malloc (w_mem w0)") (auto simp: server_create_def Let_def split: bool.splits if_splits)
  then have "world_wf u" "conns u = Some (replicate MAX_CONN 0, replicate MAX_CONN None, 0)"
    "k < MAX_CONN \<Longrightarrow> client_of u k = Inr zero_client" for k
    using zero_server_wf by (simp_all add: world_wf_def conns_def client_of_def) (simp_all add: zero_server_def zero_client_def)
  moreover have "(world_wf u \<longrightarrow> world_wf w) \<and> conns w = conns u \<and> client_of w = client_of u"
    using b(2) rdb_load_keeps [of u None]
    by (auto simp: server_setup_def res_bind_eq_Inr load_keeps_def split: option.splits if_splits)
  ultimately show "world_wf w" "\<exists>socks ths. conns w = Some (socks, ths, 0)" "k < MAX_CONN \<Longrightarrow> client_of w k = Inr zero_client"
    by simp_all
qed

lemma boot_sys_inv:
  assumes "boot w0 w" and "calm w" and "small_values w"
  shows "\<exists>J. sys_inv w (sys_start w) J [] \<and> j_gets J = g"
proof -
  let ?J = "\<lparr>j_words = [], j_fds = [], j_out = (\<lambda>_. []), j_start = serial_start w, j_gets = g\<rparr>"
  have "sim ?J w [] []"
    using boot_fresh(1) [OF assms(1)] assms(2,3)
    by (simp add: sim_def job_ok_def well_locked_def exclusive_def held_by_def world_sim_def)
  then have "sys_sim w (sys_start w) ?J []"
    using boot_fresh(2,3) [OF assms(1)] by (simp add: sys_sim_def sys_start_def threads_sim_def no_derefs_def zero_client_def)
  moreover have "snap_inv P (w, [saver_conn None])" for P
    using db_tables_wf(1) [OF boot_fresh(1) [OF assms(1)]] by (intro snap_inv_start) (simp_all add: idle_def saver_conn_def)
  ultimately have "sys_inv w (sys_start w) ?J []"
    by (simp add: sys_inv_def sys_start_def saver_ok_def saver_conn_def)
  then show ?thesis by (intro exI [of _ ?J]) simp
qed

lemma sys_step_inv:
  assumes "sys_step S S'" and inv: "sys_inv w0 S J order" and "\<forall>x \<in> set (sys_log S'). good_input (j_gets J) x"
  shows "\<exists>J' more. sys_inv w0 S' J' (order @ more) \<and> j_gets J' = j_gets J"
  using assms(1)
proof cases
  case (accepts fd a p tid k w rs)
  note i = sys_invD [OF inv]
  obtain J' where J': "sys_sim w0 S' J' order" "j_gets J' = j_gets J" "db_tables (sys_world S') = db_tables (sys_world S)"
    using accepts_sim [OF i(1) accepts(2,3), of rs] assms(3) accepts(1) by (auto simp: join_thread_def good_input_def)
  have "j_start J' = j_start J" using J'(1) i(5) by (simp add: sys_sim_def)
  moreover have out: "seen_by s0 order (Suc (length (sys_threads S))) = seen_by s0 order (length (sys_threads S))" for s0
    using i(8,9) by (intro seen_by_out) auto
  ultimately have "sys_inv w0 S' J' order"
    using J' i(6) snap_joins(2) [OF _ J'(3), of _ "map th_conn (sys_threads S)" "sys_saver S" k] i(7) accepts(1) out
    by (simp add: sys_inv_def join_thread_def th_conn_start)
  with J'(2) show ?thesis by (intro exI [of _ J'] exI [of _ "[]"]) simp
next
  case (refuses acc tid w)
  note i = sys_invD [OF inv]
  have q: "quiet (sys_world S) w" by (rule refuses_quiet [OF i(4) refuses(2)])
  then have "db_tables w = db_tables (sys_world S)" by (auto simp: quiet_def)
  with quiet_sim [OF i(1) q] snap_joins(1) [of _ "sys_world S" _ "sys_saver S" w] i(6,7) refuses(1) show ?thesis
    by (intro exI [of _ J] exI [of _ "[]"]) (simp add: sys_inv_def)
next
  case (works w ts v)
  have "\<forall>ws \<in> set (concat (sys_asked S)). plain ws"
    using assms(3) works(1) by (auto simp: good_input_def stream_ok_def)
  with works_inv [OF inv works(2)] works(1) show ?thesis by blast
next
  case wakes
  have "sees (seen_by (j_start J) order) (sys_world S, map th_conn (sys_threads S) @ [sys_saver S]) (seen_by (j_start J) order)"
    using sees_more [OF sys_invD(2) [OF inv], of _ "[]"] by simp
  with wakes snap_wakes [of "seen_by (j_start J) order" "sys_world S" "map th_conn (sys_threads S)" "sys_saver S"] inv show ?thesis
    by (intro exI [of _ J] exI [of _ "[]"]) (simp add: sys_inv_def)
qed

lemma sys_step_log: "sys_step S S' \<Longrightarrow> set (sys_log S) \<subseteq> set (sys_log S')"
  by (cases rule: sys_step.cases) (auto simp: join_thread_def)

lemma sys_run_inv:
  assumes "sys_run (sys_start w) S" and "boot w0 w" "calm w" "small_values w" and "\<forall>x \<in> set (sys_log S). good_input g x"
  shows "\<exists>J order. sys_inv w S J order \<and> j_gets J = g"
  using assms(1,5)
proof (induction rule: rtranclp_induct)
  case base
  then show ?case using boot_sys_inv [OF assms(2-4)] by blast
next
  case (step S S')
  with sys_step_log [OF step(2)] obtain J order where "sys_inv w S J order" "j_gets J = g" by blast
  with sys_step_inv [OF step(2) this(1)] step(4) show ?case by auto
qed

lemma sys_waiting_serial:
  assumes "sys_sim w S J order" and "sys_waiting S"
  shows "\<exists>rs s. serial order (serial_start w) = (rs, s) \<and>
    fst ` set order \<subseteq> {..<length (sys_log S)} \<and> db_map (sys_world S) = s_dbs s \<and>
    (\<forall>i < length (sys_log S). only i order = asks (received (snd (sys_log S ! i))) \<and>
       sent (fst (sys_log S ! i)) (sys_world S) = sent (fst (sys_log S ! i)) w @ map resp_encode (only i rs))"
proof -
  have J: "threads_sim J (sys_asked S) (sys_world S) (sys_threads S) order" "j_start J = serial_start w"
    "\<And>i. i < length (sys_log S) \<Longrightarrow> j_fds J ! i = fst (sys_log S ! i) \<and> j_out J i = sent (fst (sys_log S ! i)) w"
    using assms(1) by (simp_all add: sys_sim_def)
  have "all_waiting (sys_world S, sys_threads S)" using assms(2) by (simp add: sys_waiting_def all_waiting_def)
  with waiting_serial [OF J(1)] J(2,3) show ?thesis by auto
qed

text \<open>The threads run on to the end while no connection is accepted.\<close>

lemma works_run:
  assumes "work_run r r'" and "r = (sys_world S, sys_all S)"
    and inv: "\<And>U. sys_run S U \<Longrightarrow> sys_log U = sys_log S \<Longrightarrow> \<exists>J order. sys_inv w0 U J order"
  shows "\<exists>S'. sys_run S S' \<and> sys_log S' = sys_log S \<and> r' = (sys_world S', sys_all S')"
  using assms(1)
proof (induction rule: rtranclp_induct)
  case base
  then show ?case using assms(2) by blast
next
  case (step u x)
  then obtain U where U: "sys_run S U" "sys_log U = sys_log S" "u = (sys_world U, sys_all U)" by blast
  then obtain J order where "sys_inv w0 U J order" using inv by blast
  moreover obtain w us where x: "x = (w, us)" by (cases x)
  ultimately obtain ts v where us: "us = ts @ [saver_thread v]"
    using work_step_split [of "sys_world U" "sys_threads U" "sys_saver U" w us] step(2) U(3) sys_invD(3,6) by blast
  let ?U = "U\<lparr>sys_world := w, sys_threads := ts, sys_saver := v\<rparr>"
  have "sys_step U ?U" using works [of U w ts v] step(2) U(3) x us by simp
  with U(1) have "sys_run S ?U" by (rule rtranclp.rtrancl_into_rtrancl)
  with U(2) x us show ?case by (intro exI [of _ ?U]) simp
qed

lemma saves_not_broken: "saves p \<Longrightarrow> p \<noteq> Broken u"
  by (auto elim: saves.cases)

lemma inv_no_crash:
  assumes "sys_inv w0 S J order" and "\<not> j_gets J"
  shows "well_locked (map th_conn (sys_all S)) \<and> \<not> crashed (conns_of (sys_world S, sys_all S))"
proof -
  note i = sys_invD [OF assms(1)]
  have "\<not> crashed (sys_world S, map th_conn (sys_threads S))" using sim_no_crash [OF i(2) assms(2)] by simp
  moreover have "c_now (sys_saver S) \<noteq> Some (Broken u)" for u using i(6) saves_not_broken by (auto simp: saver_ok_def)
  ultimately show ?thesis using i(7) by (auto simp: crashed_def snap_inv_def)
qed

lemma sys_finish:
  assumes "sys_run (sys_start w) S" and "boot w0 w" "calm w" "small_values w" and "\<forall>x \<in> set (sys_log S). good_input False x"
  shows "\<not> crashed (conns_of (sys_world S, sys_all S)) \<and>
    (\<exists>S'. sys_run S S' \<and> sys_waiting S' \<and> sys_log S' = sys_log S)"
proof -
  have ok: "\<exists>J order. sys_inv w U J order \<and> \<not> j_gets J" if U: "sys_run S U" "sys_log U = sys_log S" for U
  proof -
    have u: "sys_run (sys_start w) U" using assms(1) U(1) by (rule rtranclp_trans)
    then show ?thesis using sys_run_inv [OF u assms(2-4), of False] U(2) assms(5) by auto
  qed
  obtain r' where r': "work_run (sys_world S, sys_all S) r'" "\<And>u. \<not> work_step r' u" using work_run_ends by blast
  from works_run [OF r'(1) refl, of w] ok
  obtain S' where S': "sys_run S S'" "sys_log S' = sys_log S" "r' = (sys_world S', sys_all S')" by blast
  obtain J' order' where "sys_inv w S' J' order'" "\<not> j_gets J'" using ok [OF S'(1,2)] by blast
  from inv_no_crash [OF this] have "sys_waiting S'"
    using work_progress [of "sys_all S'" "sys_world S'"] r'(2) S'(3) by (auto simp: sys_waiting_def)
  moreover have "\<not> crashed (conns_of (sys_world S, sys_all S))"
    using ok [of S] inv_no_crash by blast
  ultimately show ?thesis using S'(1,2) by blast
qed

text \<open>A server with room takes the next connection.\<close>

lemma accept_more:
  assumes "sys_sim w0 S J order" and "length (sys_log S) < MAX_CONN" and "0 \<le> fd" and "fd \<notin> fst ` set (sys_log S)"
  shows "\<exists>S'. sys_step S S' \<and> sys_log S' = sys_log S @ [(fd, rs)]"
proof -
  let ?W = "sys_world S"
  have sm1: "threads_sim J (sys_asked S) ?W (sys_threads S) order" using assms(1) by (simp add: sys_sim_def)
  then have sm: "sim J ?W (map th_conn (sys_threads S)) order" unfolding threads_sim_def by blast
  have "length (sys_asked S) = length (sys_threads S)" using sm1 unfolding threads_sim_def by blast
  then have l: "length (sys_threads S) = length (sys_log S)" by simp
  have W: "world_wf ?W" "calm ?W" using sm by (auto simp: sim_def world_sim_def)
  obtain s where s: "server ?W = Some s" "server_wf s" "clients_count s = int (length (sys_log S))"
    using assms(1) W(1) by (auto simp: sys_sim_def conns_def world_wf_def)
  have "sock c \<noteq> fd" if i: "i < length (sys_threads S)" and "client_of ?W (c_slot (th_conn (sys_threads S ! i))) = Inr c" for i c
  proof -
    have "j_fds J ! i \<in> fst ` set (sys_log S)" using assms(1) i l by (simp add: sys_sim_def)
    then show ?thesis using sim_socks [OF sm i] that(2) assms(4) by auto
  qed
  then have f: "fresh_fd ?W (sys_threads S) fd" using assms(3) unfolding fresh_fd_def by (metis in_set_conv_nth)
  have "fst (malloc (w_mem ?W))" using W(2) by (simp add: calm_def)
  with accept_cases [OF s(1,2), of fd "[]" 0 0] s(3) assms(2)
  obtain w where "server_accept_client ?W (Accepted fd [] 0) 0 = Inr (0, Some (length (sys_log S)), w)" by auto
  from accepts [OF f this, of rs] show ?thesis by (auto simp: join_thread_def)
qed

section \<open>The properties\<close>

text \<open>
C2. The whole server is serialisable.  Start the process, with or without a snapshot, and let its main thread
accept connections at any time while the threads of the earlier ones read their streams in any pieces,
parse, take locks, call the tables and reply in any interleaving.  If nothing fails and every line that is
sent is a plain command, then whenever all threads have come to rest there is one order of all complete
lines of all clients, those of each client in the order it sent them, such that executing them one after
the other on sixteen finite maps, each client starting in database 0, gives exactly the databases of the
server and the replies that each client has been sent.
\<close>
theorem system_serialises:
  assumes "boot w0 w" and "calm w" and "small_values w" and "sys_run (sys_start w) S" and "sys_waiting S"
    and "\<forall>x \<in> set (sys_log S). stream_ok (received (snd x))"
  shows "\<exists>order rs s. serial order (serial_start w) = (rs, s) \<and>
    fst ` set order \<subseteq> {..<length (sys_log S)} \<and> db_map (sys_world S) = s_dbs s \<and>
    (\<forall>i < length (sys_log S). only i order = asks (received (snd (sys_log S ! i))) \<and>
       sent (fst (sys_log S ! i)) (sys_world S) = sent (fst (sys_log S ! i)) w @ map resp_encode (only i rs))"
proof -
  obtain J order where "sys_inv w S J order"
    using sys_run_inv [OF assms(4,1-3), of True] assms(6) by (auto simp: good_input_def)
  from sys_waiting_serial [OF sys_invD(1) [OF this] assms(5)] show ?thesis by blast
qed

definition all_answered :: "World \<Rightarrow> Sys \<Rightarrow> bool" where
  "all_answered w S \<longleftrightarrow> (\<exists>order rs s. serial order (serial_start w) = (rs, s) \<and> db_map (sys_world S) = s_dbs s \<and>
    (\<forall>i < length (sys_log S). only i order = asks (received (snd (sys_log S ! i))) \<and>
       length (only i rs) = length (asks (received (snd (sys_log S ! i)))) \<and>
       sent (fst (sys_log S ! i)) (sys_world S) = sent (fst (sys_log S ! i)) w @ map resp_encode (only i rs)))"

lemma serial_only_length: "serial order s = (rs, s') \<Longrightarrow> length (only i rs) = length (only i order)"
proof (induction order arbitrary: rs s' rule: rev_induct)
  case (snoc x order)
  obtain j ws where "x = (j, ws)" by force
  with snoc show ?case by (auto split: prod.splits)
qed simp

lemma waiting_answered:
  assumes "sys_inv w S J order" and "sys_waiting S"
  shows "all_answered w S"
  using sys_waiting_serial [OF sys_invD(1) [OF assms(1)] assms(2)] serial_only_length
  unfolding all_answered_def by metis

text \<open>
C11. The whole server keeps going.  From every state that the process reaches with nothing failing, as long as the
clients send plain commands and no GET: no thread has run into undefined behaviour, a connection is
accepted when fewer than 512 have been accepted, and the threads, whose runs all end between two
connections, can always go on until every complete line of every client has been answered; and in whatever
way they go on, a state in which none of them can move any more is one in which every line has been answered: the
lines of all clients, those of each in the order it sent them, have been executed one after the other, and each
client has been sent one reply for each of its lines, the one of this execution.
\<close>
theorem system_keeps_going:
  assumes "boot w0 w" and "calm w" and "small_values w" and "sys_run (sys_start w) S"
    and "\<forall>x \<in> set (sys_log S). stream_ok (received (snd x)) \<and> (\<forall>ws \<in> set (asks (received (snd x))). command_of ws \<noteq> CMD_GET)"
  shows "wfP (\<lambda>r' r. work_step r r') \<and> \<not> crashed (sys_world S, map th_conn (sys_all S)) \<and>
    (length (sys_log S) < 512 \<longrightarrow> 0 \<le> fd \<longrightarrow> fd \<notin> fst ` set (sys_log S) \<longrightarrow>
       (\<exists>S'. sys_step S S' \<and> sys_log S' = sys_log S @ [(fd, rs)])) \<and>
    (\<exists>S'. sys_run S S' \<and> sys_waiting S' \<and> sys_log S' = sys_log S \<and> all_answered w S') \<and>
    (\<forall>S'. sys_run S S' \<and> sys_log S' = sys_log S \<and> (\<forall>r. \<not> work_step (sys_world S', sys_all S') r) \<longrightarrow> all_answered w S')"
proof -
  have ok: "\<forall>x \<in> set (sys_log S). good_input False x" using assms(5) by (simp add: good_input_def)
  have inv: "\<exists>J order. sys_inv w U J order \<and> \<not> j_gets J" if "sys_run S U" "sys_log U = sys_log S" for U
    using sys_run_inv [OF rtranclp_trans [OF assms(4) that(1)] assms(1-3), of False] ok that(2) by auto
  have stuck: "sys_waiting U" if "sys_run S U" "sys_log U = sys_log S" "\<forall>r. \<not> work_step (sys_world U, sys_all U) r" for U
    using inv [OF that(1,2)] inv_no_crash work_progress [of "sys_all U" "sys_world U"] that(3) by (auto simp: sys_waiting_def)
  obtain J order where "sys_inv w S J order" using inv [of S] by auto
  note more = accept_more [OF sys_invD(1) [OF this]]
  obtain S' where "sys_run S S'" "sys_waiting S'" "sys_log S' = sys_log S"
    using sys_finish [OF assms(4,1-3) ok] by blast
  then have "\<exists>S'. sys_run S S' \<and> sys_waiting S' \<and> sys_log S' = sys_log S \<and> all_answered w S'"
    using inv waiting_answered by blast
  moreover have "\<forall>S'. sys_run S S' \<and> sys_log S' = sys_log S \<and> (\<forall>r. \<not> work_step (sys_world S', sys_all S') r) \<longrightarrow> all_answered w S'"
    using stuck inv waiting_answered by blast
  ultimately show ?thesis
    using more sys_finish [OF assms(4,1-3) ok] wf_work_step by (simp add: MAX_CONN_def)
qed

text \<open>At any moment: what the clients have been sent, and what the saves are about to write.\<close>

lemma sys_sim_sent:
  assumes "sys_sim w S J order"
  shows "\<exists>rs s. serial order (serial_start w) = (rs, s) \<and>
    fst ` set order \<subseteq> {..<length (sys_log S)} \<and> db_map (sys_world S) = s_dbs s \<and>
    (\<forall>i < length (sys_log S). (\<exists>later. asks (received (snd (sys_log S ! i))) = only i order @ later) \<and>
       (\<exists>owed. length owed \<le> 1 \<and> sent (fst (sys_log S ! i)) (sys_world S) @ owed =
          sent (fst (sys_log S ! i)) w @ map resp_encode (only i rs)))"
proof -
  have J: "threads_sim J (sys_asked S) (sys_world S) (sys_threads S) order" "j_start J = serial_start w"
    "\<And>i. i < length (sys_log S) \<Longrightarrow> j_fds J ! i = fst (sys_log S ! i) \<and> j_out J i = sent (fst (sys_log S ! i)) w"
    using assms by (simp_all add: sys_sim_def)
  then have l: "length (sys_threads S) = length (sys_log S)" by (simp add: threads_sim_def)
  from J(1) obtain rs s gs where s: "serial order (j_start J) = (rs, s)" "world_sim (sys_world S) s" "fst ` set order \<subseteq> {..<length (sys_log S)}"
      "\<And>i. i < length (sys_log S) \<Longrightarrow> conn_sim J i (sys_world S) s order rs (map th_conn (sys_threads S) ! i) (gs i)"
    unfolding threads_sim_def sim_def using l by auto
  have "(\<exists>later. asks (received (snd (sys_log S ! i))) = only i order @ later) \<and>
      (\<exists>owed. length owed \<le> 1 \<and> sent (fst (sys_log S ! i)) (sys_world S) @ owed =
          sent (fst (sys_log S ! i)) w @ map resp_encode (only i rs))" if i: "i < length (sys_log S)" for i
  proof
    have "length (owed (gs i)) \<le> 1" by (cases "gs i") simp_all
    then show "\<exists>owed. length owed \<le> 1 \<and> sent (fst (sys_log S ! i)) (sys_world S) @ owed =
          sent (fst (sys_log S ! i)) w @ map resp_encode (only i rs)"
      using s(4) [OF i] J(3) [OF i] by (auto simp: conn_sim_def)
    show "\<exists>later. asks (received (snd (sys_log S ! i))) = only i order @ later"
      using s(4) [OF i] J(1) i l by (auto simp: conn_sim_def threads_sim_def)
  qed
  then show ?thesis using s J(2) by (auto simp: world_sim_def)
qed

text \<open>The file of a snapshot restores the databases \<open>dbs\<close>, over what the server holds that loads it.\<close>

definition restores :: "string \<Rightarrow> HashTable list \<Rightarrow> (nat \<Rightarrow> string \<Rightarrow> string option) \<Rightarrow> bool" where
  "restores path ts dbs \<longleftrightarrow> (\<forall>v. world_wf v \<longrightarrow> w_mem v = [] \<longrightarrow> files v path = Some (snapshot ts) \<longrightarrow>
     (\<forall>t \<in> set ts. saveable t) \<longrightarrow>
     (\<exists>v'. rdb_load v (Some path) = Inr (0, v') \<and> (\<forall>d < NUM_DBS. db_map v' d = db_map v d ++ dbs d)))"

lemma holds_dbs_restores: "holds_dbs ts dbs \<Longrightarrow> restores path ts dbs"
  by (auto simp: holds_dbs_def restores_def rdb_load_snapshot db_map_restored)

text \<open>
C3. Every snapshot of the running server is consistent with what its clients see.  At any moment of any run of the whole
server, with the snapshot thread and any SAVE commands at work between and during the commands of the
clients, there is one order of the commands begun so far, those of each client as it sent them, whose
serial execution gives the present databases and all replies, of which each client has been sent all but at most the
last; and whatever thread is about to write a snapshot, the tables it writes are the databases
after a first part of that order, which contains all commands of the client whose SAVE it is, so that a server that loads
the file is where the serial server was then.
\<close>
theorem system_snapshots:
  assumes "boot w0 w" and "calm w" and "small_values w" and "sys_run (sys_start w) S"
    and "\<forall>x \<in> set (sys_log S). stream_ok (received (snd x))"
  shows "\<exists>order rs s. serial order (serial_start w) = (rs, s) \<and>
    fst ` set order \<subseteq> {..<length (sys_log S)} \<and> db_map (sys_world S) = s_dbs s \<and>
    (\<forall>i < length (sys_log S). (\<exists>later. asks (received (snd (sys_log S ! i))) = only i order @ later) \<and>
       (\<exists>owed. length owed \<le> 1 \<and> sent (fst (sys_log S ! i)) (sys_world S) @ owed =
          sent (fst (sys_log S ! i)) w @ map resp_encode (only i rs))) \<and>
    (\<forall>i < length (sys_all S). \<forall>path ts p. c_now (th_conn (sys_all S ! i)) = Some (Dump path ts p) \<longrightarrow>
       (\<exists>m \<le> length order. only i (take m order) = only i order \<and>
          holds_dbs ts (s_dbs (snd (serial (take m order) (serial_start w)))) \<and>
          restores path ts (s_dbs (snd (serial (take m order) (serial_start w))))))"
proof -
  obtain J order where J: "sys_inv w S J order"
    using sys_run_inv [OF assms(4,1-3), of True] assms(5) by (auto simp: good_input_def)
  note i = sys_invD [OF J]
  have "seen_by (serial_start w) order i ts" if "i < length (sys_all S)" "c_now (th_conn (sys_all S ! i)) = Some (Dump path ts p)" for i path ts p
    using snap_inv_dump [OF i(7), of i path ts p] seen_now [OF i(2), of i] i(5) that by (simp del: map_append)
  then have d: "\<forall>i < length (sys_all S). \<forall>path ts p. c_now (th_conn (sys_all S ! i)) = Some (Dump path ts p) \<longrightarrow>
       (\<exists>m \<le> length order. only i (take m order) = only i order \<and>
          holds_dbs ts (s_dbs (snd (serial (take m order) (serial_start w)))) \<and>
          restores path ts (s_dbs (snd (serial (take m order) (serial_start w)))))"
    using holds_dbs_restores unfolding seen_by_def by meson
  obtain rs s where "serial order (serial_start w) = (rs, s) \<and>
    fst ` set order \<subseteq> {..<length (sys_log S)} \<and> db_map (sys_world S) = s_dbs s \<and>
    (\<forall>i < length (sys_log S). (\<exists>later. asks (received (snd (sys_log S ! i))) = only i order @ later) \<and>
       (\<exists>owed. length owed \<le> 1 \<and> sent (fst (sys_log S ! i)) (sys_world S) @ owed =
          sent (fst (sys_log S ! i)) w @ map resp_encode (only i rs)))"
    using sys_sim_sent [OF i(1)] by blast
  with d show ?thesis by (intro exI [of _ order] exI [of _ rs] exI [of _ s] conjI) blast+
qed

text \<open>A server that has restored a key from a snapshot and is about to write the next one.\<close>

lemma sample_saving:
  obtains w0 w S ts p where "boot w0 w" "calm w" "small_values w" "db_map w = db_map sample_world" "sys_run (sys_start w) S" "sys_log S = []"
    "c_now (sys_saver S) = Some (Dump RDB_PATH ts p)"
proof -
  obtain w0 w where b: "boot w0 w" "world_wf w" "db_map w = db_map sample_world" "calm w" "writable w RDB_PATH"
    using restored_start [OF sample_world_wf(1) saveable_sample sample_world_wf(4), of 3 5050 0] sample_world_wf
    unfolding boot_def by force
  have sv: "small_values w" using b(3) sample_small_values by (simp add: small_values_def)
  let ?S = "(sys_start w)\<lparr>sys_saver := saver_conn (Some worker_save_steps)\<rparr>"
  have "sys_step (sys_start w) ?S" using wakes [of "sys_start w"] by (simp add: sys_start_def saver_conn_def)
  then have s: "sys_run (sys_start w) ?S" by blast
  have o: "rdb_open RDB_PATH w = Inr (0, None, w\<lparr>files := (files w)(RDB_PATH := Some [])\<rparr>)"
    using b(2,5) by (auto simp: rdb_open_def world_wf_def)
  have "c_now (saver_conn (Some worker_save_steps)) = Some (rdb_save_steps (Some RDB_PATH) (Return 0 None))"
    by (simp add: saver_conn_def worker_save_steps_def rdb_save_steps_def)
  from lone_save [OF o db_tables_wf(1) [OF b(2)] this, of "[]"]
  obtain ts u v where "conn_run (w, [saver_conn (Some worker_save_steps)]) (u, [v])" "c_now v = Some (Dump RDB_PATH ts (Return 0 None))"
    by auto
  with runs_work [of w "sys_all ?S" "(u, [v])"] have "work_run (sys_world ?S, sys_all ?S) (u, [saver_thread v])"
    by (simp add: sys_start_def set_conns_def)
  moreover have "\<exists>J order. sys_inv w U J order" if "sys_run ?S U" "sys_log U = sys_log ?S" for U
    using sys_run_inv [OF rtranclp_trans [OF s that(1)] b(1,4) sv, of True] that(2) by (auto simp: sys_start_def)
  ultimately obtain S where S: "sys_run ?S S" "sys_log S = sys_log ?S" "(u, [saver_thread v]) = (sys_world S, sys_all S)"
    using works_run [of _ _ ?S w] by blast
  then have "sys_saver S = v" by (simp add: saver_thread_def)
  with that [OF b(1,4) sv b(3)] rtranclp_trans [OF s S(1)] S(2) \<open>c_now v = _\<close> show thesis by (simp add: sys_start_def)
qed

theorem system_snapshots_witness:
  "\<exists>w0 w S ts p. boot w0 w \<and> sys_run (sys_start w) S \<and> c_now (sys_saver S) = Some (Dump RDB_PATH ts p) \<and>
    ht_lookup (ts ! 0) = [''k'' \<mapsto> ''7''] \<and> restores RDB_PATH ts (db_map w)"
proof -
  obtain w0 w S ts p where s: "boot w0 w" "calm w" "small_values w" "db_map w = db_map sample_world" "sys_run (sys_start w) S"
      "sys_log S = []" "c_now (sys_saver S) = Some (Dump RDB_PATH ts p)"
    by (rule sample_saving)
  have "\<forall>x \<in> set (sys_log S). stream_ok (received (snd x))" using s(6) by simp
  from system_snapshots [OF s(1-3,5) this] s(6)
  obtain m where m: "holds_dbs ts (s_dbs (snd (serial (take m []) (serial_start w))))" "restores RDB_PATH ts (s_dbs (snd (serial (take m []) (serial_start w))))"
    using s(7) by fastforce
  then have "ht_lookup (ts ! 0) = [''k'' \<mapsto> ''7'']" "restores RDB_PATH ts (db_map w)"
    using s(4) by (simp_all add: holds_dbs_def NUM_DBS_def db_map_sample)
  with s show ?thesis by blast
qed

text \<open>Two clients that increment a key, accepted one after the other.\<close>

lemma sample_system:
  obtains w0 w S where "boot w0 w" "calm w" "small_values w" "sys_run (sys_start w) S"
    "sys_log S = [(5, [RecvData ''INC'', RecvData (''R k'' @ CRLF), RecvEof]), (6, [RecvData (''INCR k'' @ CRLF)])]"
proof -
  let ?a = "(5, [RecvData ''INC'', RecvData (''R k'' @ CRLF), RecvEof]) :: int \<times> recv list"
  have ok: "good_input True ?a" using sample_stream by (simp add: good_input_def)
  obtain u s where u: "server_create (boot_world zero_server) 3 0 0 0 0 = Go u" "calm u" "\<forall>d. db_map u d = Map.empty"
      "server u = Some s" "restore s = 0"
    using create_fresh [of "boot_world zero_server" 3 0 0 0] by auto
  then have "server_setup u 0 = Inr (Go u)" by (simp add: server_setup_def)
  with u(1) have b: "boot (boot_world zero_server) u" unfolding boot_def by blast
  have sv: "small_values u" using u(3) by (simp add: small_values_def short_value_def)
  obtain J where "sys_inv u (sys_start u) J []" using boot_sys_inv [OF b u(2) sv] by blast
  from accept_more [OF sys_invD(1) [OF this], of 5 "snd ?a"] obtain S1 where S1: "sys_step (sys_start u) S1" "sys_log S1 = [?a]"
    by (auto simp: sys_start_def MAX_CONN_def)
  then obtain J1 order where "sys_inv u S1 J1 order"
    using sys_run_inv [of u S1, OF _ b u(2) sv, of True] ok by auto
  from accept_more [OF sys_invD(1) [OF this], of 6 "[RecvData (''INCR k'' @ CRLF)]"] S1(2)
  obtain S2 where S2: "sys_step S1 S2" "sys_log S2 = [?a, (6, [RecvData (''INCR k'' @ CRLF)])]"
    by (auto simp: MAX_CONN_def)
  have "sys_run (sys_start u) S2" using S1(1) S2(1) by (meson r_into_rtranclp rtranclp.rtrancl_into_rtrancl)
  then show thesis using that b u(2) sv S2(2) by blast
qed

theorem system_keeps_going_witness:
  "\<exists>w S order rs s. length (sys_log S) = 2 \<and> sys_waiting S \<and> serial order (serial_start w) = (rs, s) \<and>
    only 0 order = [[''INCR'', ''k'']] \<and> only 1 order = [[''INCR'', ''k'']] \<and> length (only 0 rs) = 1 \<and> length (only 1 rs) = 1 \<and>
    sent 5 (sys_world S) = sent 5 w @ map resp_encode (only 0 rs) \<and> sent 6 (sys_world S) = sent 6 w @ map resp_encode (only 1 rs)"
proof -
  obtain w0 w S where s: "boot w0 w" "calm w" "small_values w" "sys_run (sys_start w) S"
      "sys_log S = [(5, [RecvData ''INC'', RecvData (''R k'' @ CRLF), RecvEof]), (6, [RecvData (''INCR k'' @ CRLF)])]"
    by (rule sample_system)
  have "\<forall>x \<in> set (sys_log S). stream_ok (received (snd x)) \<and> (\<forall>ws \<in> set (asks (received (snd x))). command_of ws \<noteq> CMD_GET)"
    using s(5) sample_stream sample_asks by (auto simp: command_of_def)
  then obtain S' where S': "sys_waiting S'" "sys_log S' = sys_log S" "all_answered w S'"
    using system_keeps_going [OF s(1-4)] by blast
  obtain order rs s' where o: "serial order (serial_start w) = (rs, s')"
      "\<And>i. i < 2 \<Longrightarrow> only i order = asks (received (snd (sys_log S' ! i))) \<and>
         length (only i rs) = length (asks (received (snd (sys_log S' ! i)))) \<and>
         sent (fst (sys_log S' ! i)) (sys_world S') = sent (fst (sys_log S' ! i)) w @ map resp_encode (only i rs)"
    using S'(2,3) s(5) unfolding all_answered_def by auto
  have l: "length (sys_log S') = 2" "fst (sys_log S' ! 0) = 5" "fst (sys_log S' ! 1) = 6"
      "received (snd (sys_log S' ! 0)) = ''INCR k'' @ CRLF" "received (snd (sys_log S' ! 1)) = ''INCR k'' @ CRLF"
    using S'(2) s(5) by simp_all
  show ?thesis using o(1) o(2) [of 0] o(2) [of 1] l S'(1) sample_asks by (intro exI [of _ w] exI [of _ S'] exI conjI) auto
qed

theorem system_serialises_witness:
  "\<exists>w0 w S order rs s. boot w0 w \<and> sys_run (sys_start w) S \<and> sys_waiting S \<and>
    only 0 order = [[''INCR'', ''k'']] \<and> only 1 order = [[''INCR'', ''k'']] \<and>
    sent 5 (sys_world S) = sent 5 w @ map resp_encode (only 0 rs) \<and> db_map (sys_world S) = s_dbs (s :: Ser)"
proof -
  obtain w0 w S0 where s: "boot w0 w" "calm w" "small_values w" "sys_run (sys_start w) S0"
      "sys_log S0 = [(5, [RecvData ''INC'', RecvData (''R k'' @ CRLF), RecvEof]), (6, [RecvData (''INCR k'' @ CRLF)])]"
    by (rule sample_system)
  have "\<forall>x \<in> set (sys_log S0). good_input False x"
    using s(5) sample_stream sample_asks by (auto simp: good_input_def command_of_def)
  then obtain S where S: "sys_run S0 S" "sys_waiting S" "sys_log S = sys_log S0"
    using sys_finish [OF s(4,1-3)] by blast
  have r: "sys_run (sys_start w) S" using s(4) S(1) by (rule rtranclp_trans)
  have st: "\<forall>x \<in> set (sys_log S). stream_ok (received (snd x))" using S(3) s(5) sample_stream by simp
  from system_serialises [OF s(1-3) r S(2) st]
  obtain order rs and s' :: Ser where o: "db_map (sys_world S) = s_dbs s'"
      "\<forall>i < length (sys_log S). only i order = asks (received (snd (sys_log S ! i))) \<and>
         sent (fst (sys_log S ! i)) (sys_world S) = sent (fst (sys_log S ! i)) w @ map resp_encode (only i rs)"
    by blast
  have l: "sys_log S ! 0 = (5, [RecvData ''INC'', RecvData (''R k'' @ CRLF), RecvEof])"
    "sys_log S ! 1 = (6, [RecvData (''INCR k'' @ CRLF)])" "length (sys_log S) = 2"
    using S(3) s(5) by simp_all
  have "received (snd (sys_log S ! 0)) = ''INCR k'' @ CRLF" "received (snd (sys_log S ! 1)) = ''INCR k'' @ CRLF"
    using l by simp_all
  then have "only 0 order = [[''INCR'', ''k'']]" "only 1 order = [[''INCR'', ''k'']]"
    "sent 5 (sys_world S) = sent 5 w @ map resp_encode (only 0 rs)"
    using o(2) [rule_format, of 0] o(2) [rule_format, of 1] l sample_asks by simp_all
  with s(1) r S(2) o(1) show ?thesis by blast
qed

end
