(* ===== verification/OneReply.thy ===== *)
theory OneReply
  imports CommandSpec Effects
begin

text \<open>
  What goes over the wire.  Whatever command is dispatched, in whatever state, and whichever allocations,
  sends, files and locks fail, it hands at most one message to \<open>send\<close>, on the socket of its own client, and
  the message is one that a reader of the protocol takes from the stream exactly; all of it goes out unless the
  result of \<open>send\<close> says how much.  With nothing failing, a complete command of an open connection is answered.
\<close>

section \<open>Typed messages\<close>

definition reads_as :: "string \<Rightarrow> resp \<Rightarrow> bool" where
  "reads_as m r \<longleftrightarrow> (\<forall>rest. resp_decode (m @ rest) = Some (r, rest))"

text \<open>Nothing is sent, no result of \<open>send\<close> is used up, and the client keeps its socket.\<close>

definition hush :: "nat \<Rightarrow> World \<Rightarrow> World \<Rightarrow> bool" where
  "hush k w u \<longleftrightarrow> (\<exists>es. trace u = trace w @ es \<and> sends es = []) \<and> send_res u = send_res w \<and>
     (\<forall>c. client_of u k = Inr c \<longrightarrow> (\<exists>c0. client_of w k = Inr c0 \<and> sock c0 = sock c))"

text \<open>What goes out of a message: all of it, or as much as the next result of \<open>send\<close> says; nothing when that is a failure.\<close>

definition goes_out :: "World \<Rightarrow> string \<Rightarrow> string \<Rightarrow> bool" where
  "goes_out w m b \<longleftrightarrow> (case send_res w of [] \<Rightarrow> b = m | Some n # _ \<Rightarrow> b = take n m | None # _ \<Rightarrow> False)"

definition one_reply :: "nat \<Rightarrow> World \<Rightarrow> World \<Rightarrow> bool" where
  "one_reply k w w' \<longleftrightarrow> (\<exists>es. trace w' = trace w @ es \<and>
     (sends es = [] \<or> (\<exists>c m b r. client_of w k = Inr c \<and> sends es = [(sock c, b)] \<and> goes_out w m b \<and> reads_as m r)))"

lemma hush_refl [simp, intro]: "hush k w w"
  by (auto simp: hush_def intro: exI [of _ "[]"])

lemma hush_emit: "hush k w u \<Longrightarrow> sends es = [] \<Longrightarrow> hush k w (emit es u)"
  unfolding hush_def by (auto simp: sends_append)

lemma hush_same: "hush k w u \<Longrightarrow> trace v = trace u \<Longrightarrow> send_res v = send_res u \<Longrightarrow> client_of v = client_of u \<Longrightarrow> hush k w v"
  by (simp add: hush_def)

lemma hush_one: "hush k w u \<Longrightarrow> one_reply k w u"
  by (auto simp: hush_def one_reply_def)

lemma one_before: "hush k w u \<Longrightarrow> one_reply k u v \<Longrightarrow> one_reply k w v"
  unfolding hush_def one_reply_def goes_out_def by (elim exE conjE disjE; fastforce)

lemma one_after: "one_reply k w u \<Longrightarrow> trace v = trace u @ es \<Longrightarrow> sends es = [] \<Longrightarrow> one_reply k w v"
  unfolding one_reply_def by (elim exE conjE disjE; fastforce)

lemma handled_before: "hush k w u \<Longrightarrow> handled_ok (one_reply k) u h \<Longrightarrow> handled_ok (one_reply k) w h"
  by (auto simp: handled_ok_def intro: one_before)

section \<open>The replies\<close>

lemma reply_text_one:
  assumes "int (length s) < INT_MAX \<Longrightarrow> reads_as s x"
  shows "handled_ok (one_reply k) w (reply_text w r k s err)"
  unfolding handled_ok_def
proof (intro allI impI)
  fix rc rp w' assume h: "reply_text w r k s err = Inr (rc, rp, w')"
  then have r: "reads_as s x" using assms by (auto simp: reply_text_def format_msg_def res_bind_eq_Inr split: if_splits)
  obtain ok m where m: "malloc (w_mem w) = (ok, m)" by force
  show "one_reply k w w'"
  proof (cases ok)
    case False
    with h m show ?thesis
      by (auto simp: reply_text_def format_msg_def one_reply_def split: if_splits intro!: exI [of _ "[]"])
  next
    case True
    let ?u = "w\<lparr>w_mem := m\<rparr>"
    from h m True obtain c where c0: "client_of w k = Inr c"
      by (auto simp: reply_text_def format_msg_def reply_send_def res_bind_eq_Inr Let_def split: if_splits)
    obtain n v where "sys_send ?u (sock c) s = (n, v)" by fastforce
    with h m True c0 have c: "client_of w k = Inr c" "sys_send ?u (sock c) s = (n, w')"
      by (auto simp: reply_text_def format_msg_def reply_send_def res_bind_eq_Inr Let_def split: if_splits)
    have "trace w' = trace w @ [] \<or> (\<exists>b. trace w' = trace w @ [Send (sock c) b] \<and> goes_out w s b)"
      using c(2) by (auto simp: sys_send_def goes_out_def emit_def split: list.splits option.splits)
    then show ?thesis
    proof
      assume "\<exists>b. trace w' = trace w @ [Send (sock c) b] \<and> goes_out w s b"
      then obtain b where "trace w' = trace w @ [Send (sock c) b]" "goes_out w s b" by blast
      then show ?thesis
        unfolding one_reply_def using c(1) r by (intro exI [of _ "[Send (sock c) b]"]) auto
    qed (auto simp: one_reply_def)
  qed
qed

lemma one_reply_refl [simp]: "one_reply k w w"
  by (rule hush_one) simp

lemma replies_one:
  "handled_ok (one_reply k) w (reply_bulk_str w rp cmdp k v)"
  "LONG_MIN \<le> n \<Longrightarrow> n \<le> LONG_MAX \<Longrightarrow> handled_ok (one_reply k) w (reply_integer w rp k n)"
  "handled_ok (one_reply k) w (reply_ok w rp k)"
  "CR \<notin> set m \<Longrightarrow> handled_ok (one_reply k) w (reply_err w rp k m)"
proof -
  have b: "handled_ok (one_reply k) w (reply_text w r k (bulk_msg v) e)" for r e
    by (rule reply_text_one [where x = "case v of None \<Rightarrow> RNil | Some d \<Rightarrow> RBulk d"])
      (auto simp: reads_as_def bulk_msg_def INT_MAX_def LONG_MAX_def intro!: resp_decode_bulk [unfolded bulk_msg_def])
  then show "handled_ok (one_reply k) w (reply_bulk_str w rp cmdp k v)"
    by (cases v) (auto simp: reply_bulk_str_def reply_nil_def bulk_msg_def split: option.split
      intro!: handled_Inr handled_return_0 [unfolded return_0_def])
  show "handled_ok (one_reply k) w (reply_integer w rp k n)" if "LONG_MIN \<le> n" "n \<le> LONG_MAX"
    using reply_text_one [of "int_msg n" "RInt n" k w] resp_decode_int [OF that]
    by (auto simp: reply_integer_def int_msg_def reads_as_def split: option.split intro!: handled)
  show "handled_ok (one_reply k) w (reply_ok w rp k)"
    using reply_text_one [of ok_msg "RSimple ''OK''" k w] resp_decode_ok
    by (auto simp: reply_ok_def reply_simple_str_def ok_msg_def reads_as_def split: option.split
        intro!: handled_Inr handled_return_0 [unfolded return_0_def])
  show "handled_ok (one_reply k) w (reply_err w rp k m)" if "CR \<notin> set m"
    using reply_text_one [of "err_msg m" "RError (''ERR '' @ m)" k w] resp_decode_err [OF that]
    by (auto simp: reply_err_def err_msg_def reads_as_def split: option.split intro!: handled)
qed

section \<open>The handlers\<close>

lemma hush_table: "hush k w u \<Longrightarrow> hush k w (put_table d t u)"
  by (erule hush_same) simp_all

lemma hush_files: "hush k w u \<Longrightarrow> hush k w (u\<lparr>files := fs\<rparr>)"
  by (erule hush_same) simp_all

lemma hush_mem: "hush k w u \<Longrightarrow> hush k w (u\<lparr>w_mem := m\<rparr>)"
  by (erule hush_same) simp_all

lemmas hushes = hush_refl hush_emit hush_table hush_files hush_mem hush_one

lemma replies_after:
  "hush k w u \<Longrightarrow> handled_ok (one_reply k) w (reply_bulk_str u rp cmdp k v)"
  "hush k w u \<Longrightarrow> LONG_MIN \<le> n \<Longrightarrow> n \<le> LONG_MAX \<Longrightarrow> handled_ok (one_reply k) w (reply_integer u rp k n)"
  "hush k w u \<Longrightarrow> handled_ok (one_reply k) w (reply_ok u rp k)"
  "hush k w u \<Longrightarrow> CR \<notin> set m \<Longrightarrow> handled_ok (one_reply k) w (reply_err u rp k m)"
  by (blast intro: handled_before replies_one)+

lemma int32_long [simp]: "LONG_MIN \<le> int32 n" "int32 n \<le> LONG_MAX"
  using int32_range [of n] by (simp_all add: INT_MIN_def INT_MAX_def LONG_MIN_def LONG_MAX_def)

lemma long_consts [simp]: "LONG_MIN \<le> 0" "0 \<le> LONG_MAX" "LONG_MIN \<le> 1" "1 \<le> LONG_MAX"
  by (simp_all add: LONG_MIN_def LONG_MAX_def)

lemma with_client_one:
  "(\<And>c. client_of w k = Inr c \<Longrightarrow> handled_ok (one_reply k) w (f c)) \<Longrightarrow> handled_ok (one_reply k) w (with_client w k rp f)"
  by (auto simp: with_client_def intro!: handled split: option.split)

lemma words_no_cr [simp]: "CR \<notin> set (wrong_args ''QUIT'')" "CR \<notin> set (wrong_args ''INCR'')"
  "CR \<notin> set (wrong_args ''SET'')" "CR \<notin> set (wrong_args ''GET'')" "CR \<notin> set (wrong_args ''DEL'')"
  "CR \<notin> set (wrong_args ''SELECT'')" "CR \<notin> set (wrong_args ''INFO'')" "CR \<notin> set CMD_ERR_MSG_UNKNOWN"
  by (simp_all add: char_consts wrong_args_def CMD_ERR_MSG_UNKNOWN_def)

lemma data_handlers_one:
  "handled_ok (one_reply k) w (cmd_get w cmd k rp)" "handled_ok (one_reply k) w (cmd_set w cmd k rp)"
  "handled_ok (one_reply k) w (cmd_del w cmd k rp)" "handled_ok (one_reply k) w (cmd_incr w cmd k rp)"
  unfolding cmd_get_def cmd_set_def cmd_del_def cmd_incr_def Let_def
  by (auto split: option.split intro!: with_client_one handled replies_after hushes)

lemma sends_none: "(\<And>fd m. Send fd m \<notin> set es) \<Longrightarrow> sends es = []"
  by (induction es rule: sends.induct) auto

lemma put_client_hush: "client_of w k = Inr c \<Longrightarrow> hush k w (put_client k (c\<lparr>db := d\<rparr>) w)"
  by (auto simp: hush_def client_of_def put_client_def split: option.splits if_splits)

lemma select_one: "handled_ok (one_reply k) w (cmd_select w cmd k rp)"
  unfolding cmd_select_def Let_def
  by (auto split: option.split intro!: with_client_one handled replies_after hushes put_client_hush
     dest!: replies_one(4) [THEN handled_okD, rotated])

lemma info_one: "handled_ok (one_reply k) w (cmd_info w cmd k rp)"
  unfolding cmd_info_def Let_def
  by (auto split: option.split prod.split bool.split intro!: with_client_one handled replies_after hushes sends_none)

lemma save_hush: "rdb_save w p = Inr (rc, w') \<Longrightarrow> hush k w w'"
  by (auto simp: rdb_save_def res_bind_eq_Inr Let_def table_reads_def in_set_enumerate_eq split: option.splits if_splits
      intro!: hush_emit hush_files hush_refl sends_none)

lemma load_hush: "rdb_load w p = Inr (rc, w') \<Longrightarrow> hush k w w'"
  using rdb_load_keeps [of w p rc w'] by (fastforce simp: load_keeps_def hush_def intro: sends_none)

lemma hush_trans: "hush k w u \<Longrightarrow> hush k u v \<Longrightarrow> hush k w v"
  by (fastforce simp: hush_def)

lemma locked_hush: "hush k w (emit (map WrLock ls) w)" "hush k w u \<Longrightarrow> hush k w (emit (map Unlock ls) u)"
  by (auto intro!: hush_emit sends_none)

lemma files_one: "handled_ok (one_reply k) w (cmd_save cmd w k rp)" "handled_ok (one_reply k) w (cmd_load cmd w k rp)"
  unfolding cmd_save_def cmd_load_def
  by (auto intro!: handled replies_after locked_hush intro: save_hush hush_trans [OF locked_hush(1) load_hush])

lemma quit_one: "handled_ok (one_reply k) w (cmd_quit w cmd k rp)"
proof -
  have closes: "\<exists>es. trace (snd (sys_close u fd)) = trace u @ es \<and> sends es = []" for u fd
    by (auto simp: sys_close_def split: list.split bool.split)
  have "one_reply k w (emit [Unlock ServerLock] (add_clients (-1) (emit [WrLock ServerLock]
      (put_client k (c\<lparr>sock := -1\<rparr>) (snd (sys_close u (sock c)))))))"
    "one_reply k w (snd (sys_close u (sock c)))" if "reply_ok w rp k = Inr (rc, rp', u)" for rc rp' u c
    using handled_okD [OF replies_one(3) that] closes [of u "sock c"] by (auto intro: one_after)
  then show ?thesis
    unfolding cmd_quit_def Let_def
    by (intro with_client_one; subst if_split)
      (auto intro!: handled_return_0 replies_one, auto simp: handled_ok_def res_bind_eq_Inr split_beta split: if_splits)
qed

section \<open>With nothing failing, there is an answer\<close>

text \<open>A connection that is open while nothing fails; what keeps it so; and an answer that goes out.\<close>

definition able :: "nat \<Rightarrow> World \<Rightarrow> bool" where
  "able k w \<longleftrightarrow> calm w \<and> (\<exists>c. client_of w k = Inr c \<and> sock c \<noteq> -1)"

definition still :: "nat \<Rightarrow> World \<Rightarrow> World \<Rightarrow> bool" where
  "still k w u \<longleftrightarrow> (able k w \<longrightarrow> able k u \<and> (\<exists>es. trace u = trace w @ es))"

definition heard :: "nat \<Rightarrow> World \<Rightarrow> World \<Rightarrow> bool" where
  "heard k w w' \<longleftrightarrow> (able k w \<longrightarrow> (\<exists>es. trace w' = trace w @ es \<and> sends es \<noteq> []))"

lemma still_refl: "still k w w"
  by (auto simp: still_def intro: exI [of _ "[]"])

lemma still_emit: "still k w u \<Longrightarrow> still k w (emit es u)"
  by (auto simp: still_def able_def)

lemma still_same: "still k w u \<Longrightarrow> trace v = trace u \<Longrightarrow> calm v = calm u \<Longrightarrow> client_of v = client_of u \<Longrightarrow> still k w v"
  by (auto simp: still_def able_def)

lemma still_table: "still k w u \<Longrightarrow> still k w (put_table d t u)"
  by (erule still_same) (simp_all add: calm_def)

lemma still_files: "still k w u \<Longrightarrow> still k w (u\<lparr>files := fs\<rparr>)"
  by (erule still_same) (simp_all add: calm_def)

lemma still_mem: "still k w u \<Longrightarrow> (w_mem u = [] \<Longrightarrow> m = []) \<Longrightarrow> still k w (u\<lparr>w_mem := m\<rparr>)"
  by (auto simp: still_def able_def calm_def)

lemma still_hash:
  assumes "still k w u" and "hash_set m0 (Some t) (Some key) (Some v) = Inr (rc, tp, m)" and "w_mem u = [] \<Longrightarrow> m0 = []"
  shows "still k w (u\<lparr>w_mem := m\<rparr>)"
  using assms(1) by (rule still_mem) (use assms(2,3) hash_set_mem in auto)

lemma heard_unable: "\<not> able k w \<Longrightarrow> heard k w v"
  by (simp add: heard_def)

lemma heard_before: "still k w u \<Longrightarrow> heard k u v \<Longrightarrow> heard k w v"
  by (fastforce simp: still_def heard_def sends_append)

lemma heard_after: "heard k w u \<Longrightarrow> trace v = trace u @ es \<Longrightarrow> heard k w v"
  by (fastforce simp: heard_def sends_append)

lemma handled_heard: "still k w u \<Longrightarrow> handled_ok (heard k) u h \<Longrightarrow> handled_ok (heard k) w h"
  by (auto simp: handled_ok_def intro: heard_before)

lemma reply_text_heard: "handled_ok (heard k) w (reply_text w r k s err)"
  by (auto simp: handled_ok_def heard_def able_def reply_text_def format_msg_def reply_send_def sys_send_calm res_bind_eq_Inr
      Let_def calm_def split: if_splits)

lemma replies_heard:
  assumes "still k w u"
  shows "handled_ok (heard k) w (reply_bulk_str u (Some r) (Some cmd) k v)"
    "handled_ok (heard k) w (reply_integer u (Some r) k n)" "handled_ok (heard k) w (reply_ok u (Some r) k)"
    "handled_ok (heard k) w (reply_err u (Some r) k m)"
  using handled_heard [OF assms reply_text_heard]
  by (auto simp: reply_bulk_str_def reply_nil_def reply_integer_def reply_ok_def reply_simple_str_def reply_err_def
      intro!: handled_return_0 [unfolded return_0_def] split: option.split)

lemma with_client_heard:
  assumes "\<And>c. client_of w k = Inr c \<Longrightarrow> handled_ok (heard k) w (f c)"
  shows "handled_ok (heard k) w (with_client w k rp f)"
  using assms by (auto simp: with_client_def handled_ok_def heard_def able_def client_of_def res_bind_eq_Inr
      split: option.splits if_splits)

lemma strbuf_append_mem: "strbuf_append [] sbp strp sepp = Inr (rc, sbp', m) \<Longrightarrow> m = []"
  by (auto simp: strbuf_append_def Let_def res_bind_eq_Inr split: option.splits prod.splits if_splits elim!: ensure_cap_cases)

lemma set_value_mem:
  assumes "set_value w cmd = Inr (strp, m)" and "w_mem w = []"
  shows "m = []"
proof -
  have f: "fold_res (\<lambda>acc t. res_bind (tok_str w cmd t) (append_piece acc)) (sbp, []) ts = Inr (sbp', m') \<Longrightarrow> m' = []" for sbp ts sbp' m'
    by (induction ts arbitrary: sbp) (auto simp: append_piece_def res_bind_eq_Inr dest!: strbuf_append_mem)
  show ?thesis
    using assms f by (auto simp: set_value_def strbuf_new_def Let_def res_bind_eq_Inr split: if_splits)
qed

lemmas stills = still_refl still_emit still_table still_files still_hash

lemma handlers_heard:
  "handled_ok (heard k) w (cmd_get w cmd k (Some r))" "handled_ok (heard k) w (cmd_set w cmd k (Some r))"
  "handled_ok (heard k) w (cmd_del w cmd k (Some r))" "handled_ok (heard k) w (cmd_incr w cmd k (Some r))"
  unfolding cmd_get_def cmd_set_def cmd_del_def cmd_incr_def Let_def
  by (auto split: option.split intro!: with_client_heard handled replies_heard stills dest: set_value_mem)

lemma still_select: "client_of w k = Inr c \<Longrightarrow> still k w (put_client k (c\<lparr>db := d\<rparr>) w)"
  by (auto simp: still_def able_def calm_def client_of_def put_client_def split: option.splits if_splits)

lemma select_heard: "handled_ok (heard k) w (cmd_select w cmd k (Some r))"
  unfolding cmd_select_def Let_def
  by (auto split: option.split intro!: with_client_heard handled replies_heard stills still_select
     dest!: replies_heard(4) [OF still_refl, THEN handled_okD])

lemma info_heard: "handled_ok (heard k) w (cmd_info w cmd k (Some r))"
proof -
  have "heard k w v" if "malloc (w_mem w) = (False, m)" for m v
    using that by (intro heard_unable) (auto simp: able_def calm_def)
  moreover have "still k w (w\<lparr>w_mem := m\<rparr>)" if "malloc (w_mem w) = (True, m)" for m
    using that by (intro still_mem still_refl) auto
  ultimately show ?thesis
    unfolding cmd_info_def Let_def
    by (intro with_client_heard)
      (auto split: option.split prod.split bool.split intro!: handled replies_heard still_emit intro: still_refl)
qed

lemma save_still: "rdb_save w p = Inr (rc, w') \<Longrightarrow> still k w w'"
  by (auto simp: rdb_save_def res_bind_eq_Inr Let_def split: option.splits if_splits intro!: still_emit still_files still_refl)

lemma load_still: "rdb_load w p = Inr (rc, w') \<Longrightarrow> still k w w'"
  using rdb_load_keeps [of w p rc w'] by (auto simp: load_keeps_def still_def able_def)

lemma still_trans: "still k w u \<Longrightarrow> still k u v \<Longrightarrow> still k w v"
  by (auto simp: still_def)

lemma files_heard: "handled_ok (heard k) w (cmd_save cmd w k (Some r))" "handled_ok (heard k) w (cmd_load cmd w k (Some r))"
  unfolding cmd_save_def cmd_load_def
  by (auto intro!: handled replies_heard still_emit intro: save_still still_trans [OF still_emit [OF still_refl] load_still])

lemma quit_heard: "handled_ok (heard k) w (cmd_quit w cmd k (Some r))"
proof -
  have "heard k w (emit [Unlock ServerLock] (add_clients (-1) (emit [WrLock ServerLock]
      (put_client k (c\<lparr>sock := -1\<rparr>) (snd (sys_close u (sock c)))))))"
    "heard k w (snd (sys_close u (sock c)))" if "reply_ok w (Some r) k = Inr (rc, rp', u)" for rc rp' u c
  proof -
    have "\<exists>es. trace (snd (sys_close u (sock c))) = trace u @ es"
      by (auto simp: sys_close_def split: list.split bool.split)
    then show "heard k w (emit [Unlock ServerLock] (add_clients (-1) (emit [WrLock ServerLock]
      (put_client k (c\<lparr>sock := -1\<rparr>) (snd (sys_close u (sock c)))))))"
      "heard k w (snd (sys_close u (sock c)))"
      using handled_okD [OF replies_heard(3) [OF still_refl] that] by (auto intro: heard_after)
  qed
  then show ?thesis
    unfolding cmd_quit_def Let_def
    by (intro with_client_heard; subst if_split)
      (auto intro!: handled_return_0 replies_heard still_refl, auto simp: handled_ok_def res_bind_eq_Inr split_beta split: if_splits)
qed
lemma dispatch_heard:
  assumes "cmd_dispatch (Some cmd) w k = Inr (rc, w')" and "ready cmd \<noteq> 0"
  shows "heard k w w'"
proof (cases "able k w")
  case True
  then have n: "reply_new w = (Some r_init, w)" by (simp add: able_def reply_new_calm)
  have run: "handled_ok (heard k) w (case entry cmd of CMD_GET \<Rightarrow> cmd_get w cmd k (Some r) | CMD_SET \<Rightarrow> cmd_set w cmd k (Some r)
      | CMD_DEL \<Rightarrow> cmd_del w cmd k (Some r) | CMD_QUIT \<Rightarrow> cmd_quit w cmd k (Some r) | CMD_SELECT \<Rightarrow> cmd_select w cmd k (Some r)
      | CMD_SAVE \<Rightarrow> cmd_save cmd w k (Some r) | CMD_LOAD \<Rightarrow> cmd_load cmd w k (Some r) | CMD_INFO \<Rightarrow> cmd_info w cmd k (Some r)
      | CMD_INCR \<Rightarrow> cmd_incr w cmd k (Some r) | CMD_UNKNOWN \<Rightarrow> reply_err w (Some r) k CMD_ERR_MSG_UNKNOWN)" for r
    by (auto split: CmdCode.split intro: handlers_heard select_heard info_heard files_heard quit_heard replies_heard still_refl)
  show ?thesis
    using assms n by (auto simp: cmd_dispatch_def res_bind_eq_Inr intro: handled_okD [OF run])
qed (rule heard_unable)

text \<open>
C18. Every command answers once, with a complete value.  In any state, whatever is parsed, and whichever
allocations, sends, closings and files fail, a command that is dispatched hands at most one message to \<open>send\<close>, on the
socket of its own client.  The message is a typed value of the protocol: a reader that
decodes it in front of any further bytes of the stream takes exactly the message and leaves the further bytes.  What goes
out is the whole message when \<open>send\<close> takes it all, and its first \<open>n\<close> bytes only when the next result of \<open>send\<close> is \<open>n\<close>.
And with nothing failing a complete command of an open connection does answer.
\<close>
theorem command_answers_once:
  assumes "cmd_dispatch cmdp w k = Inr (rc, w')"
  shows "\<exists>es. trace w' = trace w @ es \<and>
    (sends es = [] \<or> (\<exists>c m b r. client_of w k = Inr c \<and> sends es = [(sock c, b)] \<and>
      (case send_res w of [] \<Rightarrow> b = m | Some n # _ \<Rightarrow> b = take n m | None # _ \<Rightarrow> False) \<and>
      (\<forall>rest. resp_decode (m @ rest) = Some (r, rest)))) \<and>
    (calm w \<and> (\<exists>cmd. cmdp = Some cmd \<and> ready cmd \<noteq> 0) \<and> (\<exists>c. client_of w k = Inr c \<and> sock c \<noteq> -1) \<longrightarrow> sends es \<noteq> [])"
proof -
  have new: "hush k w u" if "reply_new w = (rp, u)" for rp u
    using that by (cases "malloc (w_mem w)"; cases "fst (malloc (w_mem w))") (auto simp: reply_new_def intro: hush_mem)
  have run: "handled_ok (one_reply k) u (case entry cmd of CMD_GET \<Rightarrow> cmd_get u cmd k rp | CMD_SET \<Rightarrow> cmd_set u cmd k rp
      | CMD_DEL \<Rightarrow> cmd_del u cmd k rp | CMD_QUIT \<Rightarrow> cmd_quit u cmd k rp | CMD_SELECT \<Rightarrow> cmd_select u cmd k rp
      | CMD_SAVE \<Rightarrow> cmd_save cmd u k rp | CMD_LOAD \<Rightarrow> cmd_load cmd u k rp | CMD_INFO \<Rightarrow> cmd_info u cmd k rp
      | CMD_INCR \<Rightarrow> cmd_incr u cmd k rp | CMD_UNKNOWN \<Rightarrow> reply_err u rp k CMD_ERR_MSG_UNKNOWN)" for u cmd rp
    by (auto split: CmdCode.split intro: data_handlers_one select_one info_one files_one quit_one replies_one)
  have one: "one_reply k w w'"
    using assms
    by (auto simp: cmd_dispatch_def res_bind_eq_Inr split: option.splits if_splits prod.splits
        intro: one_before [OF new handled_okD [OF run]])
  then obtain es where es: "trace w' = trace w @ es" "sends es = [] \<or> (\<exists>c m b r. client_of w k = Inr c \<and>
      sends es = [(sock c, b)] \<and> goes_out w m b \<and> reads_as m r)"
    unfolding one_reply_def by blast
  have "sends es \<noteq> []" if "calm w" "cmdp = Some cmd" "ready cmd \<noteq> 0" "client_of w k = Inr c" "sock c \<noteq> -1" for cmd c
    using dispatch_heard [OF assms [unfolded that(2)] that(3)] that(1,4,5) es(1) by (auto simp: heard_def able_def)
  with es show ?thesis by (intro exI [of _ es]) (auto simp: reads_as_def goes_out_def)
qed

theorem command_answers_once_witness:
  "\<exists>w' es. cmd_dispatch (Some (sample_cmd [''INCR'', ''k''] [0, 5])) (sample_in [''INCR'', ''k'']) 3 = Inr (0, w') \<and>
    trace w' = es \<and> sends es = [(0, int_msg 8)] \<and>
    (\<exists>m r. sends es = [(0, m)] \<and> (\<forall>rest. resp_decode (m @ rest) = Some (r, rest)))"
proof -
  let ?w = "sample_in [''INCR'', ''k'']"
  have s: "serving ?w 3 zero_client (sample_cmd [''INCR'', ''k''] [0, 5]) [''INCR'', ''k'']"
    by (rule sample_serving) (simp_all add: NUL_def)
  have "atoi ''7'' = 7" "int32 8 = 8" by code_simp+
  then have "fst (spec_step [''INCR'', ''k''] (abs_of ?w zero_client)) = RInt 8"
    by (simp add: spec_step_def Let_def command_of_def abs_of_def db_map_sample zero_client_def)
  moreover have "data_command [''INCR'', ''k'']" "words_size [''INCR'', ''k''] < 2 ^ 30"
    by (simp_all add: data_command_def command_of_def words_size_def)
  then obtain w' where w': "cmd_dispatch (Some (sample_cmd [''INCR'', ''k''] [0, 5])) ?w 3 = Inr (0, w')"
      "command_done (\<not> get_hit ?w zero_client [''INCR'', ''k'']) ?w 3 zero_client
        (spec_step [''INCR'', ''k''] (abs_of ?w zero_client)) w'"
    using dispatch_refines_spec [OF s sample_small] by blast
  ultimately have m: "sends (trace w') = [(0, int_msg 8)]"
    by (auto simp: command_done_def zero_client_def)
  have "client_of ?w 3 = Inr zero_client" by (rule servingD(4) [OF s])
  moreover have "send_res ?w = []" using servingD(2) [OF s] by (simp add: calm_def)
  ultimately show ?thesis using command_answers_once [OF w'(1)] m w'(1) by (auto simp: zero_client_def)
qed

end
