(* ===== verification/Spec2Isabelle.thy ===== *)
theory Spec2Isabelle
  imports StaleTokens CommandLine SaveFile Accepting OneReply
begin

text \<open>
  \<^bold>\<open>A verification of the minredis server.\<close>

  minredis is a key-value server in C: one thread per connection reads inline commands ended by CR LF,
  parses and executes them on one of sixteen hash tables whose buckets have a reader-writer lock each,
  and answers in the RESP format; the databases are written to and read from a binary snapshot file.
  The theories follow the files under \<^verbatim>\<open>src/src\<close> and \<^verbatim>\<open>src/include\<close>; a definition has the name of the
  function it models.

  \<^bold>\<open>The base.\<close>
  \<^item> \<open>Prelude\<close>: undefined behaviour as a value (\<open>ub + 'a\<close>, sequenced with \<open>res_bind\<close>), memory blocks with
    unwritten bytes, the outcomes of \<open>malloc\<close> as an argument, \<open>size_t\<close> and \<open>int\<close> arithmetic, and the
    hint collections \<open>res_simps\<close> and \<open>wf_intros\<close>.
  \<^item> \<open>CLib\<close>: \<open>atoi\<close>, \<open>strtol\<close> and the decimal conversions of \<open>printf\<close>, with their round trip.
  \<^item> \<open>KvInterface\<close>: the locales \<open>kv_store\<close> and \<open>listed_kv_store\<close>, what a key-value store promises its
    clients, with the lemmas on runs of operations and on reloading a listing.

  \<^bold>\<open>The components.\<close>
  \<^item> \<open>HashStore\<close> (\<^verbatim>\<open>hash.c\<close>): the chained table; a bucket is the list of its entries.  Well-formedness
    \<open>ht_wf\<close> (every key in the bucket of its hash, no key twice, C strings) is kept by every operation, the
    table refines a finite map, and it interprets the locale \<open>listed_kv_store\<close>.
  \<^item> \<open>StringBuf\<close> (\<^verbatim>\<open>strbuf.c\<close>): the growable buffer, as raw bytes for the input of a connection and as a C
    string for the value of \<open>SET\<close>.
  \<^item> \<open>TokenParser\<close> (\<^verbatim>\<open>parser.c\<close>, and the life of a \<open>Cmd\<close> in \<^verbatim>\<open>cmd.c\<close>): the tokenizer that writes
    terminators into the buffer; a token is a buffer and an offset, so that tokens of a freed buffer are
    \<open>Dangling\<close>.
  \<^item> \<open>ServerState\<close> (\<^verbatim>\<open>server.h\<close>): the server, its clients and tables, the outcomes of system calls, and the
    trace of the events of a thread.
  \<^item> \<open>ReplyMsg\<close> (\<^verbatim>\<open>reply.c\<close>): the RESP messages, with a reader of the protocol they are read back by.
  \<^item> \<open>Rdb\<close> (\<^verbatim>\<open>serializer.c\<close>): the snapshot writer and loader on lists of bytes.  \<open>SaveFile\<close> looks at the file
    while it is written: the calls of \<open>fwrite\<close> one by one (\<open>save_writes\<close>), on streams that pass their bytes to the file in any
    pieces (\<open>file_step\<close>), for a save that is killed and for two saves of one path.
  \<^item> \<open>Commands\<close> (\<^verbatim>\<open>cmd.c\<close>): the nine handlers and the dispatcher, with their guards and the order of lock
    operations, bucket accesses and messages.
  \<^item> \<open>Worker\<close> (\<^verbatim>\<open>worker_handle_client\<close> of \<^verbatim>\<open>server.c\<close>): the thread of a connection over what \<open>recv\<close> returns.
    The body of its loop is \<open>parse_line\<close>, the dispatcher and \<open>end_line\<close>, which \<open>Workers\<close> uses again.
  \<^item> \<open>ServerLife\<close> (the rest of \<^verbatim>\<open>server.c\<close>): start-up, \<open>accept\<close>, the snapshot thread and the exit, put
    together in the step relation \<open>life_step\<close>.
  \<^item> \<open>LogLib\<close> (\<^verbatim>\<open>log.c\<close>): the logger, its callbacks and what a log call writes.
  \<^item> \<open>CommandLine\<close> (\<^verbatim>\<open>minredis.c\<close>): the options and \<open>main\<close> up to the accept loop.

  \<^bold>\<open>What is shown across components.\<close>
  \<^item> \<open>CommandSpec\<close>: an abstract connection (sixteen maps, the selected one, open or not) with \<open>spec_step\<close>,
    and that the dispatcher refines it; the exceptions (\<open>INFO\<close>, \<open>SAVE\<close>, \<open>LOAD\<close>, overflow of \<open>INCR\<close>).
  \<^item> \<open>LockDiscipline\<close> and \<open>Threads\<close>: locks in one order, and interleavings of threads that take
    reader-writer locks; ordered threads never deadlock, disciplined ones never race.
  \<^item> \<open>Effects\<close>: the locale \<open>effect\<close>, a relation every reply respects, interpreted for the connections,
    for the command buffers and, in \<open>Safety\<close>, for well-formedness with the order of the locks.  \<open>Safety\<close>
    draws from it what holds of any command under any failures and for any number of connections.
  \<^item> \<open>ServerRuns\<close>: the invariant of every reachable state of the process, the end of the exit, the restart
    from a snapshot, and the runs in which slots are lost, shared or missed by the exit.
  \<^item> \<open>OneReply\<close>: any command, under any failures, sends at most one message, on its own socket; the
    message is a complete value of the protocol, all of it goes out unless \<open>send\<close> takes less, and a complete command of
    an open connection is answered when nothing fails.
  \<^item> \<open>StaleTokens\<close>: the two lines that make a connection read freed memory.
  \<^item> This theory: a value saved before a restart is served after it.

  \<^bold>\<open>Connections at the same time.\<close>  The handlers of \<^verbatim>\<open>cmd.c\<close> run in one thread per connection and share the
  tables.
  \<^item> \<open>Steps\<close>: the handlers once more, as programs that are cut at every lock operation, every call of the
    table and every message (\<open>get_steps\<close>, \<open>set_steps\<close> and so on, \<open>dispatch_steps\<close>), and the proof that a program
    that is not interrupted is the handler of \<open>Commands\<close> (\<open>dispatch_runs\<close>).
  \<^item> \<open>Concurrent\<close>: \<open>conn_step\<close> lets one of any number of connections cross one node of its program; a lock
    waits for the others, and a pointer that \<open>hash_get\<close> returned dangles once another connection has freed
    its value.  Shown here: locks stay exclusive, nothing deadlocks, every run ends.
  \<^item> \<open>Serial\<close> and \<open>Linear\<close>: the serial server, where each command takes effect at one node, and the
    simulation of the interleaved steps by serial calls (\<open>conn_step_sim\<close>).
  \<^item> \<open>Interleaved\<close>: the properties of whole runs: they are serialisable, they end served, no increment is
    lost, and a \<open>GET\<close> can read freed memory.
  \<^item> \<open>Snapshots\<close>: the tables that \<open>rdb_save\<close> writes while others go on are those of one moment, by an
    invariant over what each program may still write (\<open>snap_inv\<close>), with the states that a connection may have seen
    as its parameter.
  \<^item> \<open>Workers\<close>: the threads from the bytes they receive.  A thread reads, finds a line, parses it in a buffer
    of its own, runs the program of the command node by node among the programs of the others, and
    removes the line (\<open>own_step\<close>, \<open>work_step\<close>).  A thread that runs alone ends where \<open>worker_handle_client\<close> of
    \<open>Worker\<close> ends, since each of its steps keeps what the worker still has to do (\<open>rest_of_thread\<close>), which ties both
    translations of the handlers and of the loop to each other.  Among other threads, each step is simulated by the serial server (\<open>own_sim\<close>, \<open>runs_sim\<close>), so the streams of all connections
    are answered as one stream; runs end, by a lexicographic rank of each thread.
  \<^item> \<open>SaveThread\<close>: the thread of the periodic snapshot runs the program of \<open>rdb_save\<close> among those of the
    connections; a step of all threads is one of the connections, as if there were no snapshot, or one of the snapshot,
    which the connections do not notice (\<open>work_step_split\<close>).
  \<^item> \<open>Accepting\<close>: the process from its start.  Between the steps of the threads the main thread accepts connections
    (\<open>sys_step\<close>, with \<open>server_accept_client\<close> of \<open>ServerLife\<close>); a new connection extends the simulation
    (\<open>sim_join\<close>), because no step of a thread touches a slot that is not its own (\<open>spares\<close>).  The server as a
    whole is serialisable, it keeps going until every line is answered (\<open>all_answered\<close>), and every snapshot that it writes is a state of the serial server that
    contains all that the client of the \<open>SAVE\<close> has done (\<open>sys_inv\<close>).

  \<^bold>\<open>Bounds.\<close>  No definition uses fuel: every loop is a recursion with its termination proved (the capacity
  loop on the missing capacity, the tokenizer and the loader on the bytes left, the command loop on the
  bytes buffered).  The refinement theorems bound the sizes where the code computes with \<open>int\<close>: a command
  line is below \<open>2 ^ 28\<close> bytes, the words of a command below \<open>2 ^ 30\<close>, a value sent so short that its message
  fits an \<open>int\<close>; a snapshot is read back if every length fits the 32-bit length field of the format.

  \<^bold>\<open>Not modelled.\<close>  The release of memory (\<open>free\<close> and the functions \<open>strbuf_free\<close>, \<open>cmd_free\<close>, \<open>reply_free\<close>) is
  modelled only where it is observable, for the buffer of a command.  \<open>fwrite\<close> and \<open>fclose\<close> do not fail.  A step
  of \<open>life_step\<close> runs all that a thread does with one result of \<open>recv\<close> at once; the interleaving within
  commands is the matter of \<open>Concurrent\<close> and \<open>Workers\<close> and, with connections that
  are accepted meanwhile, of \<open>Accepting\<close>.  There the parser and the bookkeeping of a thread, which touch only
  its own memory, are one step, what the main thread does for a connection
  is one step together with the allocations of the new thread, and the walk of
  \<open>INFO\<close> along one bucket, which it makes without a lock, is one step: that an entry is freed under the
  walk is not followed.  The exit runs in \<open>life_step\<close> only.  A \<open>LOAD\<close> lets every
  pointer into the tables dangle, those to entries it does not replace included.  The serialisability is stated
  for connections that send neither \<open>INFO\<close> nor \<open>LOAD\<close>, nor a \<open>QUIT\<close> that closes the connection,
  nor a \<open>SAVE\<close> without a path.  The memory model is sequentially consistent.  Outside
  \<open>SaveFile\<close> the bytes of a snapshot appear in the file at once, when it is closed, so the theorems on the running
  server say what a save writes and not what overlapping saves make of one file.  The calls of the server to the
  logger are left out of the handlers: they only write to the standard error.  The unit tests and the
  benchmark scripts are not part of the server.
\<close>

section \<open>From a snapshot to an answer\<close>

text \<open>
C7. What was saved is served after a restart.  Take a well-formed server with nothing failing, whose
entries fit the snapshot format and whose values are short enough to be sent, and a key with a value in
database 0.  If the snapshot thread runs and then the program is started anew over the same files with
the option \<open>--restore\<close>, then it starts, its first connection gets slot 0, and a line that asks GET for
the key, cut into any pieces, is answered with exactly that value.
\<close>
theorem saved_value_served:
  assumes "world_wf w" and "calm w" and "small_values w" and "\<forall>t \<in> set (db_tables w). saveable t"
    and "writable w RDB_PATH" and "db_map w 0 key = Some v"
    and "fd \<noteq> -1" and "cfd \<noteq> -1" and "length l < 2 ^ 28" and "\<not> has_crlf (l @ [CR])"
    and "words (l @ CRLF) = [''GET'', key]" and "concat chunks = l @ CRLF"
  shows "\<exists>w1 Lg w2 w3 w4 es. worker_save 1 w = Inr w1 \<and>
    main_start inet_addr [''--restore''] initial_logger (w1\<lparr>server := None, w_mem := []\<rparr>) fd 0 0 = Inr (Go (Lg, w2)) \<and>
    server_accept_client w2 (Accepted cfd a p) tid = Inr (0, Some 0, w3) \<and>
    worker_handle_client w3 0 (map RecvData chunks) = Inr (Waiting, w4) \<and>
    trace w4 = trace w3 @ es \<and> sends es = [(cfd, bulk_msg (Some v))]"
proof -
  obtain w1 u w2 socks ths where r: "worker_save 1 w = Inr w1"
      "server_create (w1\<lparr>server := None, w_mem := []\<rparr>) fd 0 PORT_DEFAULT INADDR_ANY 1 = Go u" "server_setup u 0 = Inr (Go w2)"
      "world_wf w2" "db_map w2 = db_map w" "calm w2" "conns w2 = Some (socks, ths, 0)"
      "\<forall>k < MAX_CONN. client_of w2 k = Inr zero_client"
    using restored_start [OF assms(1,4,5,7), of PORT_DEFAULT INADDR_ANY] assms(2) by blast
  have start: "main_start inet_addr [''--restore''] initial_logger (w1\<lparr>server := None, w_mem := []\<rparr>) fd 0 0 =
      Inr (Go (log_options (default_options\<lparr>o_restore := 1\<rparr>) initial_logger, w2))"
    using r(2,3) by (simp add: main_start_def default_options_def INADDR_NONE_def INADDR_ANY_def)
  obtain s where s: "server w2 = Some s" "clients_count s = 0" "server_wf s"
    using r(4,7) by (auto simp: conns_def world_wf_def)
  let ?c = "(clients_array s ! 0)\<lparr>sock := cfd, ip := a, port := p\<rparr>"
  let ?w3 = "registered w2 0 ?c tid"
  have acc: "server_accept_client w2 (Accepted cfd a p) tid = Inr (0, Some 0, ?w3)"
    using accept_cases [OF s(1,3), of cfd a p tid] s(2) r(6) by (simp add: MAX_CONN_def)
  have z: "client_of w2 0 = Inr zero_client" using r(8) by (simp add: MAX_CONN_def)
  then have c: "?c = zero_client\<lparr>sock := cfd, ip := a, port := p\<rparr>"
    using s(1) by (auto simp: client_of_def split: if_splits)
  have "client_of ?w3 0 = Inr ?c"
    using s(1,3)
    by (auto simp: registered_def client_of_def put_thread_def put_client_def add_clients_def server_wf_def MAX_CONN_def)
  moreover have w3: "world_wf ?w3" "calm ?w3" "small_values ?w3" "db_map ?w3 = db_map w"
    using r(4,5,6) assms(3) c
    by (auto simp: registered_simps small_values_def zero_client_def NUM_DBS_def intro!: wf_intros)
  moreover have ls: "fst (lines_of (concat chunks)) = [l]"
    using lines_of_simps(2) [OF read_line_crlf [OF assms(10), of "[]"]] lines_of_simps(1) [of "[]"] assms(12) by simp
  moreover have "line_ok l"
    using assms(9,11) by (simp add: line_ok_def data_command_def command_of_def)
  moreover have "length (concat chunks) < size_mod"
    using assms(9,12) by (simp add: size_mod_def CRLF_def)
  ultimately obtain w4 c4 where w4: "worker_handle_client ?w3 0 (map RecvData chunks) =
      Inr (if sock c4 = -1 then Finished else Waiting, w4)" "client_of w4 0 = Inr c4"
      "served ?w3 0 ?c (spec_run [l] (abs_of ?w3 ?c)) w4"
    using worker_serves [of ?w3 0 ?c chunks] assms(8) by (auto simp: MAX_CONN_def)
  have "spec_run [l] (abs_of ?w3 ?c) = ([RBulk v], abs_of ?w3 ?c)"
    using assms(6,8,11) w3(4) c by (simp add: spec_step_def Let_def command_of_def abs_of_def zero_client_def)
  with w4(2,3) obtain es where "abs_of w4 c4 = abs_of ?w3 ?c" "trace w4 = trace ?w3 @ es" "sends es = [(cfd, bulk_msg (Some v))]"
    by (auto simp: served_def)
  moreover from this(1) have "sock c4 \<noteq> -1" using a_open_abs_of [of w4 c4] assms(8) by simp
  ultimately show ?thesis using r(1) start acc w4(1) by auto
qed

theorem saved_value_served_witness:
  "\<exists>w1 Lg w2 w3 w4 es. worker_save 1 sample_world = Inr w1 \<and>
    main_start (\<lambda>_. 0) [''--restore''] initial_logger (w1\<lparr>server := None, w_mem := []\<rparr>) 3 0 0 = Inr (Go (Lg, w2)) \<and>
    server_accept_client w2 (Accepted 4 ''ip'' 9) 0 = Inr (0, Some 0, w3) \<and>
    worker_handle_client w3 0 [RecvData (''GET k'' @ CRLF)] = Inr (Waiting, w4) \<and>
    trace w4 = trace w3 @ es \<and> sends es = [(4, bulk_msg (Some ''7''))]"
proof -
  have "db_map sample_world 0 ''k'' = Some ''7''" by (simp add: db_map_sample)
  moreover have "\<not> has_crlf (''GET k'' @ [CR])" by (simp add: char_consts)
  ultimately show ?thesis
    using saved_value_served [OF sample_world_wf(1,2) sample_small_values saveable_sample sample_world_wf(4),
        of "''k''" "''7''" 3 4 "''GET k''" "[''GET k'' @ CRLF]"] sample_words(1)
    by simp
qed

end
